(* ===== verification/Prelude.thy ===== *)
theory Prelude
  imports Main "HOL-Library.Word" "HOL-Library.Monad_Syntax"
begin

text \<open>
  What every component theory shares: the machine integer types of the
  sources, \<open>size_t\<close> arithmetic on natural numbers with the wrap-around written
  out, and the generic facts on lists, options and maps that the component
  proofs use.

  Two conventions hold in the whole development.
  \<^item> A kernel routine that works on memory returns an \<open>option\<close>: \<open>None\<close> stands
    for a run that does not return, or that dereferences memory that does not
    hold an object (the machine faults there). Every totality lemma says that
    the result is \<open>Some\<close> from a well-formed state.
  \<^item> Pointers are natural numbers, \<open>0\<close> is \<open>NULL\<close>.
\<close>

section \<open>Machine integers\<close>

type_synonym u8 = "8 word"
type_synonym u16 = "16 word"
type_synonym u32 = "32 word"
type_synonym u64 = "64 word"
type_synonym ptr = nat

text \<open>
  Addresses and sizes are natural numbers below \<open>2 ^ 64\<close>; an expression that
  the C code computes in \<open>size_t\<close> is reduced with \<open>w64\<close>.
\<close>

definition w64 :: "nat \<Rightarrow> nat" where
  "w64 n = n mod 2 ^ 64"

text \<open>Subtraction of \<open>size_t\<close> values: the C result, which wraps below zero.\<close>

definition w64_sub :: "nat \<Rightarrow> nat \<Rightarrow> nat" where
  "w64_sub a b = (a + (2 ^ 64 - b mod 2 ^ 64)) mod 2 ^ 64"

lemma w64_id [simp]: "n < 2 ^ 64 \<Longrightarrow> w64 n = n"
  by (simp add: w64_def)

lemma w64_less [simp]: "w64 n < 2 ^ 64"
  by (simp add: w64_def)

lemma w64_sub_id [simp]: "b \<le> a \<Longrightarrow> a < 2 ^ 64 \<Longrightarrow> w64_sub a b = a - b"
proof -
  assume le: "b \<le> a" and lt: "a < 2 ^ 64"
  have "a + (2 ^ 64 - b mod 2 ^ 64) = (a - b) + 2 ^ 64"
    using le lt by simp
  then show ?thesis
    using lt by (simp add: w64_sub_def)
qed

section \<open>Lists\<close>

lemma filter_append_Cons_hd:
  "filter P xs = [] \<Longrightarrow> P b \<Longrightarrow> filter P (xs @ b # ys) = b # filter P ys"
  by simp

lemma sorted_wrt_less_append:
  "sorted_wrt (<) (xs @ ys) \<longleftrightarrow>
     sorted_wrt (<) xs \<and> sorted_wrt (<) ys \<and> (\<forall>x\<in>set xs. \<forall>y\<in>set ys. x < (y :: nat))"
  by (simp add: sorted_wrt_append)

lemma sorted_wrt_less_distinct:
  "sorted_wrt (<) (xs :: nat list) \<Longrightarrow> distinct xs"
  by (induction xs) auto

section \<open>Entries of the keyed containers\<close>

text \<open>An entry is the address of its node with the key and the value the node holds.\<close>

definition entry_key :: "ptr \<times> u64 \<times> ptr \<Rightarrow> u64" where
  "entry_key e = fst (snd e)"

definition found :: "(ptr \<times> u64 \<times> ptr) option \<Rightarrow> ptr" where
  "found e = (case e of None \<Rightarrow> 0 | Some e \<Rightarrow> fst e)"

end
