(* ===== verification/Kmutex.thy ===== *)
theory Kmutex
  imports Prelude
begin

text \<open>
  The sleeping mutex of the kernel, \<open>src/klib/threading/kmutex.c\<close>, and its user
  space twin \<open>src/posix/mutex/pthread_mutex.c\<close>, over the exchange instruction of
  \<open>include/balrog/arch/x86_64/x86.h\<close> and the park system calls of
  \<open>src/kernel/syscall/process_management/sys_park.c\<close>.

  The C structure puts a 32 bit \<open>lock\<close> at offset 0 and an 8 bit \<open>flag\<close> at offset
  4, followed by three bytes of padding; \<open>xchg\<close> exchanges the 64 bits at the
  address of \<open>lock\<close>. The model keeps the four parts of that 64 bit word. The
  wait queue is the list of the process ids in it.
\<close>

section \<open>The mutex word\<close>

record kmutex =
  lock :: nat
  flag :: nat
  pad :: nat
  count :: nat
  wait_queue :: "nat list"

text \<open>The 64 bits at the address of \<open>lock\<close>, little endian.\<close>

definition word64 :: "kmutex \<Rightarrow> nat" where
  "word64 k = lock k + 2 ^ 32 * flag k + 2 ^ 40 * pad k"

definition kmutex_wf :: "kmutex \<Rightarrow> bool" where
  "kmutex_wf k \<longleftrightarrow> lock k < 2 ^ 32 \<and> flag k < 2 ^ 8 \<and> pad k < 2 ^ 24"

definition xchg :: "nat \<Rightarrow> kmutex \<Rightarrow> nat \<times> kmutex" where
  "xchg new_val k =
     (word64 k, k\<lparr>lock := new_val mod 2 ^ 32,
                   flag := new_val div 2 ^ 32 mod 2 ^ 8,
                   pad := new_val div 2 ^ 40 mod 2 ^ 24\<rparr>)"

definition kmutex_init :: "kmutex \<Rightarrow> kmutex" where
  "kmutex_init k = k\<lparr>lock := 0, flag := 0, count := 0, wait_queue := []\<rparr>"

lemma xchg_0 [simp]: "xchg 0 k = (word64 k, k\<lparr>lock := 0, flag := 0, pad := 0\<rparr>)"
  by (simp add: xchg_def)

lemma xchg_1 [simp]: "xchg 1 k = (word64 k, k\<lparr>lock := 1, flag := 0, pad := 0\<rparr>)"
  "xchg (Suc 0) k = (word64 k, k\<lparr>lock := 1, flag := 0, pad := 0\<rparr>)"
  by (simp_all add: xchg_def)

lemma word64_0 [simp]: "word64 k = 0 \<longleftrightarrow> lock k = 0 \<and> flag k = 0 \<and> pad k = 0"
  by (simp add: word64_def)

lemma word64_pos [simp]: "0 < word64 k \<longleftrightarrow> \<not> (lock k = 0 \<and> flag k = 0 \<and> pad k = 0)"
  by (auto simp: word64_def)

section \<open>Uninterrupted calls\<close>

text \<open>
  A caller that runs alone: \<open>None\<close> when it spins or parks, since then the call
  does not return before somebody else acts.
\<close>

definition kmutex_lock :: "kmutex \<Rightarrow> kmutex option" where
  "kmutex_lock k =
     (case xchg 1 k of (old, k1) \<Rightarrow>
        if old \<noteq> 0 then None
        else if flag k1 = 0 then Some (snd (xchg 0 (k1\<lparr>flag := 1\<rparr>)))
        else None)"

text \<open>The calls of \<open>unpark\<close> are the second result.\<close>

definition kmutex_unlock :: "kmutex \<Rightarrow> (kmutex \<times> nat list) option" where
  "kmutex_unlock k =
     (case xchg 1 k of (old, k1) \<Rightarrow>
        if old \<noteq> 0 then None
        else case wait_queue k1 of
          [] \<Rightarrow> Some (snd (xchg 0 (k1\<lparr>flag := 0\<rparr>)), [])
        | pid # rest \<Rightarrow> Some (snd (xchg 0 (k1\<lparr>wait_queue := rest\<rparr>)), [pid]))"

definition mutex_free :: "kmutex \<Rightarrow> bool" where
  "mutex_free k \<longleftrightarrow> word64 k = 0 \<and> wait_queue k = []"

lemma kmutex_lock_free: "mutex_free k \<Longrightarrow> kmutex_lock k = Some k"
  by (simp add: mutex_free_def kmutex_lock_def)

lemma kmutex_unlock_free: "mutex_free k \<Longrightarrow> kmutex_unlock k = Some (k, [])"
  by (simp add: mutex_free_def kmutex_unlock_def)

section \<open>Interleaved calls\<close>

text \<open>
  Where a thread stands: outside, spinning for the guard, in the branches of
  \<open>kmutex_lock\<close>, past \<open>kmutex_lock\<close> (\<open>Held\<close>), and in \<open>kmutex_unlock\<close>. Every
  constructor is the next access to shared memory, or the next system call.
\<close>

datatype mpc =
    Idle
  | LockSpin | LockTest | LockSet | LockRelease
  | ParkEnqueue | SetPark | ParkRelease | Park | Asleep
  | Held
  | UnlockSpin | UnlockTest | UnlockRelease

record msys =
  mutex :: kmutex
  about_to_park :: nat
  pc :: "nat \<Rightarrow> mpc"

text \<open>One step of the thread with process id \<open>pid\<close>. A sleeping thread makes no
  step: \<open>unpark\<close>, in the step of another thread, wakes it up.\<close>

definition at :: "nat \<Rightarrow> mpc \<Rightarrow> msys \<Rightarrow> msys" where
  "at pid l s = s\<lparr>pc := (pc s)(pid := l)\<rparr>"

definition unpark :: "nat \<Rightarrow> msys \<Rightarrow> msys" where
  "unpark pid s =
     (let s1 = s\<lparr>about_to_park := 0\<rparr>
      in if pc s1 pid = Asleep then at pid Held s1 else s1)"

definition mtx_step :: "nat \<Rightarrow> msys \<Rightarrow> msys" where
  "mtx_step pid s = (case pc s pid of
     Idle \<Rightarrow> at pid LockSpin s
   | LockSpin \<Rightarrow> (case xchg 1 (mutex s) of (old, k) \<Rightarrow>
       at pid (if old \<noteq> 0 then LockSpin else LockTest) (s\<lparr>mutex := k\<rparr>))
   | LockTest \<Rightarrow> at pid (if flag (mutex s) = 0 then LockSet else ParkEnqueue) s
   | LockSet \<Rightarrow> at pid LockRelease (s\<lparr>mutex := (mutex s)\<lparr>flag := 1\<rparr>\<rparr>)
   | LockRelease \<Rightarrow> at pid Held (s\<lparr>mutex := snd (xchg 0 (mutex s))\<rparr>)
   | ParkEnqueue \<Rightarrow> at pid SetPark
       (s\<lparr>mutex := (mutex s)\<lparr>wait_queue := wait_queue (mutex s) @ [pid]\<rparr>\<rparr>)
   | SetPark \<Rightarrow> at pid ParkRelease (s\<lparr>about_to_park := pid\<rparr>)
   | ParkRelease \<Rightarrow> at pid Park (s\<lparr>mutex := snd (xchg 0 (mutex s))\<rparr>)
   | Park \<Rightarrow> at pid (if about_to_park s = pid then Asleep else Held) s
   | Asleep \<Rightarrow> s
   | Held \<Rightarrow> at pid UnlockSpin s
   | UnlockSpin \<Rightarrow> (case xchg 1 (mutex s) of (old, k) \<Rightarrow>
       at pid (if old \<noteq> 0 then UnlockSpin else UnlockTest) (s\<lparr>mutex := k\<rparr>))
   | UnlockTest \<Rightarrow> at pid UnlockRelease
       (case wait_queue (mutex s) of
          [] \<Rightarrow> s\<lparr>mutex := (mutex s)\<lparr>flag := 0\<rparr>\<rparr>
        | p # rest \<Rightarrow> unpark p (s\<lparr>mutex := (mutex s)\<lparr>wait_queue := rest\<rparr>\<rparr>))
   | UnlockRelease \<Rightarrow> at pid Idle (s\<lparr>mutex := snd (xchg 0 (mutex s))\<rparr>))"

inductive mtx_reach :: "msys \<Rightarrow> msys \<Rightarrow> bool" for s0 :: msys where
  reach_refl: "mtx_reach s0 s0"
| reach_step: "mtx_reach s0 s \<Longrightarrow> mtx_reach s0 (mtx_step pid s)"

definition msys_init :: "kmutex \<Rightarrow> msys" where
  "msys_init k = \<lparr>mutex = kmutex_init k, about_to_park = 0, pc = (\<lambda>_. Idle)\<rparr>"

text \<open>The instructions between taking the guard and giving it back.\<close>

definition guarded :: "mpc \<Rightarrow> bool" where
  "guarded l \<longleftrightarrow> l \<in> {LockTest, LockSet, LockRelease, ParkEnqueue, SetPark, ParkRelease,
                      UnlockTest, UnlockRelease}"

section \<open>What the guard protects\<close>

text \<open>
  The guard is taken exactly while one thread is in the guarded code; the flag
  is set only between its assignment and the exchange right behind it, which
  clears it again; so no thread ever takes the branch that parks.
\<close>

definition inside :: "msys \<Rightarrow> nat set" where
  "inside s = {p. guarded (pc s p)}"

definition parking :: "msys \<Rightarrow> nat set" where
  "parking s = {p. pc s p \<in> {ParkEnqueue, SetPark, ParkRelease, Park, Asleep}}"

definition mtx_inv :: "msys \<Rightarrow> bool" where
  "mtx_inv s \<longleftrightarrow> pad (mutex s) = 0 \<and> wait_queue (mutex s) = [] \<and> parking s = {} \<and>
     (inside s = {} \<and> lock (mutex s) = 0 \<or> (\<exists>p. inside s = {p}) \<and> lock (mutex s) = 1) \<and>
     (flag (mutex s) \<noteq> 0 \<longrightarrow> (\<exists>p. pc s p = LockRelease))"

lemma at_simps [simp]:
  "pc (at pid l s) = (pc s)(pid := l)" "mutex (at pid l s) = mutex s"
  "about_to_park (at pid l s) = about_to_park s"
  by (simp_all add: at_def)

lemma inside_at [simp]:
  "inside (at pid l s) = (if guarded l then insert pid (inside s) else inside s - {pid})"
  by (auto simp: inside_def)

lemma parking_at [simp]:
  "parking (at pid l s) = (if l \<in> {ParkEnqueue, SetPark, ParkRelease, Park, Asleep}
     then insert pid (parking s) else parking s - {pid})"
  by (auto simp: parking_def)

lemma inside_mutex [simp]: "inside (s\<lparr>mutex := m\<rparr>) = inside s" "parking (s\<lparr>mutex := m\<rparr>) = parking s"
  by (simp_all add: inside_def parking_def)

lemma inside_iff: "p \<in> inside s \<longleftrightarrow> guarded (pc s p)"
  by (simp add: inside_def)

lemma mtx_inv_init: "pad k = 0 \<Longrightarrow> mtx_inv (msys_init k)"
  by (simp add: mtx_inv_def msys_init_def kmutex_init_def guarded_def inside_def parking_def)

text \<open>Three kinds of steps: outside the guard, into and inside it, out of it.\<close>

lemma release_other:
  "(\<exists>p. pc s p = LockRelease) \<Longrightarrow> pc s pid \<noteq> LockRelease \<Longrightarrow> \<exists>p. ((pc s)(pid := l)) p = LockRelease"
  by (metis fun_upd_other)

lemma mtx_inv_outside:
  assumes "mtx_inv s" "\<not> guarded (pc s pid)" "\<not> guarded l" "l \<notin> {Park, Asleep}"
    "m = mutex s \<or> m = (mutex s)\<lparr>flag := 0\<rparr>"
  shows "mtx_inv (at pid l (s\<lparr>mutex := m\<rparr>))"
proof -
  have i: "inside s - {pid} = inside s" using assms(2) by (auto simp: inside_def)
  have l: "l \<notin> {ParkEnqueue, SetPark, ParkRelease, Park, Asleep}"
    using assms(3,4) by (auto simp: guarded_def)
  have ne: "pc s pid \<noteq> LockRelease" using assms(2) by (auto simp: guarded_def)
  have m: "pad m = 0" "wait_queue m = []" "lock m = lock (mutex s)" "flag m \<noteq> 0 \<Longrightarrow> flag (mutex s) \<noteq> 0"
    using assms(1,5) by (auto simp: mtx_inv_def)
  have r: "flag m \<noteq> 0 \<longrightarrow> (\<exists>p. ((pc s)(pid := l)) p = LockRelease)"
    using m(4) release_other[OF _ ne] assms(1) unfolding mtx_inv_def by blast
  have o: "inside s = {} \<and> lock m = 0 \<or> (\<exists>p. inside s = {p}) \<and> lock m = 1" "parking s = {}"
    using assms(1) m(3) unfolding mtx_inv_def by auto
  show ?thesis
    unfolding mtx_inv_def using m(1,2) i l o r assms(3) by simp
qed

lemma mtx_inv_enter:
  assumes inv: "mtx_inv s" and out: "inside s = {}" and l: "l \<in> {LockTest, UnlockTest}"
  shows "mtx_inv (at pid l (s\<lparr>mutex := (mutex s)\<lparr>lock := 1, flag := 0, pad := 0\<rparr>\<rparr>))"
  using assms unfolding mtx_inv_def by (auto simp: guarded_def)

lemma mtx_inv_only:
  "mtx_inv s \<Longrightarrow> guarded (pc s pid) \<Longrightarrow> inside s = {pid}"
  using inside_iff[of pid s] by (auto simp: mtx_inv_def)

lemma mtx_inv_inside:
  assumes inv: "mtx_inv s" and ins: "guarded (pc s pid)" "guarded l"
    and l: "l \<notin> {ParkEnqueue, SetPark, ParkRelease}" and f: "f \<noteq> 0 \<Longrightarrow> l = LockRelease"
  shows "mtx_inv (at pid l (s\<lparr>mutex := (mutex s)\<lparr>flag := f\<rparr>\<rparr>))"
proof -
  have "l \<notin> {ParkEnqueue, SetPark, ParkRelease, Park, Asleep}" using ins(2) l by (auto simp: guarded_def)
  then show ?thesis
    using inv mtx_inv_only[OF inv ins(1)] ins(2) f unfolding mtx_inv_def by auto
qed

lemma mtx_inv_leave:
  assumes inv: "mtx_inv s" and ins: "guarded (pc s pid)" and l: "l \<in> {Held, Idle}"
  shows "mtx_inv (at pid l (s\<lparr>mutex := snd (xchg 0 (mutex s))\<rparr>))"
  using inv mtx_inv_only[OF inv ins] l unfolding mtx_inv_def by (auto simp: guarded_def)

lemma mtx_inv_flag_inside:
  assumes inv: "mtx_inv s" and f: "flag (mutex s) \<noteq> 0"
  shows "\<exists>p. inside s = {p} \<and> pc s p = LockRelease"
proof -
  obtain p where p: "pc s p = LockRelease" using assms by (auto simp: mtx_inv_def)
  then show ?thesis using mtx_inv_only[OF inv, of p] by (auto simp: guarded_def)
qed

lemma mtx_inv_word: "mtx_inv s \<Longrightarrow> word64 (mutex s) = 0 \<longleftrightarrow> inside s = {}"
  using mtx_inv_flag_inside[of s] by (auto simp: mtx_inv_def)

lemma mtx_inv_word_taken:
  assumes inv: "mtx_inv s" and "word64 (mutex s) \<noteq> 0"
  shows "(mutex s)\<lparr>lock := 1, flag := 0, pad := 0\<rparr> = (mutex s)\<lparr>flag := 0\<rparr>"
proof -
  have "lock (mutex s) = 1" "pad (mutex s) = 0"
    using assms mtx_inv_word[OF inv] by (auto simp: mtx_inv_def)
  then show ?thesis by simp
qed

lemma mtx_inv_flag_test:
  assumes inv: "mtx_inv s" and pc: "pc s pid = LockTest"
  shows "flag (mutex s) = 0"
  using mtx_inv_flag_inside[OF inv] mtx_inv_only[OF inv, of pid] pc by (auto simp: guarded_def)

lemma mtx_inv_step:
  assumes inv: "mtx_inv s"
  shows "mtx_inv (mtx_step pid s)"
proof (cases "pc s pid")
  case Idle
  then show ?thesis using mtx_inv_outside[OF inv, of pid LockSpin "mutex s"]
    by (simp add: mtx_step_def guarded_def)
next
  case LockSpin
  then show ?thesis
    using mtx_inv_outside[OF inv, of pid LockSpin "(mutex s)\<lparr>flag := 0\<rparr>"]
      mtx_inv_enter[OF inv, of LockTest pid] mtx_inv_word[OF inv] mtx_inv_word_taken[OF inv]
    by (cases "word64 (mutex s) = 0") (simp_all add: mtx_step_def guarded_def del: word64_0 word64_pos)
next
  case LockTest
  have f: "flag (mutex s) = 0" by (rule mtx_inv_flag_test[OF inv LockTest])
  then have e: "s\<lparr>mutex := (mutex s)\<lparr>flag := 0\<rparr>\<rparr> = s" by simp
  show ?thesis
    using mtx_inv_inside[OF inv, of pid LockSet 0, unfolded e] f LockTest
    by (simp add: mtx_step_def guarded_def)
next
  case LockSet
  then show ?thesis using mtx_inv_inside[OF inv, of pid LockRelease 1]
    by (simp add: mtx_step_def guarded_def)
next
  case LockRelease
  then show ?thesis using mtx_inv_leave[OF inv, of pid Held] by (simp add: mtx_step_def guarded_def)
next
  case Held
  then show ?thesis using mtx_inv_outside[OF inv, of pid UnlockSpin "mutex s"]
    by (simp add: mtx_step_def guarded_def)
next
  case UnlockSpin
  then show ?thesis
    using mtx_inv_outside[OF inv, of pid UnlockSpin "(mutex s)\<lparr>flag := 0\<rparr>"]
      mtx_inv_enter[OF inv, of UnlockTest pid] mtx_inv_word[OF inv] mtx_inv_word_taken[OF inv]
    by (cases "word64 (mutex s) = 0") (simp_all add: mtx_step_def guarded_def del: word64_0 word64_pos)
next
  case UnlockTest
  then show ?thesis
    using mtx_inv_inside[OF inv, of pid UnlockRelease 0] inv
    by (simp add: mtx_step_def guarded_def mtx_inv_def[of s])
next
  case UnlockRelease
  then show ?thesis using mtx_inv_leave[OF inv, of pid Idle] by (simp add: mtx_step_def guarded_def)
qed (use inv in \<open>auto simp: mtx_inv_def parking_def\<close>)

lemma mtx_inv_reach: "mtx_reach (msys_init k) s \<Longrightarrow> pad k = 0 \<Longrightarrow> mtx_inv s"
  by (induction rule: mtx_reach.induct) (auto intro: mtx_inv_init mtx_inv_step)

section \<open>Properties\<close>

text \<open>
  C14. The guard of a mutex works: in every interleaving of calls of
  \<open>kmutex_lock\<close> and \<open>kmutex_unlock\<close> from an initialised mutex, at most one
  thread is in the code between taking and giving back the guard, and the wait
  queue stays empty, since no thread ever reaches the branch that parks.
\<close>

theorem kmutex_guard_exclusive:
  assumes "mtx_reach (msys_init k) s" "pad k = 0"
  shows "(guarded (pc s p) \<and> guarded (pc s q) \<longrightarrow> p = q) \<and> wait_queue (mutex s) = [] \<and>
    pc s p \<notin> {ParkEnqueue, SetPark, ParkRelease, Park, Asleep}"
proof -
  have inv: "mtx_inv s" by (rule mtx_inv_reach) (fact assms)+
  then have "p \<notin> parking s" "wait_queue (mutex s) = []" by (auto simp: mtx_inv_def)
  then show ?thesis
    using mtx_inv_only[OF inv, of p] inside_iff[of q s] by (auto simp: parking_def)
qed

definition kmutex_zero :: kmutex where
  "kmutex_zero = \<lparr>lock = 0, flag = 0, pad = 0, count = 0, wait_queue = []\<rparr>"

text \<open>A schedule: the threads named by the list make a step each, in its order.\<close>

primrec mtx_run :: "nat list \<Rightarrow> msys \<Rightarrow> msys" where
  "mtx_run [] s = s"
| "mtx_run (p # ps) s = mtx_run ps (mtx_step p s)"

lemma mtx_reach_run: "mtx_reach s0 s \<Longrightarrow> mtx_reach s0 (mtx_run ps s)"
  by (induction ps arbitrary: s) (auto intro: reach_step)

text \<open>A thread that runs alone takes a free mutex and leaves it as it was.\<close>

lemma at_at [simp]:
  "at p l (at p l' s) = at p l s" "(at p l s)\<lparr>mutex := m\<rparr> = at p l (s\<lparr>mutex := m\<rparr>)"
  by (simp_all add: at_def)

lemma mtx_lock_alone:
  assumes "mutex_free (mutex s)" "pc s p = Idle"
  shows "mtx_run [p, p, p, p, p] s = at p Held s"
proof -
  have z: "lock (mutex s) = 0" "flag (mutex s) = 0" "pad (mutex s) = 0" "word64 (mutex s) = 0"
    using assms(1) by (simp_all add: mutex_free_def)
  let ?t = "\<lambda>l m. at p l (s\<lparr>mutex := m\<rparr>)"
  have "mtx_step p s = at p LockSpin s" using assms(2) by (simp add: mtx_step_def)
  moreover have "mtx_step p (at p LockSpin s) = ?t LockTest ((mutex s)\<lparr>lock := 1\<rparr>)"
    using z by (simp add: mtx_step_def)
  moreover have "mtx_step p (?t LockTest ((mutex s)\<lparr>lock := 1\<rparr>)) = ?t LockSet ((mutex s)\<lparr>lock := 1\<rparr>)"
    using z by (simp add: mtx_step_def)
  moreover have "mtx_step p (?t LockSet ((mutex s)\<lparr>lock := 1\<rparr>))
      = ?t LockRelease ((mutex s)\<lparr>lock := 1, flag := 1\<rparr>)"
    by (simp add: mtx_step_def)
  moreover have "mtx_step p (?t LockRelease ((mutex s)\<lparr>lock := 1, flag := 1\<rparr>)) = at p Held s"
    using z by (simp add: mtx_step_def)
  ultimately show ?thesis by simp
qed

theorem kmutex_guard_exclusive_witness:
  "guarded (pc (mtx_run [1, 1, 2, 2] (msys_init kmutex_zero)) 1) \<and>
   \<not> guarded (pc (mtx_run [1, 1, 2, 2] (msys_init kmutex_zero)) 2)"
proof -
  have r: "mtx_reach (msys_init kmutex_zero) (mtx_run [1, 1, 2, 2] (msys_init kmutex_zero))"
    by (intro mtx_reach_run reach_refl)
  have "guarded (pc (mtx_run [1, 1, 2, 2] (msys_init kmutex_zero)) 1)"
    by (simp add: mtx_step_def at_def msys_init_def kmutex_init_def kmutex_zero_def guarded_def)
  then show ?thesis
    using kmutex_guard_exclusive[OF r, of 1 2] by (simp add: kmutex_zero_def)
qed

text \<open>
  C15. The mutex does not exclude: the exchange that gives the guard back writes
  64 bits and clears \<open>flag\<close> with it, so a second thread that calls
  \<open>kmutex_lock\<close> while the first one holds the mutex gets it as well.
\<close>

theorem kmutex_no_exclusion:
  "\<exists>s. mtx_reach (msys_init kmutex_zero) s \<and> pc s 1 = Held \<and> pc s 2 = Held"
proof (intro exI conjI)
  let ?i = "msys_init kmutex_zero"
  let ?s = "mtx_run [2, 2, 2, 2, 2] (mtx_run [1, 1, 1, 1, 1] ?i)"
  show "mtx_reach ?i ?s"
    by (intro mtx_reach_run reach_refl)
  have "mutex_free (mutex ?i)" by (simp add: msys_init_def kmutex_init_def mutex_free_def)
      (simp add: kmutex_zero_def)
  then have "?s = at 2 Held (at 1 Held ?i)"
    by (simp add: mtx_lock_alone msys_init_def del: mtx_run.simps)
  then show "pc ?s 1 = Held" "pc ?s 2 = Held" by (simp_all del: mtx_run.simps)
qed

text \<open>
  C26. \<open>kmutex_init\<close> does not clear the padding that \<open>xchg\<close> reads: on memory whose
  padding bytes are not zero, the first \<open>kmutex_lock\<close> never gets the guard.
\<close>

theorem kmutex_init_padding:
  assumes "pad k \<noteq> 0"
  shows "kmutex_lock (kmutex_init k) = None \<and>
    (\<forall>n>0. pc (mtx_run (replicate n 1) (msys_init k)) 1 = LockSpin)"
proof -
  let ?s = "\<lambda>k. at 1 LockSpin \<lparr>mutex = k, about_to_park = 0, pc = \<lambda>_. Idle\<rparr>"
  have stuck: "pc (mtx_run (replicate n 1) (?s k')) 1 = LockSpin" if "word64 k' \<noteq> 0" for n k'
    using that
  proof (induction n arbitrary: k')
    case (Suc n)
    have "mtx_step 1 (?s k') = ?s (k'\<lparr>lock := 1, flag := 0, pad := 0\<rparr>)"
      using Suc.prems by (simp add: mtx_step_def at_def del: word64_0 word64_pos)
    then show ?case using Suc.IH[of "k'\<lparr>lock := 1, flag := 0, pad := 0\<rparr>"] by simp
  qed simp
  have first: "mtx_step 1 (msys_init k) = ?s (kmutex_init k)"
    by (simp add: mtx_step_def msys_init_def)
  have "pc (mtx_run (replicate n 1) (msys_init k)) 1 = LockSpin" if n: "0 < n" for n
  proof -
    obtain n' where "n = Suc n'" using n by (cases n) auto
    then show ?thesis using stuck[of "kmutex_init k" n'] first assms by (simp add: kmutex_init_def)
  qed
  then show ?thesis using assms by (simp add: kmutex_lock_def kmutex_init_def)
qed

theorem kmutex_init_padding_witness:
  "kmutex_lock (kmutex_init (kmutex_zero\<lparr>pad := 1\<rparr>)) = None"
  using kmutex_init_padding[of "kmutex_zero\<lparr>pad := 1\<rparr>"] by simp

end
