(* ===== verification/Heap.thy ===== *)
theory Heap
  imports Prelude
begin

text \<open>
  The shared heap, \<open>src/shared/memory/heap.c\<close> and
  \<open>include/balrog/memory/heap.h\<close>: the block header, the routine that carves a
  block out of a free one and the routine that frees a block and coalesces it
  with its free neighbours. The three allocators of the system
  (\<open>kheap.c\<close>, \<open>vmheap.c\<close>, \<open>malloc.c\<close>) own the bounds of their heap and run
  these two routines.
\<close>

section \<open>Block headers\<close>

text \<open>\<open>sizeof(block_info)\<close>: the header is packed, two pointers and one 64 bit
  word that holds the 60 bit size and the four flags.\<close>

definition sizeof_block_info :: nat where
  "sizeof_block_info = 24"

lemma sizeof_block_info_pos: "0 < sizeof_block_info"
  by (simp add: sizeof_block_info_def)

record block_info =
  previous_chunk :: ptr
  blk_size :: nat
  non_arena :: bool
  is_mmapped :: bool
  present :: bool
  full :: bool
  next_free :: ptr

text \<open>A value stored in the 60 bit field \<open>_size\<close>.\<close>

definition u60 :: "nat \<Rightarrow> nat" where
  "u60 n = n mod 2 ^ 60"

definition u60_sub :: "nat \<Rightarrow> nat \<Rightarrow> nat" where
  "u60_sub a b = (a + (2 ^ 60 - b mod 2 ^ 60)) mod 2 ^ 60"

lemma u60_id [simp]: "n < 2 ^ 60 \<Longrightarrow> u60 n = n"
  by (simp add: u60_def)

lemma u60_sub_id [simp]: "b \<le> a \<Longrightarrow> a < 2 ^ 60 \<Longrightarrow> u60_sub a b = a - b"
proof -
  assume le: "b \<le> a" and lt: "a < 2 ^ 60"
  have "a + (2 ^ 60 - b mod 2 ^ 60) = (a - b) + 2 ^ 60"
    using le lt by simp
  then show ?thesis
    using lt by (simp add: u60_sub_def)
qed

text \<open>
  The headers in memory, by address. What lies at an address that is no block
  of the heap is arbitrary: no lemma below reads it.
\<close>

type_synonym bmem = "ptr \<Rightarrow> block_info"

section \<open>Carving a block: \<open>heap_alloc\<close>\<close>

text \<open>
  The arguments of the C function in its order; \<open>m\<close> and \<open>ff\<close> are the memory and
  the variable \<open>*first_free\<close> it changes. The result is the returned pointer,
  \<open>0\<close> when the block is too small.
\<close>

definition heap_alloc ::
    "nat \<Rightarrow> ptr \<Rightarrow> ptr \<Rightarrow> ptr \<Rightarrow> bool \<Rightarrow> bmem \<Rightarrow> ptr \<Rightarrow> bmem \<times> ptr \<times> ptr" where
  "heap_alloc sz current_block prev_block current_top first_block m ff =
     (if sz \<le> blk_size (m current_block) then
        let nosplit = (blk_size (m current_block) \<le> w64 (sz + sizeof_block_info));
            ff1 = (if nosplit \<and> first_block \<and> current_block = ff
                   then next_free (m current_block) else ff);
            m1 = (if nosplit
                  then (if first_block \<and> current_block = ff then m
                        else m(prev_block := (m prev_block)
                                 \<lparr>next_free := next_free (m current_block)\<rparr>))
                  else m(current_block := (m current_block)
                           \<lparr>blk_size := u60_sub (blk_size (m current_block))
                                          (w64 (sz + sizeof_block_info))\<rparr>));
            size1 = (if nosplit then blk_size (m current_block) else sz);
            block = (if nosplit then current_block
                     else w64 (current_block
                                 + w64 (blk_size (m1 current_block) + sizeof_block_info)));
            m2 = m1(block := (m1 block)
                      \<lparr>previous_chunk := current_block,
                       present := \<not> nosplit,
                       non_arena := False,
                       blk_size := u60 size1,
                       full := nosplit,
                       is_mmapped := True\<rparr>);
            next_block = w64 (block + sizeof_block_info + size1);
            m3 = (if next_block < current_top
                  then m2(next_block := (m2 next_block)
                            \<lparr>previous_chunk := block, present := False\<rparr>)
                  else m2)
        in (m3, ff1, w64 (block + sizeof_block_info))
      else (m, ff, 0))"

section \<open>Freeing a block: \<open>heap_free\<close>\<close>

text \<open>
  The \<open>while(1)\<close> loop: it absorbs the block right behind a freed one when that
  block is free, then walks on to the next free block, or to the top, and
  points the freed block at it.
\<close>

partial_function (option) heap_free_scan ::
    "ptr \<Rightarrow> ptr \<Rightarrow> nat \<Rightarrow> bmem \<Rightarrow> ptr \<Rightarrow> bool \<Rightarrow> ptr \<Rightarrow> (bmem \<times> ptr) option" where
  "heap_free_scan block current_top block_max_size m next_block contiguous ff =
     (if next_block < current_top then
        if \<not> is_mmapped (m next_block) then
          if w64 (blk_size (m block) + sizeof_block_info) < block_max_size \<and> contiguous then
            let m1 = m(block := (m block)
                         \<lparr>blk_size := u60 (blk_size (m block)
                                            + (blk_size (m next_block) + sizeof_block_info)),
                          next_free := next_free (m next_block)\<rparr>);
                ff1 = (if ff = next_block then block else ff)
            in heap_free_scan block current_top block_max_size m1
                 (w64 (next_block + w64 (blk_size (m1 next_block) + sizeof_block_info))) False ff1
          else Some (m(block := (m block)\<lparr>next_free := next_block\<rparr>), ff)
        else heap_free_scan block current_top block_max_size m
               (w64 (next_block + w64 (blk_size (m next_block) + sizeof_block_info))) False ff
      else Some (m(block := (m block)\<lparr>next_free := current_top\<rparr>), ff))"

text \<open>
  The second loop: the last block of the free list in front of \<open>block\<close>.
\<close>

partial_function (option) heap_free_pred :: "bmem \<Rightarrow> ptr \<Rightarrow> ptr \<Rightarrow> ptr option" where
  "heap_free_pred m block first =
     (if first \<noteq> 0 \<and> next_free (m first) \<noteq> 0 \<and> next_free (m first) < block
      then heap_free_pred m block (next_free (m first))
      else Some first)"

text \<open>The freed block is added to the free block in front of it, if there is one.\<close>

definition heap_free_merge :: "ptr \<Rightarrow> bmem \<Rightarrow> bmem \<times> ptr" where
  "heap_free_merge block m =
     (let m0 = m(block := (m block)\<lparr>is_mmapped := False\<rparr>);
          prev = previous_chunk (m0 block)
      in if present (m0 block)
         then (m0(prev := (m0 prev)
                    \<lparr>blk_size := u60 (blk_size (m0 prev)
                                 + w64 (blk_size (m0 block) + sizeof_block_info))\<rparr>), prev)
         else (m0, block))"

text \<open>The free list gets the block, at its head or behind its predecessor.\<close>

definition heap_free_link :: "ptr \<Rightarrow> bmem \<Rightarrow> ptr \<Rightarrow> (bmem \<times> ptr) option" where
  "heap_free_link block m ff =
     (if block < ff
      then Some (m(block := (m block)\<lparr>next_free := ff\<rparr>), block)
      else do {
        first \<leftarrow> heap_free_pred m block ff;
        Some (if first \<noteq> block then m(first := (m first)\<lparr>next_free := block\<rparr>) else m, ff)
      })"

text \<open>The header behind the block learns that the block is free.\<close>

definition heap_free_tail :: "ptr \<Rightarrow> ptr \<Rightarrow> bmem \<Rightarrow> bmem" where
  "heap_free_tail block current_top m =
     (let after_free = w64 (block + w64 (blk_size (m block) + sizeof_block_info));
          m1 = (if after_free < current_top
                then m(after_free := (m after_free)\<lparr>previous_chunk := block, present := True\<rparr>)
                else m)
      in m1(block := (m1 block)\<lparr>full := False\<rparr>))"

definition heap_free ::
    "ptr \<Rightarrow> ptr \<Rightarrow> ptr \<Rightarrow> nat \<Rightarrow> bmem \<Rightarrow> ptr \<Rightarrow> (bmem \<times> ptr) option" where
  "heap_free block0 next_block current_top block_max_size m ff =
     (case heap_free_merge block0 m of (m1, block) \<Rightarrow> do {
        (m2, ff2) \<leftarrow> heap_free_scan block current_top block_max_size m1 next_block True ff;
        (m3, ff3) \<leftarrow> heap_free_link block m2 ff2;
        Some (heap_free_tail block current_top m3, ff3)
      })"

end
