(* ===== verification/Heap_Shape.thy ===== *)
theory Heap_Shape
  imports Heap
begin

text \<open>
  The invariant of a heap that \<open>heap.c\<close> manages, and what it gives. The blocks
  of a heap tile the addresses from its start to its top; each header knows
  whether the block in front of it is free (\<open>present\<close>, \<open>previous_chunk\<close>); no two
  free blocks touch; the free list runs through the free blocks in the order of
  their addresses and ends at the top. The theory holds the predicates, their
  algebra over appended runs of blocks, and the lemma \<open>heap_replace\<close> that every
  change of a heap is an instance of.
\<close>

section \<open>The shape of a well-formed heap\<close>

abbreviation free_in :: "bmem \<Rightarrow> ptr \<Rightarrow> bool" where
  "free_in m b \<equiv> \<not> is_mmapped (m b)"

definition blk_end :: "bmem \<Rightarrow> ptr \<Rightarrow> ptr" where
  "blk_end m b = b + sizeof_block_info + blk_size (m b)"

text \<open>
  A cursor stands between two blocks: its address, whether the block in front
  of it is free, and the address of that block.
\<close>

type_synonym cursor = "ptr \<times> bool \<times> ptr"

primrec cursor_after :: "bmem \<Rightarrow> cursor \<Rightarrow> ptr list \<Rightarrow> cursor" where
  "cursor_after m s [] = s"
| "cursor_after m s (b # bs) = cursor_after m (blk_end m b, free_in m b, b) bs"

primrec blocks :: "bmem \<Rightarrow> cursor \<Rightarrow> ptr list \<Rightarrow> bool" where
  "blocks m s [] = True"
| "blocks m s (b # bs) = (case s of (a, pf, pb) \<Rightarrow>
     b = a \<and> present (m a) = pf \<and>
     (pf \<longrightarrow> previous_chunk (m a) = pb \<and> is_mmapped (m a)) \<and>
     blocks m (blk_end m a, free_in m a, a) bs)"

text \<open>The free list: from \<open>p\<close> through the blocks \<open>fs\<close> to the top of the heap.\<close>

primrec chain :: "bmem \<Rightarrow> ptr \<Rightarrow> ptr list \<Rightarrow> ptr \<Rightarrow> bool" where
  "chain m p [] ht = (p = ht)"
| "chain m p (f # fs) ht = (p = f \<and> chain m (next_free (m f)) fs ht)"

definition free_blocks :: "bmem \<Rightarrow> ptr list \<Rightarrow> ptr list" where
  "free_blocks m bs = filter (free_in m) bs"

definition heap_inv :: "bmem \<Rightarrow> ptr \<Rightarrow> ptr \<Rightarrow> ptr \<Rightarrow> ptr list \<Rightarrow> bool" where
  "heap_inv m start ht ff bs \<longleftrightarrow>
     0 < start \<and> ht < 2 ^ 64 \<and> ht < start + 2 ^ 60 \<and>
     blocks m (start, False, 0) bs \<and> fst (cursor_after m (start, False, 0) bs) = ht \<and>
     chain m ff (free_blocks m bs) ht"

definition allocs :: "bmem \<Rightarrow> ptr list \<Rightarrow> (ptr \<times> nat) set" where
  "allocs m bs = {(b, blk_size (m b)) | b. b \<in> set bs \<and> is_mmapped (m b)}"

subsection \<open>Segments\<close>

lemma blk_end_gt: "b < blk_end m b"
  by (simp add: blk_end_def sizeof_block_info_def)

lemma cursor_after_append [simp]:
  "cursor_after m s (xs @ ys) = cursor_after m (cursor_after m s xs) ys"
  by (induction xs arbitrary: s) auto

lemma blocks_append [simp]:
  "blocks m s (xs @ ys) \<longleftrightarrow> blocks m s xs \<and> blocks m (cursor_after m s xs) ys"
  by (induction xs arbitrary: s) auto

lemma cursor_after_cong:
  assumes "\<And>b. b \<in> set bs \<Longrightarrow> blk_size (m' b) = blk_size (m b) \<and> is_mmapped (m' b) = is_mmapped (m b)"
  shows "cursor_after m' s bs = cursor_after m s bs"
  using assms by (induction bs arbitrary: s) (auto simp: blk_end_def)

lemma blocks_cong:
  assumes "\<And>b. b \<in> set bs \<Longrightarrow> blk_size (m' b) = blk_size (m b) \<and> is_mmapped (m' b) = is_mmapped (m b)
      \<and> present (m' b) = present (m b) \<and> previous_chunk (m' b) = previous_chunk (m b)"
  shows "blocks m' s bs = blocks m s bs"
  using assms by (induction bs arbitrary: s) (auto simp: blk_end_def split: prod.splits)

lemma blocks_le: "blocks m s bs \<Longrightarrow> fst s \<le> fst (cursor_after m s bs)"
proof (induction bs arbitrary: s)
  case (Cons b bs)
  from Cons.prems have "b = fst s" and "blocks m (blk_end m b, free_in m b, b) bs"
    by (auto split: prod.splits)
  with Cons.IH[of "(blk_end m b, free_in m b, b)"] blk_end_gt[of b m] show ?case by simp
qed simp

lemma blocks_bounds:
  assumes "blocks m s bs" and "b \<in> set bs"
  shows "fst s \<le> b \<and> blk_end m b \<le> fst (cursor_after m s bs)"
proof -
  obtain xs ys where bs: "bs = xs @ b # ys"
    using assms(2) by (meson split_list)
  have xs: "blocks m s xs" and b: "b = fst (cursor_after m s xs)"
    and ys: "blocks m (blk_end m b, free_in m b, b) ys"
    using assms(1) bs by (auto split: prod.splits)
  show ?thesis
    using blocks_le[OF xs] blocks_le[OF ys] b bs by simp
qed

lemma blocks_sorted: "blocks m s bs \<Longrightarrow> sorted_wrt (<) bs"
proof (induction bs arbitrary: s)
  case (Cons b bs)
  from Cons.prems have rest: "blocks m (blk_end m b, free_in m b, b) bs"
    by (auto split: prod.splits)
  have "b < c" if "c \<in> set bs" for c
    using blocks_bounds[OF rest that] blk_end_gt[of b m] by simp
  with Cons.IH[OF rest] show ?case by simp
qed simp

lemma blocks_distinct: "blocks m s bs \<Longrightarrow> distinct bs"
  by (rule sorted_wrt_less_distinct[OF blocks_sorted])

lemma blocks_end_or_next:
  "blocks m s (b # bs) \<Longrightarrow> fst (cursor_after m s (b # bs)) = ht \<Longrightarrow>
     (bs = [] \<and> blk_end m b = ht) \<or> (\<exists>ys. bs = blk_end m b # ys \<and> blk_end m b < ht)"
proof -
  assume bl: "blocks m s (b # bs)" and ht: "fst (cursor_after m s (b # bs)) = ht"
  show ?thesis
  proof (cases bs)
    case (Cons c ys)
    have c: "c = blk_end m b" using bl Cons by (auto split: prod.splits)
    have "blk_end m c \<le> ht"
      using blocks_bounds[OF bl, of c] ht Cons by simp
    with c blk_end_gt[of c m] Cons show ?thesis by auto
  qed (use ht in auto)
qed

text \<open>
  The header behind a block is told whether that block is free: the update that
  both \<open>heap_alloc\<close> and \<open>heap_free\<close> end with.
\<close>

definition patch :: "bmem \<Rightarrow> ptr \<Rightarrow> ptr \<Rightarrow> ptr \<Rightarrow> bool \<Rightarrow> bmem" where
  "patch m a ht q f =
     (if a < ht then m(a := (m a)\<lparr>previous_chunk := q, present := f\<rparr>) else m)"

lemma patch_fields [simp]:
  "blk_size (patch m a ht q f b) = blk_size (m b)"
  "is_mmapped (patch m a ht q f b) = is_mmapped (m b)"
  "next_free (patch m a ht q f b) = next_free (m b)"
  "full (patch m a ht q f b) = full (m b)"
  "b \<noteq> a \<Longrightarrow> patch m a ht q f b = m b"
  by (auto simp: patch_def)

lemma blocks_patch:
  assumes bl: "blocks m (a, pf, pb) ys" and ht: "fst (cursor_after m (a, pf, pb) ys) = ht"
    and ok: "\<And>y zs. ys = y # zs \<Longrightarrow> f \<Longrightarrow> is_mmapped (m y)"
  shows "blocks (patch m a ht q f) (a, f, q) ys \<and>
         fst (cursor_after (patch m a ht q f) (a, f, q) ys) = ht"
proof (cases ys)
  case (Cons y zs)
  have y: "y = a" and rest: "blocks m (blk_end m a, free_in m a, a) zs"
    using bl Cons by auto
  have notin: "a \<notin> set zs"
    using blocks_distinct[OF bl] Cons y by simp
  have "blk_end m a \<le> ht"
    using blocks_bounds[OF bl, of a] Cons y ht by simp
  then have lt: "a < ht"
    using blk_end_gt[of a m] by simp
  let ?m = "patch m a ht q f"
  have "blocks ?m (blk_end m a, free_in m a, a) zs = blocks m (blk_end m a, free_in m a, a) zs"
    by (rule blocks_cong) (use notin in \<open>metis patch_fields\<close>)
  moreover have "cursor_after ?m (blk_end m a, free_in m a, a) zs
      = cursor_after m (blk_end m a, free_in m a, a) zs"
    by (rule cursor_after_cong) simp
  moreover have "present (?m a) = f" "previous_chunk (?m a) = q"
    using lt by (simp_all add: patch_def)
  moreover have "blk_end ?m a = blk_end m a"
    by (simp add: blk_end_def)
  ultimately show ?thesis
    using rest y Cons ok[OF Cons] ht by simp
qed (use ht in auto)

subsection \<open>The free list\<close>

lemma chain_cong:
  "(\<And>f. f \<in> set fs \<Longrightarrow> next_free (m' f) = next_free (m f)) \<Longrightarrow> chain m' p fs ht = chain m p fs ht"
  by (induction fs arbitrary: p) auto

lemma chain_hd: "chain m p fs ht \<Longrightarrow> p = hd (fs @ [ht])"
  by (cases fs) auto

lemma chain_append:
  "chain m p (xs @ ys) ht \<longleftrightarrow> chain m p xs (hd (ys @ [ht])) \<and> chain m (hd (ys @ [ht])) ys ht"
proof (induction xs arbitrary: p)
  case Nil
  then show ?case by (cases ys) auto
qed auto

lemma chain_snoc:
  "chain m p (xs @ [f]) ht \<longleftrightarrow> chain m p xs f \<and> next_free (m f) = ht"
  by (simp add: chain_append)

lemma free_blocks_append [simp]:
  "free_blocks m (xs @ ys) = free_blocks m xs @ free_blocks m ys"
  by (simp add: free_blocks_def)

lemma free_blocks_Cons:
  "free_blocks m (b # bs) = (if free_in m b then b # free_blocks m bs else free_blocks m bs)"
  by (simp add: free_blocks_def)

lemma free_blocks_Nil [simp]: "free_blocks m [] = []"
  by (simp add: free_blocks_def)

lemma free_blocks_cong:
  "(\<And>b. b \<in> set bs \<Longrightarrow> is_mmapped (m' b) = is_mmapped (m b)) \<Longrightarrow> free_blocks m' bs = free_blocks m bs"
  unfolding free_blocks_def by (rule filter_cong) auto

lemma set_free_blocks: "set (free_blocks m bs) = {b \<in> set bs. free_in m b}"
  by (auto simp: free_blocks_def)

section \<open>Well-formed heaps\<close>

lemma heap_inv_at:
  assumes "heap_inv m start ht ff (xs @ c # ys)"
  obtains pf pb where
    "cursor_after m (start, False, 0) xs = (c, pf, pb)"
    "present (m c) = pf" "pf \<longrightarrow> previous_chunk (m c) = pb \<and> is_mmapped (m c)"
  using assms unfolding heap_inv_def
  by (cases "cursor_after m (start, False, 0) xs") auto

lemma heap_inv_bounds:
  assumes inv: "heap_inv m start ht ff bs" and b: "b \<in> set bs"
  shows "start \<le> b" "blk_end m b \<le> ht" "b < ht" "blk_size (m b) < 2 ^ 60"
    "b + sizeof_block_info < 2 ^ 64" "0 < b" "blk_end m b < 2 ^ 64"
proof -
  have bl: "blocks m (start, False, 0) bs" "fst (cursor_after m (start, False, 0) bs) = ht"
    and lim: "ht < 2 ^ 64" "ht < start + 2 ^ 60" "0 < start"
    using inv by (auto simp: heap_inv_def)
  show *: "start \<le> b" "blk_end m b \<le> ht"
    using blocks_bounds[OF bl(1) b] bl(2) by auto
  show "b < ht" "blk_size (m b) < 2 ^ 60" "b + sizeof_block_info < 2 ^ 64" "0 < b" "blk_end m b < 2 ^ 64"
    using * lim by (auto simp: blk_end_def sizeof_block_info_def)
qed

lemma heap_inv_distinct: "heap_inv m start ht ff bs \<Longrightarrow> distinct bs"
  unfolding heap_inv_def using blocks_distinct by blast

lemma heap_inv_order:
  assumes inv: "heap_inv m start ht ff (xs @ c # ys)"
  shows "\<forall>x\<in>set xs. blk_end m x \<le> c" "\<forall>y\<in>set ys. blk_end m c \<le> y"
    "\<forall>x\<in>set xs. x < c" "\<forall>y\<in>set ys. c < y"
proof -
  have "blocks m (start, False, 0) (xs @ c # ys)"
    using inv by (simp add: heap_inv_def)
  then have xs: "blocks m (start, False, 0) xs" "fst (cursor_after m (start, False, 0) xs) = c"
    and ys: "blocks m (blk_end m c, free_in m c, c) ys"
    by (auto split: prod.splits)
  show *: "\<forall>x\<in>set xs. blk_end m x \<le> c" "\<forall>y\<in>set ys. blk_end m c \<le> y"
    using blocks_bounds[OF xs(1)] blocks_bounds[OF ys] xs(2) by auto
  show "\<forall>x\<in>set xs. x < c" "\<forall>y\<in>set ys. c < y"
    using * blk_end_gt[of _ m] by (meson less_le_trans)+
qed

lemma heap_inv_next:
  assumes inv: "heap_inv m start ht ff (xs @ c # ys)"
  shows "(ys = [] \<and> blk_end m c = ht) \<or> (\<exists>zs. ys = blk_end m c # zs \<and> blk_end m c < ht)"
  using inv blocks_end_or_next[of m "cursor_after m (start, False, 0) xs" c ys ht]
  by (simp add: heap_inv_def)

lemma heap_inv_free_chain:
  assumes inv: "heap_inv m start ht ff (xs @ c # ys)" and free: "free_in m c"
  shows "chain m ff (free_blocks m xs) c" "chain m (next_free (m c)) (free_blocks m ys) ht"
  using inv free by (auto simp: heap_inv_def chain_append free_blocks_Cons)

definition same_hdr :: "bmem \<Rightarrow> bmem \<Rightarrow> ptr \<Rightarrow> bool" where
  "same_hdr m m' b \<longleftrightarrow> blk_size (m' b) = blk_size (m b) \<and> is_mmapped (m' b) = is_mmapped (m b)
      \<and> present (m' b) = present (m b) \<and> previous_chunk (m' b) = previous_chunk (m b)"

text \<open>
  The step that every change of the heap is: a run of blocks is replaced by
  another run over the same addresses, and the header behind the run is told
  whether the last block of it is free.
\<close>

lemma heap_replace:
  assumes inv: "heap_inv m start ht ff (xs @ old @ ys)"
    and cur: "cursor_after m (start, False, 0) xs = s"
    and old: "fst (cursor_after m s old) = e"
    and xs: "\<forall>b\<in>set xs. same_hdr m m' b"
    and new: "blocks m' s new" "cursor_after m' s new = (e, f, q)"
    and ys: "\<forall>y\<in>set ys. blk_size (m' y) = blk_size (m y) \<and> is_mmapped (m' y) = is_mmapped (m y)"
    and ys': "\<forall>y\<in>set ys. y \<noteq> e \<longrightarrow> same_hdr m m' y"
    and e: "e < ht \<longrightarrow> present (m' e) = f \<and> (f \<longrightarrow> previous_chunk (m' e) = q \<and> is_mmapped (m' e))"
    and ch: "chain m' ff' (free_blocks m' (xs @ new @ ys)) ht"
  shows "heap_inv m' start ht ff' (xs @ new @ ys)"
proof -
  have b: "blocks m (start, False, 0) xs" "blocks m s old" "blocks m (cursor_after m s old) ys"
    and h: "fst (cursor_after m (cursor_after m s old) ys) = ht"
    using inv cur by (auto simp: heap_inv_def)
  have "blocks m' (start, False, 0) xs = blocks m (start, False, 0) xs"
    using xs by (intro blocks_cong) (auto simp: same_hdr_def)
  moreover have "cursor_after m' (start, False, 0) xs = cursor_after m (start, False, 0) xs"
    using xs by (intro cursor_after_cong) (auto simp: same_hdr_def)
  moreover have "blocks m' (e, f, q) ys \<and> fst (cursor_after m' (e, f, q) ys) = ht"
  proof (cases ys)
    case Nil
    then show ?thesis using h old by simp
  next
    case (Cons y zs)
    have y: "y = e" and z: "blocks m (blk_end m e, free_in m e, e) zs"
      using b(3) Cons old by (auto split: prod.splits)
    have lt: "e < ht"
      using blocks_bounds[OF b(3), of e] Cons y h blk_end_gt[of e m] by auto
    have ne: "e \<notin> set zs"
      using blocks_distinct[OF b(3)] Cons y by auto
    have "blocks m' (blk_end m e, free_in m e, e) zs = blocks m (blk_end m e, free_in m e, e) zs"
      using ys' ne Cons by (intro blocks_cong) (auto simp: same_hdr_def)
    moreover have "cursor_after m' (blk_end m e, free_in m e, e) zs
        = cursor_after m (blk_end m e, free_in m e, e) zs"
      using ys Cons by (intro cursor_after_cong) auto
    moreover have "blk_end m' e = blk_end m e" "free_in m' e = free_in m e"
      using ys Cons y by (auto simp: blk_end_def)
    ultimately show ?thesis using Cons y z e lt h by simp
  qed
  ultimately show ?thesis
    using inv new ch b(1) cur by (simp add: heap_inv_def)
qed

lemma allocs_replace:
  assumes "\<forall>b\<in>set xs \<union> set ys. blk_size (m' b) = blk_size (m b) \<and> is_mmapped (m' b) = is_mmapped (m b)"
  shows "allocs m' (xs @ new @ ys) = allocs m xs \<union> allocs m' new \<union> allocs m ys"
  using assms by (auto simp: allocs_def)

lemma allocs_append: "allocs m (xs @ ys) = allocs m xs \<union> allocs m ys"
  by (auto simp: allocs_def)

lemma allocs_Cons:
  "allocs m (b # bs) = (if is_mmapped (m b) then insert (b, blk_size (m b)) (allocs m bs) else allocs m bs)"
  by (auto simp: allocs_def)

lemma allocs_Nil [simp]: "allocs m [] = {}"
  by (simp add: allocs_def)

subsection \<open>The bytes in use\<close>

lemma allocs_finite [simp]: "finite (allocs m bs)"
  by (simp add: allocs_def setcompr_eq_image)

lemma blocks_total:
  "blocks m s bs \<Longrightarrow> fst (cursor_after m s bs) = fst s + (\<Sum>b\<leftarrow>bs. sizeof_block_info + blk_size (m b))"
  by (induction bs arbitrary: s) (auto simp: blk_end_def split: prod.splits)

lemma allocs_sum:
  "distinct bs \<Longrightarrow> (\<Sum>(b, s)\<in>allocs m bs. s) = (\<Sum>b\<leftarrow>bs. if is_mmapped (m b) then blk_size (m b) else 0)"
proof (induction bs)
  case (Cons b bs)
  have "(b, blk_size (m b)) \<notin> allocs m bs" using Cons.prems by (auto simp: allocs_def)
  then show ?case using Cons by (simp add: allocs_Cons)
qed (simp add: allocs_Nil)

lemma allocs_sum_le:
  assumes "heap_inv m start ht ff bs"
  shows "start + (\<Sum>(b, s)\<in>allocs m bs. s) \<le> ht"
proof -
  have "(\<Sum>b\<leftarrow>bs. if is_mmapped (m b) then blk_size (m b) else 0)
      \<le> (\<Sum>b\<leftarrow>bs. sizeof_block_info + blk_size (m b))"
    by (rule sum_list_mono) simp
  then show ?thesis
    using assms blocks_total[of m "(start, False, 0)" bs] allocs_sum[OF heap_inv_distinct[OF assms]]
    by (simp add: heap_inv_def)
qed

text \<open>Free blocks never touch: a heap with no allocated block is one free block.\<close>

lemma blocks_all_free:
  assumes "blocks m (a, True, pb) bs" "allocs m bs = {}"
  shows "bs = []"
  using assms by (cases bs) (auto simp: allocs_Cons split: if_splits)

lemma heap_all_free:
  assumes inv: "heap_inv m start ht ff bs" and none: "allocs m bs = {}" and lt: "start < ht"
  shows "bs = [start]" "free_in m start" "blk_end m start = ht" "ff = start"
proof -
  obtain cs where bs: "bs = start # cs" and cs: "blocks m (blk_end m start, free_in m start, start) cs"
    using inv lt by (cases bs) (auto simp: heap_inv_def)
  show free: "free_in m start" using none bs by (auto simp: allocs_Cons split: if_splits)
  have "cs = []" using blocks_all_free cs none bs free by (simp add: allocs_Cons)
  then show "bs = [start]" "blk_end m start = ht" "ff = start"
    using inv bs free by (auto simp: heap_inv_def free_blocks_def)
qed

end
