(* ===== verification/Heap_Ops.thy ===== *)
theory Heap_Ops
  imports Heap_Shape
begin

text \<open>
  The two operations of \<open>heap.c\<close> keep a heap well formed, and what they do to the
  set of allocated blocks: \<open>heap_alloc_correct\<close> and \<open>heap_free_correct\<close>. The
  allocators build on these two lemmas only.
\<close>

section \<open>Allocation\<close>

text \<open>Unlinking the free block \<open>c\<close>: the free list without it.\<close>

lemma chain_unlink:
  assumes inv: "heap_inv m start ht ff (xs @ c # ys)" and free: "free_in m c"
    and link: "if first then c = ff
               else free_blocks m xs \<noteq> [] \<and> prev = last (free_blocks m xs)"
    and nf: "\<forall>b\<in>set xs \<union> set ys. next_free (m' b) =
               (if \<not> first \<and> b = prev then next_free (m c) else next_free (m b))"
  shows "chain m' (if first then next_free (m c) else ff) (free_blocks m xs @ free_blocks m ys) ht"
proof -
  note ch = heap_inv_free_chain[OF inv free]
  have dist: "distinct (xs @ c # ys)"
    by (rule heap_inv_distinct[OF inv])
  have sub: "set (free_blocks m xs) \<subseteq> set xs" "set (free_blocks m ys) \<subseteq> set ys"
    by (auto simp: free_blocks_def)
  show ?thesis
  proof (cases first)
    case True
    have "free_blocks m xs = []"
      using ch(1) link True sub dist by (cases "free_blocks m xs") auto
    moreover have "chain m' (next_free (m c)) (free_blocks m ys) ht
        = chain m (next_free (m c)) (free_blocks m ys) ht"
      using nf sub True by (intro chain_cong) auto
    ultimately show ?thesis using True ch(2) by simp
  next
    case False
    then obtain fs where fs: "free_blocks m xs = fs @ [prev]"
      using link by (metis append_butlast_last_id)
    have d: "distinct (free_blocks m xs)"
      using dist by (simp add: free_blocks_def)
    have p: "prev \<in> set xs" "set fs \<subseteq> set xs" "prev \<notin> set fs" "prev \<notin> set ys"
      using sub(1) fs d dist by auto
    have "chain m' ff fs prev = chain m ff fs prev"
      using nf p False by (intro chain_cong) auto
    moreover have "chain m' (next_free (m c)) (free_blocks m ys) ht
        = chain m (next_free (m c)) (free_blocks m ys) ht"
      using nf p sub(2) False by (intro chain_cong) auto
    moreover have "next_free (m' prev) = next_free (m c)"
      using nf p False by simp
    ultimately show ?thesis
      using ch fs False chain_hd[OF ch(2)] by (simp add: chain_append)
  qed
qed

lemma heap_alloc_whole:
  assumes inv: "heap_inv m start ht ff (xs @ c # ys)" and free: "free_in m c"
    and sz: "sz \<le> blk_size (m c)" "blk_size (m c) \<le> sz + sizeof_block_info"
    and link: "if first \<and> c = ff then True
               else free_blocks m xs \<noteq> [] \<and> prev = last (free_blocks m xs)"
  shows "\<exists>m' ff'. heap_alloc sz c prev ht first m ff = (m', ff', c + sizeof_block_info) \<and>
           heap_inv m' start ht ff' (xs @ c # ys) \<and>
           allocs m' (xs @ c # ys) = insert (c, blk_size (m c)) (allocs m (xs @ c # ys))"
proof -
  note at = heap_inv_bounds[OF inv, of c, simplified]
  note ord = heap_inv_order[OF inv]
  obtain pf pb where cur: "cursor_after m (start, False, 0) xs = (c, pf, pb)"
    and pf: "\<not> pf"
    using heap_inv_at[OF inv] free by metis
  define fst_blk where "fst_blk \<longleftrightarrow> first \<and> c = ff"
  define m1 where "m1 = (if fst_blk then m else m(prev := (m prev)\<lparr>next_free := next_free (m c)\<rparr>))"
  define m2 where "m2 = m1(c := (m1 c)\<lparr>previous_chunk := c, present := False, non_arena := False,
      blk_size := blk_size (m c), full := True, is_mmapped := True\<rparr>)"
  define M where "M = patch m2 (blk_end m c) ht c False"
  define ff' where "ff' = (if fst_blk then next_free (m c) else ff)"
  have eq: "heap_alloc sz c prev ht first m ff = (M, ff', c + sizeof_block_info)"
    using sz at by (simp add: heap_alloc_def Let_def M_def m2_def m1_def ff'_def fst_blk_def
        patch_def blk_end_def)
  have prev: "prev \<in> set xs" if "\<not> fst_blk"
    using link that last_in_set[of "free_blocks m xs"] by (auto simp: fst_blk_def set_free_blocks)
  have ne: "blk_end m c \<noteq> c" "c \<notin> set xs" "c \<notin> set ys" "\<And>x. x \<in> set xs \<Longrightarrow> x \<noteq> blk_end m c"
    using ord blk_end_gt[of c m] by auto
  have Mc: "is_mmapped (M c)" "present (M c) = False" "blk_size (M c) = blk_size (m c)"
    using ne(1) by (auto simp: M_def m2_def)
  have nc: "\<forall>b\<in>set xs \<union> set ys. b \<noteq> c" "\<forall>b\<in>set xs. b \<noteq> blk_end m c"
    using ne by auto
  have size_eq: "\<forall>b\<in>set xs \<union> set ys. blk_size (M b) = blk_size (m b) \<and> is_mmapped (M b) = is_mmapped (m b)"
    using nc(1) by (simp add: M_def m2_def m1_def)
  have nf_eq: "\<forall>b\<in>set xs \<union> set ys. next_free (M b) =
      (if \<not> fst_blk \<and> b = prev then next_free (m c) else next_free (m b))"
    using nc(1) by (simp add: M_def m2_def m1_def)
  have hdr_eq: "\<forall>b\<in>set xs. same_hdr m M b" "\<forall>b\<in>set ys. b \<noteq> blk_end m c \<longrightarrow> same_hdr m M b"
    using nc by (simp_all add: M_def m2_def m1_def same_hdr_def)
  have fr: "free_blocks M (xs @ [c] @ ys) = free_blocks m xs @ free_blocks m ys"
  proof -
    have "free_blocks M xs = free_blocks m xs" "free_blocks M ys = free_blocks m ys"
      using size_eq by (auto intro: free_blocks_cong)
    then show ?thesis using Mc by (simp add: free_blocks_Cons)
  qed
  have "chain M (if fst_blk then next_free (m c) else ff) (free_blocks m xs @ free_blocks m ys) ht"
  proof (rule chain_unlink[OF inv free])
    show "if fst_blk then c = ff else free_blocks m xs \<noteq> [] \<and> prev = last (free_blocks m xs)"
      using link unfolding fst_blk_def by argo
  qed (rule nf_eq)
  then have ch: "chain M ff' (free_blocks M (xs @ [c] @ ys)) ht"
    by (simp only: fr ff'_def)
  have "heap_inv M start ht ff' (xs @ [c] @ ys)"
  proof (rule heap_replace[OF _ cur, where old = "[c]"])
    show "heap_inv m start ht ff (xs @ [c] @ ys)" using inv by simp
    show "cursor_after M (c, pf, pb) [c] = (blk_end m c, False, c)"
      using Mc by (simp add: blk_end_def)
    show "blk_end m c < ht \<longrightarrow> present (M (blk_end m c)) = False \<and>
        (False \<longrightarrow> previous_chunk (M (blk_end m c)) = c \<and> is_mmapped (M (blk_end m c)))"
      by (simp add: M_def patch_def)
    show "blocks M (c, pf, pb) [c]"
      using Mc pf by simp
  qed (use hdr_eq size_eq ch in simp_all)
  moreover have "allocs M (xs @ [c] @ ys) = allocs m xs \<union> allocs M [c] \<union> allocs m ys"
    by (rule allocs_replace[OF size_eq])
  ultimately show ?thesis
    using eq Mc free by (auto simp: allocs_append allocs_Cons)
qed

lemma heap_alloc_split:
  assumes inv: "heap_inv m start ht ff (xs @ c # ys)" and free: "free_in m c"
    and sz: "sz + sizeof_block_info < blk_size (m c)"
    and n: "n = c + blk_size (m c) - sz"
  shows "\<exists>m'. heap_alloc sz c prev ht first m ff = (m', ff, n + sizeof_block_info) \<and>
           heap_inv m' start ht ff (xs @ c # n # ys) \<and>
           allocs m' (xs @ c # n # ys) = insert (n, sz) (allocs m (xs @ c # ys))"
proof -
  note at = heap_inv_bounds[OF inv, of c, simplified]
  note ord = heap_inv_order[OF inv]
  obtain pf pb where cur: "cursor_after m (start, False, 0) xs = (c, pf, pb)"
    and pres: "present (m c) = pf" and pf: "pf \<longrightarrow> previous_chunk (m c) = pb \<and> is_mmapped (m c)"
    using inv by (rule heap_inv_at)
  define k where "k = blk_size (m c) - (sz + sizeof_block_info)"
  have n1: "c < n" "n < blk_end m c" "n + sizeof_block_info + sz = blk_end m c"
    "c + (k + sizeof_block_info) = n" "sz \<le> blk_size (m c)"
    using n sz by (auto simp: blk_end_def k_def sizeof_block_info_def)
  define m1 where "m1 = m(c := (m c)\<lparr>blk_size := k\<rparr>)"
  define m2 where "m2 = m1(n := (m1 n)\<lparr>previous_chunk := c, present := True, non_arena := False,
      blk_size := sz, full := False, is_mmapped := True\<rparr>)"
  define M where "M = patch m2 (blk_end m c) ht n False"
  have w: "w64 (sz + sizeof_block_info) = sz + sizeof_block_info" "u60 sz = sz"
    "u60_sub (blk_size (m c)) (sz + sizeof_block_info) = k"
    "w64 (n + sizeof_block_info) = n + sizeof_block_info" "w64 n = n" "w64 (blk_end m c) = blk_end m c"
    "w64 (k + sizeof_block_info) = k + sizeof_block_info"
    using at sz n1 by (simp_all add: sizeof_block_info_def k_def)
  have eq: "heap_alloc sz c prev ht first m ff = (M, ff, n + sizeof_block_info)"
    using sz n1(1,5) by (simp add: heap_alloc_def Let_def M_def m2_def m1_def patch_def w n1(3,4) del: w64_id)
  have ne: "n \<noteq> c" "n \<noteq> blk_end m c" "blk_end m c \<noteq> c" "c \<notin> set xs" "c \<notin> set ys"
    "n \<notin> set xs" "n \<notin> set ys" "\<And>x. x \<in> set xs \<Longrightarrow> x \<noteq> blk_end m c"
    using ord n1 blk_end_gt[of c m] by auto
  have Mc: "free_in M c" "present (M c) = present (m c)" "previous_chunk (M c) = previous_chunk (m c)"
    "blk_end M c = n" "next_free (M c) = next_free (m c)"
    using ne free n1 by (simp_all add: M_def m2_def m1_def blk_end_def add.commute add.left_commute)
  have Mn: "is_mmapped (M n)" "present (M n)" "previous_chunk (M n) = c" "blk_size (M n) = sz"
    "blk_end M n = blk_end m c"
    using ne n1(3) by (simp_all add: M_def m2_def m1_def blk_end_def)
  have nc: "\<forall>b\<in>set xs \<union> set ys. b \<noteq> c" "\<forall>b\<in>set xs \<union> set ys. b \<noteq> n"
    "\<forall>b\<in>set xs. b \<noteq> blk_end m c"
    using ne by auto
  have size_eq: "\<forall>b\<in>set xs \<union> set ys. blk_size (M b) = blk_size (m b) \<and> is_mmapped (M b) = is_mmapped (m b)"
    using nc(1,2) by (simp add: M_def m2_def m1_def)
  have nf_eq: "\<forall>b\<in>set (xs @ c # ys). next_free (M b) = next_free (m b)"
    using nc(1,2) Mc(5) by (simp add: M_def m2_def m1_def)
  have hdr_eq: "\<forall>b\<in>set xs. same_hdr m M b" "\<forall>b\<in>set ys. b \<noteq> blk_end m c \<longrightarrow> same_hdr m M b"
    using nc by (simp_all add: M_def m2_def m1_def same_hdr_def)
  have fr: "free_blocks M (xs @ [c, n] @ ys) = free_blocks m (xs @ c # ys)"
  proof -
    have "free_blocks M xs = free_blocks m xs" "free_blocks M ys = free_blocks m ys"
      using size_eq by (auto intro: free_blocks_cong)
    then show ?thesis using Mc Mn free by (simp add: free_blocks_Cons)
  qed
  have "chain M ff (free_blocks m (xs @ c # ys)) ht = chain m ff (free_blocks m (xs @ c # ys)) ht"
    using nf_eq by (intro chain_cong) (auto simp: set_free_blocks)
  then have ch: "chain M ff (free_blocks M (xs @ [c, n] @ ys)) ht"
    using inv unfolding fr heap_inv_def by blast
  have "heap_inv M start ht ff (xs @ [c, n] @ ys)"
  proof (rule heap_replace[OF _ cur, where old = "[c]"])
    show "heap_inv m start ht ff (xs @ [c] @ ys)" using inv by simp
    show "cursor_after M (c, pf, pb) [c, n] = (blk_end m c, False, n)"
      using Mc Mn by simp
    show "blk_end m c < ht \<longrightarrow> present (M (blk_end m c)) = False \<and>
        (False \<longrightarrow> previous_chunk (M (blk_end m c)) = n \<and> is_mmapped (M (blk_end m c)))"
      by (simp add: M_def patch_def)
    show "blocks M (c, pf, pb) [c, n]"
      using Mc Mn pf pres free by simp
  qed (use hdr_eq size_eq ch in simp_all)
  moreover have "allocs M (xs @ [c, n] @ ys) = allocs m xs \<union> allocs M [c, n] \<union> allocs m ys"
    by (rule allocs_replace[OF size_eq])
  ultimately show ?thesis
    using eq Mc Mn free by (auto simp: allocs_append allocs_Cons)
qed

section \<open>Freeing\<close>

lemma chain_split3:
  "chain m p (xs @ ys @ zs) ht \<Longrightarrow>
     chain m p xs (hd (ys @ zs @ [ht])) \<and> chain m (hd (zs @ [ht])) zs ht"
  by (simp add: chain_append)

text \<open>
  The scan, once the block behind the freed one has been looked at: it stops at
  the next free block, or at the top.
\<close>

lemma heap_free_scan_skip:
  assumes "blocks m s zs" "fst (cursor_after m s zs) = ht" "ht < 2 ^ 64"
  shows "heap_free_scan B ht mx m (fst s) False ff =
    Some (m(B := (m B)\<lparr>next_free := hd (free_blocks m zs @ [ht])\<rparr>), ff)"
  using assms
proof (induction zs arbitrary: s)
  case Nil
  then show ?case by (subst heap_free_scan.simps) simp
next
  case (Cons z zs)
  have z: "z = fst s" and rest: "blocks m (blk_end m z, free_in m z, z) zs"
    and top: "fst (cursor_after m (blk_end m z, free_in m z, z) zs) = ht"
    using Cons.prems by (auto split: prod.splits)
  have lt: "blk_end m z \<le> ht"
    using blocks_le[OF rest] top by simp
  then have w: "w64 (z + w64 (blk_size (m z) + sizeof_block_info)) = blk_end m z" "z < ht"
    using Cons.prems(3) by (auto simp: blk_end_def sizeof_block_info_def)
  show ?case
  proof (cases "is_mmapped (m z)")
    case True
    have "heap_free_scan B ht mx m z False ff = heap_free_scan B ht mx m (blk_end m z) False ff"
      using True w by (subst heap_free_scan.simps) simp
    with Cons.IH[OF rest top Cons.prems(3)] True z show ?thesis
      by (simp add: free_blocks_Cons)
  next
    case False
    then show ?thesis
      using w z by (subst heap_free_scan.simps) (simp add: free_blocks_Cons)
  qed
qed

text \<open>What the scan makes of the block right behind the freed one.\<close>

lemma heap_free_scan_mapped:
  assumes "blocks m (n, pf, pb) ys" "fst (cursor_after m (n, pf, pb) ys) = ht" "ht < 2 ^ 64"
    and "\<And>y zs. ys = y # zs \<Longrightarrow> is_mmapped (m y)"
  shows "heap_free_scan B ht mx m n True ff =
    Some (m(B := (m B)\<lparr>next_free := hd (free_blocks m ys @ [ht])\<rparr>), ff)"
proof (cases ys)
  case Nil
  then show ?thesis using assms by (subst heap_free_scan.simps) simp
next
  case (Cons y zs)
  have y: "y = n" and rest: "blocks m (blk_end m y, free_in m y, y) zs"
    and top: "fst (cursor_after m (blk_end m y, free_in m y, y) zs) = ht"
    using assms Cons by auto
  have "blk_end m y \<le> ht"
    using blocks_le[OF rest] top by simp
  then have w: "w64 (y + w64 (blk_size (m y) + sizeof_block_info)) = blk_end m y" "y < ht"
    using assms(3) by (auto simp: blk_end_def sizeof_block_info_def)
  have "heap_free_scan B ht mx m y True ff = heap_free_scan B ht mx m (blk_end m y) False ff"
    using assms(4)[OF Cons] w by (subst heap_free_scan.simps) simp
  with heap_free_scan_skip[OF rest top assms(3)] assms(4)[OF Cons] Cons y show ?thesis
    by (simp add: free_blocks_Cons)
qed

lemma heap_free_scan_absorb:
  assumes bl: "blocks m (n, pf, pb) (n # zs)" "fst (cursor_after m (n, pf, pb) (n # zs)) = ht"
    and lim: "ht < 2 ^ 64" "B < n" "B + sizeof_block_info + blk_size (m B) = n"
    and fr: "free_in m n" and B: "B \<notin> set zs" and mx: "blk_size (m B) + sizeof_block_info < mx"
    and fit: "blk_end m n < B + 2 ^ 60"
  shows "heap_free_scan B ht mx m n True ff =
    Some (m(B := (m B)\<lparr>blk_size := blk_end m n - B - sizeof_block_info,
                        next_free := hd (free_blocks m zs @ [ht])\<rparr>),
          if ff = n then B else ff)"
proof -
  let ?m = "m(B := (m B)\<lparr>blk_size := blk_end m n - B - sizeof_block_info, next_free := next_free (m n)\<rparr>)"
  have rest: "blocks m (blk_end m n, free_in m n, n) zs"
    "fst (cursor_after m (blk_end m n, free_in m n, n) zs) = ht"
    using bl by auto
  have le: "blk_end m n \<le> ht"
    using blocks_le[OF rest(1)] rest(2) by simp
  have w: "w64 (n + w64 (blk_size (m n) + sizeof_block_info)) = blk_end m n" "n < ht"
    "w64 (blk_size (m B) + sizeof_block_info) = blk_size (m B) + sizeof_block_info"
    "u60 (blk_size (m B) + (blk_size (m n) + sizeof_block_info)) = blk_end m n - B - sizeof_block_info"
    using le lim fit by (auto simp: blk_end_def sizeof_block_info_def)
  have "heap_free_scan B ht mx m n True ff =
      heap_free_scan B ht mx ?m (blk_end m n) False (if ff = n then B else ff)"
    using w lim(2) mx fr by (subst heap_free_scan.simps) (simp add: Let_def)
  moreover have "blocks ?m (blk_end m n, free_in m n, n) zs"
    using rest(1) B by (subst blocks_cong[where m = m]) auto
  moreover have "fst (cursor_after ?m (blk_end m n, free_in m n, n) zs) = ht"
    using rest(2) B by (subst cursor_after_cong[where m = m]) auto
  moreover have "free_blocks ?m zs = free_blocks m zs"
    using B by (intro free_blocks_cong) auto
  ultimately show ?thesis
    using heap_free_scan_skip[of ?m "(blk_end m n, free_in m n, n)" zs ht B mx "if ff = n then B else ff"] lim(1)
    by simp
qed

text \<open>The predecessor search walks the free list up to \<open>B\<close>.\<close>

lemma heap_free_pred_last:
  assumes "chain m p (fs @ [q]) X" "\<forall>f\<in>set (fs @ [q]). 0 < f \<and> f < B" "B \<le> X"
  shows "heap_free_pred m B p = Some q"
  using assms
proof (induction fs arbitrary: p)
  case Nil
  then show ?case by (simp add: heap_free_pred.simps)
next
  case (Cons f fs)
  have "next_free (m f) = hd (fs @ [q])"
    using Cons.prems(1) chain_hd[of m "next_free (m f)" "fs @ [q]" X] by (cases fs) auto
  moreover have "hd (fs @ [q]) \<in> set (fs @ [q])"
    by (cases fs) auto
  ultimately have "0 < next_free (m f)" "next_free (m f) < B"
    using Cons.prems(2) by auto
  then have "heap_free_pred m B f = heap_free_pred m B (next_free (m f))"
    using Cons.prems(2) by (subst heap_free_pred.simps) simp
  with Cons.IH[of "next_free (m f)"] Cons.prems show ?case by simp
qed

lemma heap_free_pred_self: "B \<le> next_free (m B) \<Longrightarrow> heap_free_pred m B B = Some B"
  by (simp add: heap_free_pred.simps)

lemma heap_free_link_eval:
  assumes fx: "\<forall>f\<in>set fxs. 0 < f \<and> f < B"
    and none: "fxs = [] \<Longrightarrow> (ff = B \<and> B \<le> next_free (m B)) \<or> (B < ff \<and> next_free (m B) = ff)"
    and some: "fxs \<noteq> [] \<Longrightarrow> chain m ff fxs X \<and> B \<le> X"
  shows "heap_free_link B m ff =
    Some (if fxs = [] then m else m(last fxs := (m (last fxs))\<lparr>next_free := B\<rparr>),
          if fxs = [] then B else ff)"
proof (cases "fxs = []")
  case True
  from none[OF True] show ?thesis
  proof
    assume "ff = B \<and> B \<le> next_free (m B)"
    then show ?thesis
      using True by (simp add: heap_free_link_def heap_free_pred_self)
  next
    assume *: "B < ff \<and> next_free (m B) = ff"
    then have "(m B)\<lparr>next_free := ff\<rparr> = m B" by simp
    then have "m(B := (m B)\<lparr>next_free := ff\<rparr>) = m" by simp
    with * True show ?thesis by (simp add: heap_free_link_def)
  qed
next
  case False
  then obtain fs q where fs: "fxs = fs @ [q]" by (metis rev_exhaust)
  have ffin: "ff \<in> set fxs"
    using some[OF False] fs by (cases fs) auto
  then have "\<not> B < ff" using fx by force
  moreover have "heap_free_pred m B ff = Some q"
    using some[OF False] fx fs by (intro heap_free_pred_last[of m ff fs q X]) auto
  moreover have "q \<noteq> B" using fx fs by auto
  ultimately show ?thesis using False fs by (simp add: heap_free_link_def)
qed

lemma heap_free_tail_eq:
  assumes "blk_end m B < 2 ^ 64"
  shows "heap_free_tail B ht m =
    (patch m (blk_end m B) ht B True)(B := (patch m (blk_end m B) ht B True B)\<lparr>full := False\<rparr>)"
proof -
  have "w64 (B + w64 (blk_size (m B) + sizeof_block_info)) = blk_end m B"
    using assms by (simp add: blk_end_def algebra_simps)
  then show ?thesis by (simp add: heap_free_tail_def patch_def Let_def)
qed

lemma heap_free_core:
  assumes inv: "heap_inv m start ht ff (xs @ old @ ys)"
    and cur: "cursor_after m (start, False, 0) xs = (B, False, pb)"
    and old: "fst (cursor_after m (B, False, pb) old) = e"
    and B: "free_in m1 B" "blk_end m1 B = e" "\<not> present (m1 B)"
      "next_free (m1 B) = hd (free_blocks m ys @ [ht])"
    and other: "\<forall>b\<in>set xs \<union> set ys. m1 b = m b"
    and hd_ys: "\<And>y zs. ys = y # zs \<Longrightarrow> is_mmapped (m y)"
    and fxs: "fxs = free_blocks m xs"
    and m2: "m2 = (if fxs = [] then m1 else m1(last fxs := (m1 (last fxs))\<lparr>next_free := B\<rparr>))"
  shows "heap_inv (heap_free_tail B ht m2) start ht (if fxs = [] then B else ff) (xs @ [B] @ ys) \<and>
         allocs (heap_free_tail B ht m2) (xs @ [B] @ ys) = allocs m xs \<union> allocs m ys"
proof -
  have bl: "blocks m (start, False, 0) xs" "blocks m (cursor_after m (B, False, pb) old) ys"
    and top: "fst (cursor_after m (cursor_after m (B, False, pb) old) ys) = ht"
    and lim: "ht < 2 ^ 64"
    and ch: "chain m ff (free_blocks m xs @ free_blocks m old @ free_blocks m ys) ht"
    using inv cur by (auto simp: heap_inv_def)
  have Be: "B < e" using B(2) blk_end_gt[of B m1] by simp
  have xlt: "\<forall>x\<in>set xs. x < B"
    using blocks_bounds[OF bl(1)] cur blk_end_gt[of _ m] by (metis fst_conv less_le_trans)
  have yge: "\<forall>y\<in>set ys. e \<le> y" and ele: "e \<le> ht"
    using blocks_bounds[OF bl(2)] blocks_le[OF bl(2)] old top by auto
  have fin: "set fxs \<subseteq> set xs" by (auto simp: fxs free_blocks_def)
  have lq: "last fxs \<noteq> B" if "fxs \<noteq> []"
    using xlt fin that last_in_set[of fxs] by blast
  have m2B: "m2 B = m1 B"
    using lq by (auto simp: m2)
  define M where "M = heap_free_tail B ht m2"
  have M: "M = (patch m2 e ht B True)(B := (patch m2 e ht B True B)\<lparr>full := False\<rparr>)"
    unfolding M_def using heap_free_tail_eq[of m2 B ht] m2B B(2) ele lim by (simp add: blk_end_def)
  have ne: "\<forall>b\<in>set xs \<union> set ys. b \<noteq> B" "\<forall>b\<in>set xs. b \<noteq> e" "B \<noteq> e"
    using xlt yge Be by auto
  have MB: "free_in M B" "blk_end M B = e" "\<not> present (M B)" "next_free (M B) = next_free (m1 B)"
    using B m2B ne(3) by (simp_all add: M blk_end_def)
  have size_eq: "\<forall>b\<in>set xs \<union> set ys. blk_size (M b) = blk_size (m b) \<and> is_mmapped (M b) = is_mmapped (m b)"
    using ne(1) other by (simp add: M m2)
  have nf_eq: "\<forall>b\<in>set xs \<union> set ys. next_free (M b) = (if fxs \<noteq> [] \<and> b = last fxs then B else next_free (m b))"
    using ne(1) other by (simp add: M m2)
  have hdr_eq: "\<forall>b\<in>set xs. same_hdr m M b" "\<forall>b\<in>set ys. b \<noteq> e \<longrightarrow> same_hdr m M b"
    using ne other by (simp_all add: M m2 same_hdr_def)
  have fr: "free_blocks M (xs @ [B] @ ys) = fxs @ B # free_blocks m ys"
  proof -
    have "free_blocks M xs = free_blocks m xs" "free_blocks M ys = free_blocks m ys"
      using size_eq by (auto intro: free_blocks_cong)
    then show ?thesis using MB fxs by (simp add: free_blocks_Cons)
  qed
  have "e < ht \<longrightarrow> is_mmapped (m e)"
  proof
    assume "e < ht"
    then obtain y zs where y: "ys = y # zs" using top old by (cases ys) auto
    then have "y = e" using bl(2) old by (auto split: prod.splits)
    with hd_ys[OF y] show "is_mmapped (m e)" by simp
  qed
  then have e: "e < ht \<longrightarrow> present (M e) = True \<and> (True \<longrightarrow> previous_chunk (M e) = B \<and> is_mmapped (M e))"
  proof (intro impI conjI)
    assume lt: "e < ht" and im: "e < ht \<longrightarrow> is_mmapped (m e)"
    then have "e \<in> set ys" using top old bl(2) by (cases ys) (auto split: prod.splits)
    then show "is_mmapped (M e)" using size_eq im lt by auto
  qed (use ne(3) in \<open>auto simp: M patch_def\<close>)
  have "chain M (if fxs = [] then B else ff) (fxs @ B # free_blocks m ys) ht"
  proof -
    have ynf: "\<forall>y\<in>set (free_blocks m ys). next_free (M y) = next_free (m y)"
    proof
      fix y assume "y \<in> set (free_blocks m ys)"
      then have y: "y \<in> set ys" by (simp add: set_free_blocks)
      then have "B < y" using yge Be by auto
      moreover have "last fxs < B" if "fxs \<noteq> []" using xlt fin that last_in_set by blast
      ultimately show "next_free (M y) = next_free (m y)" using nf_eq y by fastforce
    qed
    have "chain M (hd (free_blocks m ys @ [ht])) (free_blocks m ys) ht"
      using chain_split3[OF ch] ynf by (subst chain_cong[where m = m]) auto
    moreover have "chain M (if fxs = [] then B else ff) fxs B"
    proof (cases "fxs = []")
      case False
      then obtain fs q where fs: "fxs = fs @ [q]" by (metis rev_exhaust)
      have "distinct fxs"
        using blocks_distinct[OF bl(1)] by (simp add: fxs free_blocks_def)
      then have q: "q \<notin> set fs" "q \<in> set xs" "set fs \<subseteq> set xs" using fs fin by auto
      have "chain m ff fs q"
        using chain_split3[OF ch] fs fxs by (simp add: chain_snoc)
      then have "chain M ff fs q"
        using q nf_eq fs by (subst chain_cong[where m = m]) auto
      then show ?thesis using False fs q nf_eq by (simp add: chain_snoc)
    qed simp
    ultimately show ?thesis
      using MB(4) B(4) by (simp add: chain_append)
  qed
  then have ch': "chain M (if fxs = [] then B else ff) (free_blocks M (xs @ [B] @ ys)) ht"
    by (simp only: fr)
  have "heap_inv M start ht (if fxs = [] then B else ff) (xs @ [B] @ ys)"
    by (rule heap_replace[OF inv cur old hdr_eq(1) _ _ _ hdr_eq(2) e ch'])
       (use MB size_eq in auto)
  moreover have "allocs M (xs @ [B] @ ys) = allocs m xs \<union> allocs M [B] \<union> allocs m ys"
    by (rule allocs_replace[OF size_eq])
  ultimately show ?thesis
    using MB(1) by (simp add: M_def[symmetric] allocs_Cons)
qed

text \<open>
  The state after the first merge: the blocks \<open>old\<close>, which end at \<open>n\<close>, are one
  free block \<open>B\<close> in \<open>m1\<close>; the free list is still the one of \<open>m\<close>.
\<close>

definition merged where
  "merged m start ht ff xs old ys B n m1 \<longleftrightarrow>
     heap_inv m start ht ff (xs @ old @ ys) \<and>
     (\<exists>pb. cursor_after m (start, False, 0) xs = (B, False, pb)
         \<and> fst (cursor_after m (B, False, pb) old) = n) \<and>
     free_in m1 B \<and> blk_end m1 B = n \<and> \<not> present (m1 B) \<and>
     (\<forall>b\<in>set xs \<union> set ys. m1 b = m b) \<and>
     (free_blocks m old = [] \<or> free_blocks m old = [B])"

lemma merged_facts:
  assumes "merged m start ht ff xs old ys B n m1"
  shows "\<forall>x\<in>set xs. 0 < x \<and> x < B" "\<forall>y\<in>set ys. n \<le> y \<and> B < y" "B < n" "n \<le> ht" "start \<le> B"
    "ht < 2 ^ 64" "ht < start + 2 ^ 60"
    "\<exists>pf pb. blocks m1 (n, pf, pb) ys \<and> fst (cursor_after m1 (n, pf, pb) ys) = ht"
proof -
  obtain pb where inv: "heap_inv m start ht ff (xs @ old @ ys)"
    and cur: "cursor_after m (start, False, 0) xs = (B, False, pb)"
    and old: "fst (cursor_after m (B, False, pb) old) = n"
    and B: "blk_end m1 B = n" and other: "\<forall>b\<in>set xs \<union> set ys. m1 b = m b"
    using assms by (auto simp: merged_def)
  have bl: "blocks m (start, False, 0) xs" "blocks m (cursor_after m (B, False, pb) old) ys"
    and top: "fst (cursor_after m (cursor_after m (B, False, pb) old) ys) = ht"
    and lim: "0 < start" "ht < 2 ^ 64" "ht < start + 2 ^ 60"
    using inv cur by (auto simp: heap_inv_def)
  show "ht < 2 ^ 64" "ht < start + 2 ^ 60" by (fact lim)+
  show Bn: "B < n" using B blk_end_gt[of B m1] by simp
  show "start \<le> B" using blocks_le[OF bl(1)] cur by simp
  show "n \<le> ht" using blocks_le[OF bl(2)] old top by simp
  show "\<forall>x\<in>set xs. 0 < x \<and> x < B"
  proof
    fix x assume "x \<in> set xs"
    from blocks_bounds[OF bl(1) this] show "0 < x \<and> x < B"
      using blk_end_gt[of x m] cur lim(1) by simp
  qed
  have "\<forall>y\<in>set ys. n \<le> y"
    using blocks_bounds[OF bl(2)] old by auto
  then show "\<forall>y\<in>set ys. n \<le> y \<and> B < y" using Bn by auto
  have "blocks m1 (cursor_after m (B, False, pb) old) ys"
    using bl(2) other by (subst blocks_cong[where m = m]) auto
  moreover have "fst (cursor_after m1 (cursor_after m (B, False, pb) old) ys) = ht"
    using top other by (subst cursor_after_cong[where m = m]) auto
  ultimately show "\<exists>pf pb. blocks m1 (n, pf, pb) ys \<and> fst (cursor_after m1 (n, pf, pb) ys) = ht"
    using old by (cases "cursor_after m (B, False, pb) old") auto
qed

lemma merged_free_blocks:
  assumes "merged m start ht ff xs old ys B n m1"
  shows "free_blocks m1 xs = free_blocks m xs" "free_blocks m1 ys = free_blocks m ys"
  using assms by (auto simp: merged_def intro!: free_blocks_cong)

text \<open>The block behind is in use, or there is none.\<close>

lemma heap_free_merged_mapped:
  assumes mg: "merged m start ht ff xs old ys B n m1"
    and hd_ys: "\<And>y zs. ys = y # zs \<Longrightarrow> is_mmapped (m y)"
  shows "\<exists>m2 ff2 m3 ff3. heap_free_scan B ht mx m1 n True ff = Some (m2, ff2) \<and>
    heap_free_link B m2 ff2 = Some (m3, ff3) \<and>
    heap_inv (heap_free_tail B ht m3) start ht ff3 (xs @ [B] @ ys) \<and>
    allocs (heap_free_tail B ht m3) (xs @ [B] @ ys) = allocs m xs \<union> allocs m ys"
proof -
  note f = merged_facts[OF mg] and fb = merged_free_blocks[OF mg]
  obtain pb where inv: "heap_inv m start ht ff (xs @ old @ ys)"
    and cur: "cursor_after m (start, False, 0) xs = (B, False, pb)"
      "fst (cursor_after m (B, False, pb) old) = n"
    and B: "free_in m1 B" "blk_end m1 B = n" "\<not> present (m1 B)"
    and other: "\<forall>b\<in>set xs \<union> set ys. m1 b = m b"
    and L: "free_blocks m old = [] \<or> free_blocks m old = [B]"
    using mg by (auto simp: merged_def)
  define nx where "nx = hd (free_blocks m ys @ [ht])"
  define m2 where "m2 = m1(B := (m1 B)\<lparr>next_free := nx\<rparr>)"
  have scan: "heap_free_scan B ht mx m1 n True ff = Some (m2, ff)"
  proof -
    obtain pf pb' where "blocks m1 (n, pf, pb') ys" "fst (cursor_after m1 (n, pf, pb') ys) = ht"
      using f(8) by blast
    from heap_free_scan_mapped[OF this f(6)] hd_ys other show ?thesis
      by (simp add: m2_def nx_def fb)
  qed
  have nx: "B < nx"
    using f by (cases "free_blocks m ys") (auto simp: nx_def free_blocks_def filter_eq_Cons_iff)
  have ch: "chain m ff (free_blocks m xs @ free_blocks m old @ free_blocks m ys) ht"
    using inv by (simp add: heap_inv_def)
  define fxs where "fxs = free_blocks m xs"
  have sub: "set fxs \<subseteq> set xs" by (auto simp: fxs_def free_blocks_def)
  let ?X = "hd (free_blocks m old @ free_blocks m ys @ [ht])"
  have X: "?X = B \<or> ?X = nx" using L by (auto simp: nx_def)
  have chx: "chain m ff fxs ?X" using chain_split3[OF ch] by (simp add: fxs_def)
  have link: "heap_free_link B m2 ff = Some (if fxs = [] then m2 else m2(last fxs := (m2 (last fxs))\<lparr>next_free := B\<rparr>),
      if fxs = [] then B else ff)"
  proof (rule heap_free_link_eval)
    show "\<forall>x\<in>set fxs. 0 < x \<and> x < B" using f(1) sub by blast
    show "(ff = B \<and> B \<le> next_free (m2 B)) \<or> (B < ff \<and> next_free (m2 B) = ff)" if "fxs = []"
      using that chx X nx by (auto simp: m2_def)
    have "chain m2 ff fxs ?X"
      using chx other sub f(1) by (subst chain_cong[where m = m]) (auto simp: m2_def)
    then show "chain m2 ff fxs ?X \<and> B \<le> ?X" using X nx by auto
  qed
  have M: "free_in m2 B" "blk_end m2 B = n" "\<not> present (m2 B)" "next_free (m2 B) = hd (free_blocks m ys @ [ht])"
    using B by (simp_all add: m2_def nx_def blk_end_def)
  have oth: "\<forall>b\<in>set xs \<union> set ys. m2 b = m b"
    using other f(1,2) by (auto simp: m2_def)
  show ?thesis
    using heap_free_core[OF inv cur M oth hd_ys fxs_def refl] scan link by auto
qed

text \<open>The block behind is free: it is absorbed.\<close>

lemma heap_free_merged_absorb:
  assumes mg: "merged m start ht ff xs old (y # zs) B n m1" and fy: "free_in m y"
    and mx: "ht - start \<le> mx"
  shows "\<exists>m2 ff2 m3 ff3. heap_free_scan B ht mx m1 n True ff = Some (m2, ff2) \<and>
    heap_free_link B m2 ff2 = Some (m3, ff3) \<and>
    heap_inv (heap_free_tail B ht m3) start ht ff3 (xs @ [B] @ zs) \<and>
    allocs (heap_free_tail B ht m3) (xs @ [B] @ zs) = allocs m xs \<union> allocs m (y # zs)"
proof -
  note f = merged_facts[OF mg] and fb = merged_free_blocks[OF mg]
  obtain pb where inv: "heap_inv m start ht ff (xs @ old @ y # zs)"
    and cur: "cursor_after m (start, False, 0) xs = (B, False, pb)"
      "fst (cursor_after m (B, False, pb) old) = n"
    and B: "free_in m1 B" "blk_end m1 B = n" "\<not> present (m1 B)"
    and other: "\<forall>b\<in>set xs \<union> set (y # zs). m1 b = m b"
    and L: "free_blocks m old = [] \<or> free_blocks m old = [B]"
    using mg by (auto simp: merged_def)
  obtain pf pb' where bl: "blocks m1 (n, pf, pb') (y # zs)" "fst (cursor_after m1 (n, pf, pb') (y # zs)) = ht"
    using f(8) by blast
  then have y: "y = n" by simp
  have m1n: "m1 n = m n" using other y by simp
  have ends: "blk_end m n \<le> ht" "n < blk_end m n"
    using heap_inv_bounds(2)[OF inv, of n] y blk_end_gt[of n m] by auto
  define nx where "nx = hd (free_blocks m zs @ [ht])"
  define m2 where "m2 = m1(B := (m1 B)\<lparr>blk_size := blk_end m n - B - sizeof_block_info, next_free := nx\<rparr>)"
  define ff2 where "ff2 = (if ff = n then B else ff)"
  have fz: "free_blocks m1 zs = free_blocks m zs"
    using other by (intro free_blocks_cong) auto
  have gap: "blk_end m n = n + sizeof_block_info + blk_size (m n)" "B + sizeof_block_info + blk_size (m1 B) = n"
    using B(2) by (simp_all add: blk_end_def)
  have Bz: "B \<notin> set zs" using f(2) by auto
  have sizes: "blk_size (m1 B) + sizeof_block_info < mx" "blk_end m n < B + 2 ^ 60"
    using gap ends mx f(5,7) by (auto simp: sizeof_block_info_def)
  have scan: "heap_free_scan B ht mx m1 n True ff = Some (m2, ff2)"
    using heap_free_scan_absorb[of m1 n pf pb' zs ht B mx ff] bl y f(3,6) gap(2) fy m1n Bz sizes
    by (simp add: m2_def nx_def ff2_def fz blk_end_def)
  have Bzs: "\<forall>z\<in>set zs. B < z" using f(2) by simp
  have nx: "B < nx"
    using f Bzs by (cases "free_blocks m zs") (auto simp: nx_def free_blocks_def filter_eq_Cons_iff)
  have ch: "chain m ff (free_blocks m xs @ free_blocks m old @ free_blocks m (y # zs)) ht"
    using inv by (simp add: heap_inv_def)
  define fxs where "fxs = free_blocks m xs"
  have sub: "set fxs \<subseteq> set xs" by (auto simp: fxs_def free_blocks_def)
  let ?X = "hd (free_blocks m old @ free_blocks m (y # zs) @ [ht])"
  have X: "?X = B \<or> ?X = n" using L fy y by (auto simp: free_blocks_Cons)
  have chx: "chain m ff fxs ?X" using chain_split3[OF ch] by (simp add: fxs_def)
  have ffx: "ff2 = B" if "fxs = []" using chx X that f(3) by (auto simp: ff2_def)
  have ffy: "ff2 = ff" if "fxs \<noteq> []"
  proof -
    from that obtain a fs where a: "fxs = a # fs" by (cases fxs) auto
    then have "ff \<in> set xs" using chx sub by auto
    then show ?thesis using f(1,3) by (auto simp: ff2_def)
  qed
  have link: "heap_free_link B m2 ff2 = Some (if fxs = [] then m2 else m2(last fxs := (m2 (last fxs))\<lparr>next_free := B\<rparr>),
      if fxs = [] then B else ff2)"
  proof (rule heap_free_link_eval)
    show "\<forall>x\<in>set fxs. 0 < x \<and> x < B" using f(1) sub by blast
    show "(ff2 = B \<and> B \<le> next_free (m2 B)) \<or> (B < ff2 \<and> next_free (m2 B) = ff2)" if "fxs = []"
      using ffx[OF that] nx by (auto simp: m2_def)
    show "chain m2 ff2 fxs ?X \<and> B \<le> ?X" if "fxs \<noteq> []"
    proof -
      have "chain m2 ff fxs ?X"
        using chx other sub f(1) by (subst chain_cong[where m = m]) (auto simp: m2_def)
      then show ?thesis using X f(3) ffy[OF that] by auto
    qed
  qed
  have M: "free_in m2 B" "blk_end m2 B = blk_end m n" "\<not> present (m2 B)" "next_free (m2 B) = hd (free_blocks m zs @ [ht])"
    using B gap ends by (simp_all add: m2_def nx_def blk_end_def)
  have oth: "\<forall>b\<in>set xs \<union> set zs. m2 b = m b"
    using other f(1) Bz by (auto simp: m2_def)
  have inv': "heap_inv m start ht ff (xs @ (old @ [y]) @ zs)"
    using inv by simp
  have cur': "fst (cursor_after m (B, False, pb) (old @ [y])) = blk_end m n"
    using y by simp
  have hd_zs: "is_mmapped (m z)" if "zs = z # ws" for z ws
    using inv fy that unfolding heap_inv_def by auto
  have "(if fxs = [] then B else ff2) = (if fxs = [] then B else ff)" using ffy by auto
  then show ?thesis
    using heap_free_core[OF inv' cur(1) cur' M oth hd_zs fxs_def refl] scan link fy
    by (auto simp: allocs_Cons)
qed

lemma heap_free_merged:
  assumes mg: "merged m start ht ff xs old ys B n m1" and mx: "ht - start \<le> mx"
  shows "\<exists>m2 ff2 m3 ff3 bs'. heap_free_scan B ht mx m1 n True ff = Some (m2, ff2) \<and>
    heap_free_link B m2 ff2 = Some (m3, ff3) \<and>
    heap_inv (heap_free_tail B ht m3) start ht ff3 bs' \<and>
    allocs (heap_free_tail B ht m3) bs' = allocs m xs \<union> allocs m ys"
proof (cases "\<exists>y zs. ys = y # zs \<and> free_in m y")
  case True
  then obtain y zs where "ys = y # zs" "free_in m y" by blast
  with heap_free_merged_absorb[of m start ht ff xs old y zs B n m1 mx] mg mx show ?thesis
    by blast
next
  case False
  then show ?thesis using heap_free_merged_mapped[OF mg, of mx] by blast
qed

lemma heap_free_merge_alone:
  assumes inv: "heap_inv m start ht ff (xs @ b # ys)" and b: "is_mmapped (m b)" "\<not> present (m b)"
  shows "\<exists>m1. heap_free_merge b m = (m1, b) \<and> merged m start ht ff xs [b] ys b (blk_end m b) m1"
proof -
  obtain pb where cur: "cursor_after m (start, False, 0) xs = (b, False, pb)"
    using heap_inv_at[OF inv] b(2) by metis
  have "b \<notin> set xs" "b \<notin> set ys"
    using heap_inv_distinct[OF inv] by auto
  then show ?thesis
    using inv b cur by (auto simp: heap_free_merge_def merged_def blk_end_def free_blocks_def Let_def)
qed

lemma heap_free_merge_prev:
  assumes inv: "heap_inv m start ht ff (xs @ b # ys)" and b: "is_mmapped (m b)" "present (m b)"
  shows "\<exists>m1 xs' p. xs = xs' @ [p] \<and> free_in m p \<and> heap_free_merge b m = (m1, p) \<and>
    merged m start ht ff xs' [p, b] ys p (blk_end m b) m1"
proof -
  obtain pf pb where cur: "cursor_after m (start, False, 0) xs = (b, pf, pb)"
    and pf: "pf" "previous_chunk (m b) = pb"
    using heap_inv_at[OF inv] b by metis
  obtain xs' p where xs: "xs = xs' @ [p]"
    using cur pf by (cases xs rule: rev_cases) auto
  then have p: "p = pb" "free_in m p" "blk_end m p = b"
    using cur pf by auto
  have inv': "heap_inv m start ht ff (xs' @ p # b # ys)" using inv xs by simp
  obtain qb where cur': "cursor_after m (start, False, 0) xs' = (p, False, qb)" and "\<not> present (m p)"
    using heap_inv_at[OF inv'] p(2) by metis
  note bp = heap_inv_bounds[OF inv', of p, simplified] and bb = heap_inv_bounds[OF inv', of b, simplified]
  have ht: "ht < start + 2 ^ 60" using inv by (simp add: heap_inv_def)
  have dist: "distinct (xs' @ p # b # ys)" by (rule heap_inv_distinct[OF inv'])
  define k where "k = blk_size (m p) + (blk_size (m b) + sizeof_block_info)"
  have "k < 2 ^ 60" "w64 (blk_size (m b) + sizeof_block_info) = blk_size (m b) + sizeof_block_info"
    using bp bb ht p(3) by (auto simp: k_def blk_end_def)
  then have k: "u60 (blk_size (m p) + w64 (blk_size (m b) + sizeof_block_info)) = k"
    by (simp add: k_def)
  have ends: "p + sizeof_block_info + k = blk_end m b"
    using p(3) by (simp add: k_def blk_end_def)
  let ?m1 = "m(b := (m b)\<lparr>is_mmapped := False\<rparr>, p := (m p)\<lparr>blk_size := k\<rparr>)"
  have ne: "b \<noteq> p" "p \<noteq> b" using dist by auto
  have "heap_free_merge b m = (?m1, p)"
    using b p ne pf k by (simp add: heap_free_merge_def Let_def)
  moreover have "merged m start ht ff xs' [p, b] ys p (blk_end m b) ?m1"
    unfolding merged_def using inv' cur' b p(2) dist ends \<open>\<not> present (m p)\<close>
    by (auto simp: blk_end_def free_blocks_def)
  ultimately show ?thesis using xs p(2) by blast
qed

lemma heap_free_correct:
  assumes inv: "heap_inv m start ht ff bs" and b: "b \<in> set bs" "is_mmapped (m b)"
    and mx: "ht - start \<le> mx"
  shows "\<exists>m' ff' bs'. heap_free b (blk_end m b) ht mx m ff = Some (m', ff') \<and>
    heap_inv m' start ht ff' bs' \<and> allocs m' bs' = allocs m bs - {(b, blk_size (m b))}"
proof -
  obtain xs ys where bs: "bs = xs @ b # ys" using b(1) by (meson split_list)
  have inv': "heap_inv m start ht ff (xs @ b # ys)" using inv bs by simp
  have al: "allocs m xs \<union> allocs m ys = allocs m bs - {(b, blk_size (m b))}"
    using heap_inv_distinct[OF inv'] b(2) bs by (auto simp: allocs_def)
  show ?thesis
  proof (cases "present (m b)")
    case False
    obtain m1 where m1: "heap_free_merge b m = (m1, b)"
      and mg: "merged m start ht ff xs [b] ys b (blk_end m b) m1"
      using heap_free_merge_alone[OF inv' b(2) False] by blast
    show ?thesis
      using heap_free_merged[OF mg mx] al unfolding heap_free_def m1 by auto
  next
    case True
    obtain m1 xs' p where xs: "xs = xs' @ [p]" "free_in m p" and m1: "heap_free_merge b m = (m1, p)"
      and mg: "merged m start ht ff xs' [p, b] ys p (blk_end m b) m1"
      using heap_free_merge_prev[OF inv' b(2) True] by blast
    have "allocs m xs = allocs m xs'" using xs by (simp add: allocs_append allocs_Cons allocs_Nil)
    then show ?thesis
      using heap_free_merged[OF mg mx] al unfolding heap_free_def m1 by auto
  qed
qed

lemma heap_alloc_correct:
  assumes inv: "heap_inv m start ht ff (xs @ c # ys)" and free: "free_in m c"
    and sz: "sz \<le> blk_size (m c)"
    and link: "if first \<and> c = ff then True
               else free_blocks m xs \<noteq> [] \<and> prev = last (free_blocks m xs)"
  shows "\<exists>m' ff' bs' n k. heap_alloc sz c prev ht first m ff = (m', ff', n + sizeof_block_info) \<and>
    heap_inv m' start ht ff' bs' \<and> sz \<le> k \<and> k \<le> sz + sizeof_block_info \<and>
    c \<le> n \<and> n + sizeof_block_info + k = blk_end m c \<and>
    allocs m' bs' = insert (n, k) (allocs m (xs @ c # ys))"
proof (cases "blk_size (m c) \<le> sz + sizeof_block_info")
  case True
  obtain m' ff' where "heap_alloc sz c prev ht first m ff = (m', ff', c + sizeof_block_info)"
    "heap_inv m' start ht ff' (xs @ c # ys)"
    "allocs m' (xs @ c # ys) = insert (c, blk_size (m c)) (allocs m (xs @ c # ys))"
    using heap_alloc_whole[OF inv free sz True link] by blast
  then show ?thesis
    using sz True
    by (intro exI[of _ m'] exI[of _ ff'] exI[of _ "xs @ c # ys"] exI[of _ c] exI[of _ "blk_size (m c)"])
       (simp add: blk_end_def)
next
  case False
  define n where "n = c + blk_size (m c) - sz"
  obtain m' where "heap_alloc sz c prev ht first m ff = (m', ff, n + sizeof_block_info)"
    "heap_inv m' start ht ff (xs @ c # n # ys)"
    "allocs m' (xs @ c # n # ys) = insert (n, sz) (allocs m (xs @ c # ys))"
    using heap_alloc_split[OF inv free _ n_def, of prev first] False by auto
  then show ?thesis
    using sz
    by (intro exI[of _ m'] exI[of _ ff] exI[of _ "xs @ c # n # ys"] exI[of _ n] exI[of _ sz])
       (simp add: blk_end_def n_def)
qed

text \<open>
  The same for a walk along the free list that stands at \<open>c\<close>, with \<open>prev\<close> the
  free block it came from.
\<close>

lemma free_blocks_split:
  assumes inv: "heap_inv m start ht ff bs" and fl: "free_blocks m bs = fs1 @ c # fs2"
  obtains xs ys where "bs = xs @ c # ys" "free_blocks m xs = fs1" "free_in m c"
proof -
  have c: "c \<in> set (free_blocks m bs)" using fl by simp
  then obtain xs ys where bs: "bs = xs @ c # ys" and free: "free_in m c"
    by (auto simp: set_free_blocks dest: split_list)
  have "c \<notin> set (free_blocks m xs)" "c \<notin> set (free_blocks m ys)"
    using heap_inv_distinct[OF inv] bs by (auto simp: free_blocks_def)
  moreover have "free_blocks m xs @ c # free_blocks m ys = fs1 @ c # fs2"
    using fl bs free by (simp add: free_blocks_def)
  ultimately have "free_blocks m xs = fs1" by (simp add: append_Cons_eq_iff)
  with bs free that show thesis by blast
qed

lemma heap_alloc_at:
  assumes inv: "heap_inv m start ht ff bs" and fl: "free_blocks m bs = fs1 @ c # fs2"
    and sz: "sz \<le> blk_size (m c)"
    and prev: "fs1 \<noteq> [] \<Longrightarrow> prev = last fs1" and first: "first \<or> fs1 \<noteq> []"
  shows "\<exists>m' ff' bs' n k. heap_alloc sz c prev ht first m ff = (m', ff', n + sizeof_block_info) \<and>
    heap_inv m' start ht ff' bs' \<and> sz \<le> k \<and> k \<le> sz + sizeof_block_info \<and>
    c \<le> n \<and> n + sizeof_block_info + k = blk_end m c \<and> n \<notin> fst ` allocs m bs \<and>
    allocs m' bs' = insert (n, k) (allocs m bs)"
proof -
  obtain xs ys where bs: "bs = xs @ c # ys" and fx: "free_blocks m xs = fs1" and free: "free_in m c"
    using free_blocks_split[OF inv fl] by blast
  have "chain m ff (fs1 @ c # fs2) ht" using inv fl by (simp add: heap_inv_def)
  then have "fs1 = [] \<Longrightarrow> c = ff" by simp
  then have link: "if first \<and> c = ff then True else free_blocks m xs \<noteq> [] \<and> prev = last (free_blocks m xs)"
    using prev first fx by auto
  have fresh: "n \<notin> fst ` allocs m bs" if "c \<le> n" "n + sizeof_block_info + k = blk_end m c" for n k
  proof
    assume "n \<in> fst ` allocs m bs"
    then have n: "n \<in> set bs" "is_mmapped (m n)" by (auto simp: allocs_def)
    then have "n \<in> set xs \<or> n \<in> set ys" using bs free by auto
    then show False
      using heap_inv_order[of m start ht ff xs c ys] inv bs that by (auto simp: sizeof_block_info_def)
  qed
  show ?thesis
    using heap_alloc_correct[OF inv[unfolded bs] free sz link] fresh unfolding bs by blast
qed

lemma heap_alloc_small:
  "blk_size (m c) < sz \<Longrightarrow> heap_alloc sz c prev ht first m ff = (m, ff, 0)"
  by (simp add: heap_alloc_def)

text \<open>Allocated blocks do not overlap.\<close>

lemma allocs_disjoint:
  assumes inv: "heap_inv m start ht ff bs"
    and a: "(a, k) \<in> allocs m bs" and b: "(b, l) \<in> allocs m bs" and ne: "a \<noteq> b"
  shows "a + sizeof_block_info + k \<le> b \<or> b + sizeof_block_info + l \<le> a"
proof -
  have mem: "a \<in> set bs" "b \<in> set bs" and k: "k = blk_size (m a)" "l = blk_size (m b)"
    using a b by (auto simp: allocs_def)
  obtain xs ys where bs: "bs = xs @ a # ys" using mem(1) by (meson split_list)
  with mem(2) ne have "b \<in> set xs \<or> b \<in> set ys" by auto
  then show ?thesis
    using heap_inv_order(1,2)[of m start ht ff xs a ys] inv bs k by (auto simp: blk_end_def)
qed

lemma allocs_bounds:
  assumes "heap_inv m start ht ff bs" "(b, k) \<in> allocs m bs"
  shows "start \<le> b \<and> 0 < b \<and> b + sizeof_block_info + k \<le> ht"
  using heap_inv_bounds[OF assms(1), of b] assms(2) by (auto simp: allocs_def blk_end_def)

section \<open>What the caller of a heap sees\<close>

text \<open>The regions handed out: the address behind the header, and the size.\<close>

definition user_view :: "(ptr \<times> nat) set \<Rightarrow> (ptr \<times> nat) set" where
  "user_view A = (\<lambda>(b, s). (b + sizeof_block_info, s)) ` A"

lemma user_view_insert [simp]:
  "user_view (insert (b, s) A) = insert (b + sizeof_block_info, s) (user_view A)"
  by (simp add: user_view_def)

lemma user_view_mem [simp]:
  "(p, s) \<in> user_view A \<longleftrightarrow> (\<exists>b. p = b + sizeof_block_info \<and> (b, s) \<in> A)"
  by (force simp: user_view_def)

lemma user_view_fst [simp]: "b + sizeof_block_info \<in> fst ` user_view A \<longleftrightarrow> b \<in> fst ` A"
  by (force simp: user_view_def)

lemma user_view_remove [simp]:
  "user_view (A - {(b, s)}) = user_view A - {(b + sizeof_block_info, s)}"
proof -
  have "inj (\<lambda>(b, s). (b + sizeof_block_info, s :: nat))" by (auto simp: inj_on_def)
  from image_set_diff[OF this, of A "{(b, s)}"] show ?thesis by (simp add: user_view_def)
qed

lemma user_view_separate:
  assumes inv: "heap_inv m start ht ff bs" and L: "L = user_view (allocs m bs)"
    and p: "(p, k) \<in> L" and q: "(q, l) \<in> L" and ne: "(p, k) \<noteq> (q, l)"
  shows "p + k < q \<or> q + l < p"
proof -
  obtain a b where a: "p = a + sizeof_block_info" "(a, k) \<in> allocs m bs"
    and b: "q = b + sizeof_block_info" "(b, l) \<in> allocs m bs"
    using p q L by auto
  have "a \<noteq> b" using a b ne by (auto simp: allocs_def)
  from allocs_disjoint[OF inv a(2) b(2) this] show ?thesis
    using a(1) b(1) sizeof_block_info_pos by linarith
qed

end
