(* ===== verification/Memory.thy ===== *)
theory Memory
  imports Prelude
begin

text \<open>
  The memory layout, \<open>include/balrog_os/memory/memory.h\<close>: the windows of the
  kernel address space, the translation between physical and virtual
  addresses, the indices a virtual address has in the four levels of page
  tables, the page flags and the alignment macros. Addresses are natural
  numbers below \<open>2 ^ 64\<close>; the complements of the C code are the 64 bit masks
  they evaluate to.
\<close>

unbundle bit_operations_syntax

section \<open>Constants\<close>

definition KERNEL_MAP_BASE :: nat where "KERNEL_MAP_BASE = 0xFFFFFF8000000000"
definition KERNEL_TEXT_BASE :: nat where "KERNEL_TEXT_BASE = 0xFFFFFFFF80000000"
definition KERNEL_OFFSET :: nat where "KERNEL_OFFSET = KERNEL_MAP_BASE"
definition P2V_MAX :: nat where "P2V_MAX = 0x2000000000"

definition PAGE_SIZE :: nat where "PAGE_SIZE = 4096"
definition PAGE_FLAG_MASK :: nat where "PAGE_FLAG_MASK = 0xfff"
definition PAGE_PRESENT :: nat where "PAGE_PRESENT = 0x001"
definition PAGE_WRITE :: nat where "PAGE_WRITE = 0x002"
definition PAGE_USER :: nat where "PAGE_USER = 0x004"
definition PAGE_GLOBAL :: nat where "PAGE_GLOBAL = 0x100"
definition PAGE_SHARED :: nat where "PAGE_SHARED = 0x200"
definition USABLE_MEMORY :: nat where "USABLE_MEMORY = 1"

lemmas memory_consts = KERNEL_MAP_BASE_def KERNEL_TEXT_BASE_def KERNEL_OFFSET_def P2V_MAX_def
  PAGE_SIZE_def PAGE_FLAG_MASK_def PAGE_PRESENT_def PAGE_WRITE_def PAGE_USER_def
  PAGE_GLOBAL_def PAGE_SHARED_def USABLE_MEMORY_def

section \<open>Physical and virtual addresses\<close>

text \<open>The 64 bit complement of a mask.\<close>

definition not64 :: "nat \<Rightarrow> nat" where
  "not64 n = 2 ^ 64 - 1 - n mod 2 ^ 64"

definition V2P :: "nat \<Rightarrow> nat" where
  "V2P addr = (if addr \<ge> KERNEL_TEXT_BASE then addr - KERNEL_TEXT_BASE
               else addr AND not64 KERNEL_MAP_BASE)"

definition P2V :: "nat \<Rightarrow> nat" where
  "P2V addr = addr OR KERNEL_MAP_BASE"

section \<open>Page tables\<close>

definition PML4T_OFFSET :: "nat \<Rightarrow> nat" where "PML4T_OFFSET addr = drop_bit 39 addr AND 0x1ff"
definition PDPT_OFFSET :: "nat \<Rightarrow> nat" where "PDPT_OFFSET addr = drop_bit 30 addr AND 0x1ff"
definition PDT_OFFSET :: "nat \<Rightarrow> nat" where "PDT_OFFSET addr = drop_bit 21 addr AND 0x1ff"
definition PT_OFFSET :: "nat \<Rightarrow> nat" where "PT_OFFSET addr = drop_bit 12 addr AND 0x1ff"

definition PML4T_TO_VIRT :: "nat \<Rightarrow> nat" where "PML4T_TO_VIRT i = w64 (push_bit 39 i)"
definition PDPT_TO_VIRT :: "nat \<Rightarrow> nat" where "PDPT_TO_VIRT i = w64 (push_bit 30 i)"
definition PDT_TO_VIRT :: "nat \<Rightarrow> nat" where "PDT_TO_VIRT i = w64 (push_bit 21 i)"
definition PT_TO_VIRT :: "nat \<Rightarrow> nat" where "PT_TO_VIRT i = w64 (push_bit 12 i)"

definition STRIP_FLAGS :: "nat \<Rightarrow> nat" where
  "STRIP_FLAGS addr = addr AND not64 PAGE_FLAG_MASK"

definition GET_FLAGS :: "nat \<Rightarrow> nat" where
  "GET_FLAGS addr = addr AND PAGE_FLAG_MASK"

definition ADD_FLAGS :: "nat \<Rightarrow> nat \<Rightarrow> nat" where
  "ADD_FLAGS addr flags = addr OR (flags AND PAGE_FLAG_MASK)"

definition PAGE_ALIGN_UP :: "nat \<Rightarrow> nat" where
  "PAGE_ALIGN_UP addr = w64 (addr + PAGE_SIZE - 1) AND not64 (PAGE_SIZE - 1)"

definition PAGE_ALIGN_DOWN :: "nat \<Rightarrow> nat" where
  "PAGE_ALIGN_DOWN addr = addr AND not64 (PAGE_SIZE - 1)"

section \<open>What the masks compute\<close>

lemma and_mask_nat: "(n :: nat) AND (2 ^ k - 1) = n mod 2 ^ k"
  by (metis mask_eq_exp_minus_1 take_bit_eq_mask take_bit_eq_mod)

lemma and_0x1ff [simp]: "(n :: nat) AND 0x1ff = n mod 512"
  using and_mask_nat[of n 9] by simp

lemma and_0xfff: "(n :: nat) AND 0xfff = n mod 4096"
  using and_mask_nat[of n 12] by simp

text \<open>Clearing the low bits of a 64 bit value.\<close>

lemma and_high_mask:
  assumes "n < 2 ^ 64" "k \<le> 64"
  shows "n AND (2 ^ 64 - 2 ^ k) = n - n mod (2 ^ k :: nat)"
proof -
  have mask: "(2 ^ 64 - 2 ^ k :: nat) = push_bit k (mask (64 - k))"
    using assms(2) by (simp add: mask_eq_exp_minus_1 push_bit_eq_mult algebra_simps diff_mult_distrib2
        flip: power_add)
  have "n AND push_bit k (mask (64 - k)) = push_bit k (take_bit (64 - k) (drop_bit k n))"
    by (rule bit_eqI) (auto simp: bit_simps)
  also have "take_bit (64 - k) (drop_bit k n) = drop_bit k n"
  proof -
    have "drop_bit k n < 2 ^ (64 - k)"
      using assms by (simp add: drop_bit_eq_div less_mult_imp_div_less flip: power_add)
    then show ?thesis by (simp add: take_bit_nat_eq_self_iff)
  qed
  also have "push_bit k (drop_bit k n) = n - n mod 2 ^ k"
    by (simp add: push_bit_eq_mult drop_bit_eq_div minus_mod_eq_div_mult)
  finally show ?thesis by (simp only: mask)
qed

lemma not64_flags [simp]: "not64 PAGE_FLAG_MASK = 2 ^ 64 - 2 ^ 12" "not64 (PAGE_SIZE - 1) = 2 ^ 64 - 2 ^ 12"
  by (simp_all add: not64_def memory_consts)

lemma STRIP_FLAGS_eq: "n < 2 ^ 64 \<Longrightarrow> STRIP_FLAGS n = n - n mod PAGE_SIZE"
  using and_high_mask[of n 12] by (simp add: STRIP_FLAGS_def PAGE_SIZE_def)

lemma GET_FLAGS_eq: "GET_FLAGS n = n mod PAGE_SIZE"
  by (simp add: GET_FLAGS_def PAGE_FLAG_MASK_def and_0xfff PAGE_SIZE_def)

lemma PAGE_ALIGN_DOWN_eq: "n < 2 ^ 64 \<Longrightarrow> PAGE_ALIGN_DOWN n = n - n mod PAGE_SIZE"
  using and_high_mask[of n 12] not64_flags(2) by (simp add: PAGE_ALIGN_DOWN_def PAGE_SIZE_def)

lemma PAGE_SIZE_pos [simp]: "0 < PAGE_SIZE"
  by (simp add: PAGE_SIZE_def)

lemma PAGE_ALIGN_UP_eq:
  assumes "n + PAGE_SIZE - 1 < 2 ^ 64"
  shows "PAGE_ALIGN_UP n = (n + PAGE_SIZE - 1) - (n + PAGE_SIZE - 1) mod PAGE_SIZE"
  using PAGE_ALIGN_DOWN_eq[OF assms] w64_id[OF assms]
  unfolding PAGE_ALIGN_UP_def PAGE_ALIGN_DOWN_def by (simp only:)

lemma PAGE_ALIGN_UP_ge: "n + PAGE_SIZE - 1 < 2 ^ 64 \<Longrightarrow> n \<le> PAGE_ALIGN_UP n"
  unfolding PAGE_ALIGN_UP_eq
  using mod_less_divisor[OF PAGE_SIZE_pos, of "n + PAGE_SIZE - 1"] by linarith

lemma PAGE_ALIGN_UP_dvd: "n + PAGE_SIZE - 1 < 2 ^ 64 \<Longrightarrow> PAGE_SIZE dvd PAGE_ALIGN_UP n"
  unfolding PAGE_ALIGN_UP_eq by (rule dvd_minus_mod)

lemma or_disjoint_add:
  assumes "2 ^ k dvd (a :: nat)" "b < 2 ^ k"
  shows "a OR b = a + b"
proof -
  obtain c where a: "a = push_bit k c" using assms(1) by (auto simp: push_bit_eq_mult dvd_def mult.commute)
  have "b = take_bit k b" using assms(2) by (metis take_bit_nat_eq_self_iff)
  then have "\<not> bit b n" if "k \<le> n" for n
    using that by (metis bit_take_bit_iff leD)
  then have "a AND b = 0"
    unfolding a by (intro bit_eqI) (auto simp: bit_simps)
  then show ?thesis by (simp add: disjunctive_add_eq_or)
qed

lemma ADD_FLAGS_eq:
  "PAGE_SIZE dvd a \<Longrightarrow> f < PAGE_SIZE \<Longrightarrow> ADD_FLAGS a f = a + f"
  using or_disjoint_add[of 12 a f]
  by (simp add: ADD_FLAGS_def PAGE_FLAG_MASK_def and_0xfff PAGE_SIZE_def)

lemma page_strip_add [simp]:
  "PAGE_SIZE dvd a \<Longrightarrow> f < PAGE_SIZE \<Longrightarrow> (a + f) mod PAGE_SIZE = f"
  by (metis mod_less add.commute mod_add_self2 dvd_imp_mod_0 mod_add_right_eq add.right_neutral)

lemma STRIP_ADD_FLAGS:
  assumes "PAGE_SIZE dvd a" "a < 2 ^ 64 - PAGE_SIZE" "f < PAGE_SIZE"
  shows "STRIP_FLAGS (ADD_FLAGS a f) = a" "GET_FLAGS (ADD_FLAGS a f) = f"
  using assms by (simp_all add: ADD_FLAGS_eq STRIP_FLAGS_eq GET_FLAGS_eq)

text \<open>The window of a physical address, and the way back.\<close>

lemma not64_map_base [simp]: "not64 KERNEL_MAP_BASE = 2 ^ 39 - 1"
  by (simp add: not64_def KERNEL_MAP_BASE_def)

lemma V2P_linear: "a < KERNEL_TEXT_BASE \<Longrightarrow> V2P a = a mod 2 ^ 39"
  using and_mask_nat[of a 39] by (simp add: V2P_def)

lemma P2V_eq: "a < 2 ^ 39 \<Longrightarrow> P2V a = KERNEL_MAP_BASE + a"
  using or_disjoint_add[of 39 KERNEL_MAP_BASE a]
  by (simp add: P2V_def or.commute KERNEL_MAP_BASE_def)

lemma V2P_P2V: "a < 0x7F80000000 \<Longrightarrow> V2P (P2V a) = a"
proof -
  assume a: "a < 0x7F80000000"
  have "(KERNEL_MAP_BASE + a) mod 2 ^ 39 = a mod 2 ^ 39"
    using mod_mult_self4[of "2 ^ 39" "2 ^ 25 - 1" a] by (simp add: KERNEL_MAP_BASE_def mult.commute)
  then show ?thesis
    using a V2P_linear[of "P2V a"] by (simp add: P2V_eq KERNEL_MAP_BASE_def KERNEL_TEXT_BASE_def)
qed

end
