(* ===== verification/Reserve.thy ===== *)
theory Reserve
  imports Memory
begin

text \<open>
  The reserved ranges of the physical memory manager,
  \<open>src/kernel/memory/pmm.c\<close> (\<open>pmm_reserve\<close>): eight slots of page-aligned
  ranges that \<open>pmm_alloc\<close> steps over. The kernel heap reserves its own memory
  before the rest of the manager runs, so the slots are a component of their
  own.
\<close>

definition PMM_MAX_RESERVED :: nat where
  "PMM_MAX_RESERVED = 8"

text \<open>The slots in use, in the order they were filled; \<open>reserved_count\<close> is their
  number.\<close>

record reserve =
  reserved_start :: "nat list"
  reserved_end :: "nat list"
  reserved_count :: nat

definition reserve_empty :: reserve where
  "reserve_empty = \<lparr>reserved_start = replicate PMM_MAX_RESERVED 0,
                    reserved_end = replicate PMM_MAX_RESERVED 0, reserved_count = 0\<rparr>"

definition pmm_reserve :: "nat \<Rightarrow> nat \<Rightarrow> reserve \<Rightarrow> reserve" where
  "pmm_reserve start sz r =
     (if reserved_count r = PMM_MAX_RESERVED then r
      else r\<lparr>reserved_start := (reserved_start r)[reserved_count r := start AND not64 (PAGE_SIZE - 1)],
             reserved_end := (reserved_end r)[reserved_count r :=
                                w64 (start + sz + PAGE_SIZE - 1) AND not64 (PAGE_SIZE - 1)],
             reserved_count := reserved_count r + 1\<rparr>)"

text \<open>The ranges a reserve table holds.\<close>

definition ranges :: "reserve \<Rightarrow> (nat \<times> nat) list" where
  "ranges r = take (reserved_count r) (zip (reserved_start r) (reserved_end r))"

definition reserve_ok :: "reserve \<Rightarrow> bool" where
  "reserve_ok r \<longleftrightarrow> length (reserved_start r) = PMM_MAX_RESERVED \<and>
     length (reserved_end r) = PMM_MAX_RESERVED \<and> reserved_count r \<le> PMM_MAX_RESERVED \<and>
     (\<forall>(s, e)\<in>set (ranges r). PAGE_SIZE dvd s \<and> PAGE_SIZE dvd e)"

definition reserved :: "reserve \<Rightarrow> nat \<Rightarrow> bool" where
  "reserved r a \<longleftrightarrow> (\<exists>(s, e)\<in>set (ranges r). s \<le> a \<and> a < e)"

lemma reserve_ok_empty: "reserve_ok reserve_empty"
  by (simp add: reserve_ok_def reserve_empty_def ranges_def)

text \<open>A free slot gets the smallest page-aligned range around the bytes.\<close>

lemma ranges_reserve:
  assumes ok: "reserve_ok r" and room: "reserved_count r < PMM_MAX_RESERVED"
    and b: "start + sz + PAGE_SIZE - 1 < 2 ^ 64"
  shows "ranges (pmm_reserve start sz r) =
    ranges r @ [(start - start mod PAGE_SIZE, PAGE_ALIGN_UP (start + sz))]"
proof -
  have len: "length (reserved_start r) = PMM_MAX_RESERVED" "length (reserved_end r) = PMM_MAX_RESERVED"
    using ok by (auto simp: reserve_ok_def)
  have "start < 2 ^ 64" using b by (simp add: PAGE_SIZE_def)
  then have s: "start AND not64 (PAGE_SIZE - 1) = start - start mod PAGE_SIZE"
    using PAGE_ALIGN_DOWN_eq[of start] by (simp add: PAGE_ALIGN_DOWN_def)
  have e: "w64 (start + sz + PAGE_SIZE - 1) AND not64 (PAGE_SIZE - 1) = PAGE_ALIGN_UP (start + sz)"
    by (simp add: PAGE_ALIGN_UP_def)
  show ?thesis
    using room len unfolding pmm_reserve_def s e
    by (simp add: ranges_def take_Suc_conv_app_nth zip_update)
qed

lemma reserve_ok_reserve:
  assumes ok: "reserve_ok r" and b: "start + sz + PAGE_SIZE - 1 < 2 ^ 64"
  shows "reserve_ok (pmm_reserve start sz r)"
proof (cases "reserved_count r < PMM_MAX_RESERVED")
  case True
  then show ?thesis
    using ok ranges_reserve[OF ok True b] PAGE_ALIGN_UP_dvd[OF b]
    unfolding reserve_ok_def by (auto simp: pmm_reserve_def dvd_minus_mod)
next
  case False
  then show ?thesis using ok by (simp add: pmm_reserve_def reserve_ok_def)
qed

end
