(* ===== verification/Allocator.thy ===== *)
theory Allocator
  imports Prelude
begin

text \<open>
  What a client relies on when it calls an allocator: the contract that
  \<open>kmalloc\<close>/\<open>kfree\<close>, \<open>vmalloc\<close>/\<open>vmfree\<close> and \<open>malloc\<close>/\<open>free\<close> share. The relation
  \<open>rep s L\<close> says that the allocator state \<open>s\<close> is well formed and has handed out
  exactly the regions \<open>L\<close> (address and usable size); the laws hold for requests
  below \<open>max_req\<close> bytes. The client lemmas are about
  the set of addresses that the client holds.
\<close>

definition holds :: "('s \<Rightarrow> (ptr \<times> nat) set \<Rightarrow> bool) \<Rightarrow> 's \<Rightarrow> ptr set \<Rightarrow> bool" where
  "holds rep s A \<longleftrightarrow> (\<exists>L. rep s L \<and> A \<subseteq> fst ` L)"

locale allocator =
  fixes alloc :: "nat \<Rightarrow> 's \<Rightarrow> (ptr \<times> 's) option"
    and dealloc :: "ptr \<Rightarrow> 's \<Rightarrow> 's option"
    and rep :: "'s \<Rightarrow> (ptr \<times> nat) set \<Rightarrow> bool"
    and max_req :: nat
  assumes max_req: "2 ^ 32 \<le> max_req"
    and alloc_rep: "rep s L \<Longrightarrow> n < max_req \<Longrightarrow>
      \<exists>p s'. alloc n s = Some (p, s') \<and>
        (p = 0 \<and> rep s' L \<or>
         p \<noteq> 0 \<and> p \<notin> fst ` L \<and> (\<exists>k\<ge>n. rep s' (insert (p, k) L)))"
    and dealloc_rep: "rep s L \<Longrightarrow> (p, k) \<in> L \<Longrightarrow>
      \<exists>s'. dealloc p s = Some s' \<and> rep s' (L - {(p, k)})"
    and rep_valid: "rep s L \<Longrightarrow> (p, k) \<in> L \<Longrightarrow> 0 < p"
    and rep_disjoint: "rep s L \<Longrightarrow> (p, k) \<in> L \<Longrightarrow> (q, l) \<in> L \<Longrightarrow> (p, k) \<noteq> (q, l) \<Longrightarrow>
      p + k < q \<or> q + l < p"
begin

lemma holds_nonnull: "holds rep s A \<Longrightarrow> 0 \<notin> A"
  using rep_valid by (force simp: holds_def)

lemma holds_subset: "holds rep s A \<Longrightarrow> B \<subseteq> A \<Longrightarrow> holds rep s B"
  by (auto simp: holds_def)

lemma rep_functional: "rep s L \<Longrightarrow> (p, k) \<in> L \<Longrightarrow> (p, l) \<in> L \<Longrightarrow> k = l"
  using rep_disjoint[of s L p k p l] by (cases "k = l") auto

lemma alloc_holds:
  assumes "holds rep s A" "n < max_req"
  obtains p s' where "alloc n s = Some (p, s')" "holds rep s' A"
    "p \<noteq> 0 \<Longrightarrow> p \<notin> A \<and> holds rep s' (insert p A)"
proof -
  obtain L where L: "rep s L" "A \<subseteq> fst ` L" using assms(1) by (auto simp: holds_def)
  from alloc_rep[OF L(1) assms(2)] obtain p s' where a: "alloc n s = Some (p, s')"
    and c: "p = 0 \<and> rep s' L \<or> p \<noteq> 0 \<and> p \<notin> fst ` L \<and> (\<exists>k\<ge>n. rep s' (insert (p, k) L))"
    by blast
  have "holds rep s' A" using c L(2) by (fastforce simp: holds_def)
  moreover have "p \<notin> A \<and> holds rep s' (insert p A)" if "p \<noteq> 0"
  proof -
    from c that obtain k where "rep s' (insert (p, k) L)" "p \<notin> fst ` L" by blast
    moreover have "insert p A \<subseteq> fst ` insert (p, k) L" using L(2) by auto
    ultimately show ?thesis using L(2) unfolding holds_def by blast
  qed
  ultimately show thesis using a that by blast
qed

lemma dealloc_holds:
  assumes "holds rep s A" "p \<in> A"
  obtains s' where "dealloc p s = Some s'" "holds rep s' (A - {p})"
proof -
  obtain L where L: "rep s L" "A \<subseteq> fst ` L" using assms(1) by (auto simp: holds_def)
  then obtain k where k: "(p, k) \<in> L" using assms(2) by auto
  from dealloc_rep[OF L(1) k] obtain s' where s': "dealloc p s = Some s'" "rep s' (L - {(p, k)})" by blast
  have "q \<in> fst ` (L - {(p, k)})" if q: "q \<in> A - {p}" for q
  proof -
    obtain l where "(q, l) \<in> L" using q L(2) by auto
    with q have "(q, l) \<in> L - {(p, k)}" by auto
    then show ?thesis by force
  qed
  then have "holds rep s' (A - {p})" using s'(2) unfolding holds_def by blast
  with s'(1) that show thesis by blast
qed

end

end
