(* ===== verification/Kheap.thy ===== *)
theory Kheap
  imports Heap_Ops Reserve Allocator
begin

text \<open>
  The kernel's logical heap, \<open>src/kernel/memory/kheap.c\<close>: a fixed area of the
  kernel image that \<open>kmalloc\<close> and \<open>kfree\<close> manage with the routines of
  \<open>heap.c\<close>. The record holds the static variables of the file and the block
  headers.
\<close>

section \<open>State and operations\<close>

record kheap =
  kmem :: bmem
  kheap_start :: ptr
  kheap_end :: ptr
  kfirst_free :: ptr
  kheap_max_size :: nat
  kheap_size :: nat

text \<open>
  \<open>kheap_area\<close>, \<open>kheap_area_end\<close> and \<open>kheap_guard_end\<close> are the symbols of the
  linker script.
\<close>

definition init_kheap :: "ptr \<Rightarrow> ptr \<Rightarrow> ptr \<Rightarrow> kheap \<times> reserve \<Rightarrow> kheap \<times> reserve" where
  "init_kheap kheap_area kheap_area_end kheap_guard_end = (\<lambda>(k, r).
     let start = kheap_area; end = kheap_area_end;
         r' = pmm_reserve (V2P start) (w64_sub kheap_guard_end start) r;
         m' = (kmem k)(start := (kmem k start)
                \<lparr>blk_size := u60 (w64_sub (w64_sub end start) sizeof_block_info),
                 next_free := end, previous_chunk := 0, is_mmapped := False,
                 present := False, non_arena := False\<rparr>)
     in (k\<lparr>kmem := m', kheap_start := start, kheap_end := end,
           kfirst_free := start, kheap_max_size := w64_sub end start\<rparr>, r'))"

text \<open>The \<open>while(1)\<close> loop of \<open>kmalloc\<close>, from a block of the free list on.\<close>

partial_function (option) kmalloc_loop :: "nat \<Rightarrow> ptr \<Rightarrow> ptr \<Rightarrow> kheap \<Rightarrow> (ptr \<times> kheap) option" where
  "kmalloc_loop sz current_block prev_block k =
     (if current_block < kheap_end k then
        case heap_alloc sz current_block prev_block (kheap_end k) True (kmem k) (kfirst_free k) of
          (m', ff', ret) \<Rightarrow>
            let k' = k\<lparr>kmem := m', kfirst_free := ff'\<rparr>
            in if ret \<noteq> 0
               then Some (ret, k'\<lparr>kheap_size := w64 (kheap_size k
                                   + blk_size (m' (w64_sub ret sizeof_block_info)))\<rparr>)
               else kmalloc_loop sz (next_free (m' current_block)) current_block k'
      else Some (0, k))"

definition kmalloc :: "nat \<Rightarrow> kheap \<Rightarrow> (ptr \<times> kheap) option" where
  "kmalloc sz k =
     kmalloc_loop (w64 (sz + sizeof_block_info * 3)) (kfirst_free k) (kfirst_free k) k"

definition kfree :: "ptr \<Rightarrow> kheap \<Rightarrow> kheap option" where
  "kfree p k =
     (let block = w64_sub p sizeof_block_info;
          sz = blk_size (kmem k block);
          next_block = w64 (p + sz)
      in if \<not> is_mmapped (kmem k block) then Some k
         else do {
           (m', ff') \<leftarrow> heap_free block next_block (kheap_end k)
                         (w64_sub (kheap_end k) (kheap_start k)) (kmem k) (kfirst_free k);
           Some (k\<lparr>kmem := m', kfirst_free := ff', kheap_size := w64_sub (kheap_size k) sz\<rparr>)
         })"

section \<open>The heap invariant\<close>

definition kheap_inv :: "kheap \<Rightarrow> ptr list \<Rightarrow> bool" where
  "kheap_inv k bs \<longleftrightarrow>
     heap_inv (kmem k) (kheap_start k) (kheap_end k) (kfirst_free k) bs \<and>
     kheap_size k = (\<Sum>(b, s) \<in> allocs (kmem k) bs. s)"

definition kheap_rep :: "kheap \<Rightarrow> (ptr \<times> nat) set \<Rightarrow> bool" where
  "kheap_rep k L \<longleftrightarrow> (\<exists>bs. kheap_inv k bs \<and> L = user_view (allocs (kmem k) bs))"

lemma kheap_invD:
  assumes "kheap_inv k bs"
  shows "heap_inv (kmem k) (kheap_start k) (kheap_end k) (kfirst_free k) bs"
    "kheap_size k = (\<Sum>(b, s) \<in> allocs (kmem k) bs. s)"
  using assms by (auto simp: kheap_inv_def)

section \<open>\<open>kmalloc\<close>\<close>

text \<open>
  What a successful request does to the heap: a block of at least \<open>sz\<close> bytes at
  the end of the free block \<open>c\<close>, and nothing else.
\<close>

definition kmalloc_result :: "nat \<Rightarrow> ptr \<Rightarrow> kheap \<Rightarrow> ptr list \<Rightarrow> (ptr \<times> kheap) option \<Rightarrow> bool" where
  "kmalloc_result sz c k bs r \<longleftrightarrow>
     (\<exists>k' bs' n j. r = Some (n + sizeof_block_info, k') \<and> kheap_inv k' bs' \<and>
        kheap_start k' = kheap_start k \<and> kheap_end k' = kheap_end k \<and>
        sz \<le> j \<and> j \<le> sz + sizeof_block_info \<and> c \<le> n \<and>
        n + sizeof_block_info + j = blk_end (kmem k) c \<and> n \<notin> fst ` allocs (kmem k) bs \<and>
        allocs (kmem k') bs' = insert (n, j) (allocs (kmem k) bs))"

lemma kmalloc_loop_hit:
  assumes inv: "kheap_inv k bs" and fl: "free_blocks (kmem k) bs = fs1 @ c # fs2"
    and prev: "fs1 \<noteq> [] \<Longrightarrow> prev = last fs1" and fit: "sz \<le> blk_size (kmem k c)"
  shows "kmalloc_result sz c k bs (kmalloc_loop sz c prev k)"
proof -
  note hi = kheap_invD[OF inv]
  obtain m' ff' bs' n j where
    a: "heap_alloc sz c prev (kheap_end k) True (kmem k) (kfirst_free k) = (m', ff', n + sizeof_block_info)"
    and h: "heap_inv m' (kheap_start k) (kheap_end k) ff' bs'"
    and j: "sz \<le> j" "j \<le> sz + sizeof_block_info" "c \<le> n" "n + sizeof_block_info + j = blk_end (kmem k) c"
    and n: "n \<notin> fst ` allocs (kmem k) bs" "allocs m' bs' = insert (n, j) (allocs (kmem k) bs)"
    using heap_alloc_at[OF hi(1) fl fit, of prev True] prev by blast
  have nj: "(n, j) \<in> allocs m' bs'" "(n, j) \<notin> allocs (kmem k) bs" using n by force+
  have bnd: "kheap_end k < 2 ^ 64" "n + sizeof_block_info + j \<le> kheap_end k"
    using h allocs_bounds[OF h nj(1)] by (auto simp: heap_inv_def)
  have size: "blk_size (m' n) = j" using nj(1) by (auto simp: allocs_def)
  have sum: "(\<Sum>(b, s)\<in>allocs m' bs'. s) = kheap_size k + j"
    using n(2) nj(2) hi(2) by simp
  then have w: "w64 (kheap_size k + j) = kheap_size k + j"
    using allocs_sum_le[OF h] bnd(1) by simp
  have c: "c < kheap_end k"
    using heap_inv_bounds(3)[OF hi(1), of c] fl by (metis in_set_conv_decomp set_free_blocks mem_Collect_eq)
  have r: "w64_sub (n + sizeof_block_info) sizeof_block_info = n"
    using bnd by simp
  let ?k' = "k\<lparr>kmem := m', kfirst_free := ff', kheap_size := kheap_size k + j\<rparr>"
  have "kmalloc_loop sz c prev k = Some (n + sizeof_block_info, ?k')"
    using c a by (subst kmalloc_loop.simps) (simp add: r size w sizeof_block_info_pos del: w64_id w64_sub_id)
  moreover have "kheap_inv ?k' bs'" using h sum by (simp add: kheap_inv_def)
  ultimately show ?thesis using j n by (fastforce simp: kmalloc_result_def)
qed

text \<open>First fit: the loop takes the first block of the free list that is large
  enough, and returns \<open>NULL\<close> exactly when there is none.\<close>

lemma kmalloc_loop_first_fit:
  assumes inv: "kheap_inv k bs" and fl: "free_blocks (kmem k) bs = fs1 @ fs2"
    and prev: "fs1 \<noteq> [] \<Longrightarrow> prev = last fs1" and cur: "cur = hd (fs2 @ [kheap_end k])"
  shows "case find (\<lambda>c. sz \<le> blk_size (kmem k c)) fs2 of
      None \<Rightarrow> kmalloc_loop sz cur prev k = Some (0, k)
    | Some c \<Rightarrow> kmalloc_result sz c k bs (kmalloc_loop sz cur prev k)"
  using fl prev cur
proof (induction fs2 arbitrary: fs1 prev cur)
  case Nil
  then show ?case by (subst kmalloc_loop.simps) simp
next
  case (Cons c fs2)
  show ?case
  proof (cases "sz \<le> blk_size (kmem k c)")
    case True
    then show ?thesis
      using kmalloc_loop_hit[OF inv Cons.prems(1) _ True, of prev] Cons.prems by simp
  next
    case False
    note hi = kheap_invD(1)[OF inv]
    have "c \<in> set bs" using Cons.prems(1) by (metis in_set_conv_decomp set_free_blocks mem_Collect_eq)
    then have c: "c < kheap_end k" using heap_inv_bounds(3)[OF hi] by blast
    have "chain (kmem k) (kfirst_free k) (free_blocks (kmem k) bs) (kheap_end k)"
      using hi by (simp add: heap_inv_def)
    then have nf: "next_free (kmem k c) = hd (fs2 @ [kheap_end k])"
      using Cons.prems(1) chain_hd[of "kmem k" "next_free (kmem k c)" fs2 "kheap_end k"]
      by (simp add: chain_append)
    have "kmalloc_loop sz c prev k = kmalloc_loop sz (next_free (kmem k c)) c k"
      using c False by (subst kmalloc_loop.simps) (simp add: heap_alloc_small)
    then show ?thesis
      using Cons.IH[of "fs1 @ [c]" c "next_free (kmem k c)"] Cons.prems nf False
      by (simp split: option.splits)
  qed
qed

lemma kmalloc_first_fit:
  assumes inv: "kheap_inv k bs" and w: "w64 (sz + sizeof_block_info * 3) = want"
  shows "case find (\<lambda>c. want \<le> blk_size (kmem k c)) (free_blocks (kmem k) bs) of
      None \<Rightarrow> kmalloc sz k = Some (0, k)
    | Some c \<Rightarrow> kmalloc_result want c k bs (kmalloc sz k)"
proof -
  have "kfirst_free k = hd (free_blocks (kmem k) bs @ [kheap_end k])"
    using kheap_invD(1)[OF inv] chain_hd by (auto simp: heap_inv_def)
  from kmalloc_loop_first_fit[OF inv, of "[]" _ "kfirst_free k", simplified, OF refl this, of want]
  show ?thesis unfolding kmalloc_def w .
qed

section \<open>\<open>kfree\<close>\<close>

lemma kfree_ok:
  assumes inv: "kheap_inv k bs" and b: "(b, s) \<in> allocs (kmem k) bs"
  shows "\<exists>k' bs'. kfree (b + sizeof_block_info) k = Some k' \<and> kheap_inv k' bs' \<and>
    kheap_start k' = kheap_start k \<and> kheap_end k' = kheap_end k \<and>
    allocs (kmem k') bs' = allocs (kmem k) bs - {(b, s)}"
proof -
  note hi = kheap_invD[OF inv]
  have bs: "b \<in> set bs" "is_mmapped (kmem k b)" "s = blk_size (kmem k b)"
    using b by (auto simp: allocs_def)
  note bnd = heap_inv_bounds[OF hi(1) bs(1)]
  have lim: "kheap_end k < 2 ^ 64" using hi(1) by (simp add: heap_inv_def)
  have w: "w64_sub (b + sizeof_block_info) sizeof_block_info = b"
    "w64 (b + sizeof_block_info + s) = blk_end (kmem k) b"
    "w64_sub (kheap_end k) (kheap_start k) = kheap_end k - kheap_start k"
    using bnd bs(3) lim by (simp_all add: blk_end_def)
  obtain m' ff' bs' where
    f: "heap_free b (blk_end (kmem k) b) (kheap_end k) (kheap_end k - kheap_start k) (kmem k) (kfirst_free k)
        = Some (m', ff')"
    and h: "heap_inv m' (kheap_start k) (kheap_end k) ff' bs'" "allocs m' bs' = allocs (kmem k) bs - {(b, s)}"
    using heap_free_correct[OF hi(1) bs(1,2) order_refl] bs(3) by auto
  have sum: "kheap_size k = (\<Sum>(b, s)\<in>allocs m' bs'. s) + s"
    using hi(2) h(2) b sum.remove[OF allocs_finite b, of "\<lambda>(b, s). s"] by simp
  have "kheap_size k < 2 ^ 64"
    using allocs_sum_le[OF hi(1)] hi(2) lim by simp
  then have u: "w64_sub (kheap_size k) s = (\<Sum>(b, s)\<in>allocs m' bs'. s)"
    using sum by simp
  let ?k' = "k\<lparr>kmem := m', kfirst_free := ff', kheap_size := w64_sub (kheap_size k) s\<rparr>"
  have "kfree (b + sizeof_block_info) k = Some ?k'"
    unfolding kfree_def Let_def w bs(3)[symmetric] using bs(2) f by simp
  moreover have "kheap_inv ?k' bs'" using h u by (simp add: kheap_inv_def)
  ultimately show ?thesis using h(2) by (intro exI[of _ ?k'] exI[of _ bs']) simp
qed

text \<open>A pointer whose header is not marked as allocated is refused.\<close>

lemma kfree_unmapped:
  "\<not> is_mmapped (kmem k (w64_sub p sizeof_block_info)) \<Longrightarrow> kfree p k = Some k"
  by (simp add: kfree_def)

section \<open>\<open>init_kheap\<close>\<close>

lemma init_kheap_inv:
  assumes "0 < area" "area + sizeof_block_info \<le> area_end" "area_end < 2 ^ 64"
    "area_end < area + 2 ^ 60" "kheap_size k = 0"
  shows "kheap_inv (fst (init_kheap area area_end guard_end (k, r))) [area]"
proof -
  have w: "w64_sub area_end area = area_end - area"
    "w64_sub (area_end - area) sizeof_block_info = area_end - area - sizeof_block_info"
    "u60 (area_end - area - sizeof_block_info) = area_end - area - sizeof_block_info"
    using assms by simp_all
  show ?thesis
    using assms unfolding kheap_inv_def heap_inv_def init_kheap_def Let_def w
    by (simp add: blk_end_def free_blocks_def allocs_def)
qed

section \<open>The allocator contract\<close>

lemma kheap_alloc_rep:
  assumes rep: "kheap_rep k L" and n: "n < 2 ^ 63"
  shows "\<exists>p k'. kmalloc n k = Some (p, k') \<and>
    (p = 0 \<and> kheap_rep k' L \<or> p \<noteq> 0 \<and> p \<notin> fst ` L \<and> (\<exists>j\<ge>n. kheap_rep k' (insert (p, j) L)))"
proof -
  obtain bs where inv: "kheap_inv k bs" and L: "L = user_view (allocs (kmem k) bs)"
    using rep by (auto simp: kheap_rep_def)
  define want where "want = n + sizeof_block_info * 3"
  have w: "w64 (n + sizeof_block_info * 3) = want"
    using n by (simp add: want_def sizeof_block_info_def)
  show ?thesis
  proof (cases "find (\<lambda>c. want \<le> blk_size (kmem k c)) (free_blocks (kmem k) bs)")
    case None
    then show ?thesis using kmalloc_first_fit[OF inv w] rep by simp
  next
    case (Some c)
    then have "kmalloc_result want c k bs (kmalloc n k)"
      using kmalloc_first_fit[OF inv w] by simp
    then obtain k' bs' b j where r: "kmalloc n k = Some (b + sizeof_block_info, k')" "kheap_inv k' bs'"
      "want \<le> j" "b \<notin> fst ` allocs (kmem k) bs" "allocs (kmem k') bs' = insert (b, j) (allocs (kmem k) bs)"
      unfolding kmalloc_result_def by blast
    have "kheap_rep k' (insert (b + sizeof_block_info, j) L)"
      using r(2,5) L unfolding kheap_rep_def by (intro exI[of _ bs']) simp
    moreover have "n \<le> j" using r(3) by (simp add: want_def)
    ultimately show ?thesis using r(1,4) L sizeof_block_info_pos by auto
  qed
qed

lemma kheap_dealloc_rep:
  assumes rep: "kheap_rep k L" and p: "(p, s) \<in> L"
  shows "\<exists>k'. kfree p k = Some k' \<and> kheap_rep k' (L - {(p, s)})"
proof -
  obtain bs where inv: "kheap_inv k bs" and L: "L = user_view (allocs (kmem k) bs)"
    using rep by (auto simp: kheap_rep_def)
  then obtain b where b: "p = b + sizeof_block_info" "(b, s) \<in> allocs (kmem k) bs" using p by auto
  obtain k' bs' where "kfree p k = Some k'" "kheap_inv k' bs'"
    "allocs (kmem k') bs' = allocs (kmem k) bs - {(b, s)}"
    using kfree_ok[OF inv b(2)] b(1) by blast
  moreover from this have "kheap_rep k' (L - {(p, s)})"
    using L b(1) unfolding kheap_rep_def by (intro exI[of _ bs']) simp
  ultimately show ?thesis by blast
qed

lemma kheap_rep_facts:
  assumes rep: "kheap_rep s L" and p: "(p, k) \<in> L"
  shows "0 < p" "(q, l) \<in> L \<Longrightarrow> (p, k) \<noteq> (q, l) \<Longrightarrow> p + k < q \<or> q + l < p"
proof -
  obtain bs where inv: "kheap_inv s bs" and L: "L = user_view (allocs (kmem s) bs)"
    using rep by (auto simp: kheap_rep_def)
  show "0 < p" using p L sizeof_block_info_pos by auto
  show "p + k < q \<or> q + l < p" if "(q, l) \<in> L" "(p, k) \<noteq> (q, l)"
    by (rule user_view_separate[OF kheap_invD(1)[OF inv] L p that])
qed

interpretation kh: allocator kmalloc kfree kheap_rep "2 ^ 63"
  by unfold_locales (simp, (fact kheap_alloc_rep kheap_dealloc_rep kheap_rep_facts)+)

section \<open>Runs of the allocator\<close>

text \<open>
  The states that calls of \<open>kmalloc\<close> and \<open>kfree\<close> reach from \<open>k0\<close>, with the
  regions the callers hold: a call of \<open>kfree\<close> passes a pointer that is held.
\<close>

inductive kheap_run :: "kheap \<Rightarrow> kheap \<Rightarrow> (ptr \<times> nat) set \<Rightarrow> bool" for k0 :: kheap where
  run_start: "kheap_run k0 k0 {}"
| run_null: "kheap_run k0 k L \<Longrightarrow> n < 2 ^ 63 \<Longrightarrow> kmalloc n k = Some (0, k') \<Longrightarrow> kheap_run k0 k' L"
| run_alloc: "kheap_run k0 k L \<Longrightarrow> n < 2 ^ 63 \<Longrightarrow> kmalloc n k = Some (p, k') \<Longrightarrow> p \<noteq> 0 \<Longrightarrow>
    kheap_run k0 k' (insert (p, blk_size (kmem k' (p - sizeof_block_info))) L)"
| run_free: "kheap_run k0 k L \<Longrightarrow> (p, s) \<in> L \<Longrightarrow> kfree p k = Some k' \<Longrightarrow>
    kheap_run k0 k' (L - {(p, s)})"

lemma kheap_rep_block_size:
  assumes "kheap_rep k L" "(p, s) \<in> L"
  shows "blk_size (kmem k (p - sizeof_block_info)) = s"
  using assms by (auto simp: kheap_rep_def allocs_def)

lemma kmalloc_bounds_const:
  assumes "kheap_rep k L" "kmalloc n k = Some (p, k')" "n < 2 ^ 63"
  shows "kheap_start k' = kheap_start k \<and> kheap_end k' = kheap_end k"
proof -
  obtain bs where inv: "kheap_inv k bs" using assms(1) by (auto simp: kheap_rep_def)
  show ?thesis
    using kmalloc_first_fit[OF inv refl, of n] assms(2)
    by (auto simp: kmalloc_result_def split: option.splits)
qed

lemma kfree_bounds_const:
  "kfree p k = Some k' \<Longrightarrow> kheap_start k' = kheap_start k \<and> kheap_end k' = kheap_end k"
  by (auto simp: kfree_def Let_def split: if_splits bind_splits)

lemma kheap_run_rep:
  assumes "kheap_run k0 k L" and k0: "kheap_rep k0 {}"
  shows "kheap_rep k L \<and> kheap_start k = kheap_start k0 \<and> kheap_end k = kheap_end k0"
  using assms(1)
proof induction
  case run_start
  show ?case using k0 by simp
next
  case (run_null k L n k')
  then show ?case using kheap_alloc_rep[of k L n] kmalloc_bounds_const[of k L n 0 k'] by auto
next
  case (run_alloc k L n p k')
  then obtain j where j: "kheap_rep k' (insert (p, j) L)" using kheap_alloc_rep[of k L n] by auto
  moreover have "blk_size (kmem k' (p - sizeof_block_info)) = j"
    by (rule kheap_rep_block_size[OF j]) simp
  ultimately show ?case using run_alloc kmalloc_bounds_const[of k L n p k'] by simp
next
  case (run_free k L p s k')
  then show ?case using kheap_dealloc_rep[of k L p s] kfree_bounds_const[of p k k'] by auto
qed

lemma kmalloc_all_free:
  assumes rep: "kheap_rep k {}"
    and fit: "n + 4 * sizeof_block_info \<le> kheap_end k - kheap_start k" and n: "n < 2 ^ 63"
  shows "\<exists>p k'. kmalloc n k = Some (p, k') \<and> p \<noteq> 0"
proof -
  obtain bs where inv: "kheap_inv k bs" and e: "user_view (allocs (kmem k) bs) = {}"
    using rep by (auto simp: kheap_rep_def)
  have none: "allocs (kmem k) bs = {}" using e by (simp add: user_view_def)
  have lt: "kheap_start k < kheap_end k" using fit sizeof_block_info_pos by linarith
  note one = heap_all_free[OF kheap_invD(1)[OF inv] none lt]
  define want where "want = n + sizeof_block_info * 3"
  have w: "w64 (n + sizeof_block_info * 3) = want"
    using n by (simp add: want_def sizeof_block_info_def)
  have "want \<le> blk_size (kmem k (kheap_start k))"
    using one(3) fit unfolding blk_end_def want_def by linarith
  then have "kmalloc_result want (kheap_start k) k bs (kmalloc n k)"
    using kmalloc_first_fit[OF inv w] one(1,2) by (simp add: free_blocks_def)
  then show ?thesis using sizeof_block_info_pos by (auto simp: kmalloc_result_def)
qed

text \<open>Two concrete heaps: one just initialised, one with its only block in use.\<close>

definition blank_block :: block_info where
  "blank_block = \<lparr>previous_chunk = 0, blk_size = 0, non_arena = False, is_mmapped = False,
     present = False, full = False, next_free = 0\<rparr>"

definition kheap_zero :: kheap where
  "kheap_zero = \<lparr>kmem = (\<lambda>_. blank_block), kheap_start = 0, kheap_end = 0, kfirst_free = 0,
     kheap_max_size = 0, kheap_size = 0\<rparr>"

definition kheap_fresh :: kheap where
  "kheap_fresh = fst (init_kheap 4096 8192 12288 (kheap_zero, reserve_empty))"

definition kheap_used :: kheap where
  "kheap_used = kheap_zero\<lparr>
     kmem := (\<lambda>_. blank_block)(4096 := blank_block\<lparr>blk_size := 4072, is_mmapped := True\<rparr>),
     kheap_start := 4096, kheap_end := 8192, kfirst_free := 8192, kheap_size := 4072\<rparr>"

lemma kheap_fresh_inv: "kheap_inv kheap_fresh [4096]"
  unfolding kheap_fresh_def
  by (rule init_kheap_inv) (simp_all add: sizeof_block_info_def kheap_zero_def)

lemma kheap_fresh_eq:
  "kmem kheap_fresh 4096 = blank_block\<lparr>blk_size := 4072, next_free := 8192\<rparr>"
  "kheap_start kheap_fresh = 4096" "kheap_end kheap_fresh = 8192" "kfirst_free kheap_fresh = 4096"
  by (simp_all add: kheap_fresh_def init_kheap_def kheap_zero_def Let_def sizeof_block_info_def
      blank_block_def)

lemma kheap_used_inv: "kheap_inv kheap_used [4096]" "allocs (kmem kheap_used) [4096] = {(4096, 4072)}"
  by (simp_all add: kheap_used_def kheap_inv_def heap_inv_def allocs_def free_blocks_def blk_end_def
      sizeof_block_info_def blank_block_def)

section \<open>Properties\<close>

text \<open>
  C12. \<open>kmalloc\<close> is a first-fit allocator that never corrupts its heap: on a
  well-formed heap it always returns; with \<open>want\<close> the 64 bit sum of the request
  and the 72 spare bytes, it returns \<open>NULL\<close> and changes nothing when no free
  block has \<open>want\<close> bytes, and otherwise cuts a block of \<open>want\<close> to \<open>want + 24\<close>
  bytes off the end of the first free block (in address order) that is large
  enough; the heap stays well formed and no other allocated block changes.
\<close>

theorem kmalloc_first_fit_spec:
  assumes "kheap_inv k bs" and "want = w64 (sz + 3 * sizeof_block_info)"
  shows "case find (\<lambda>c. want \<le> blk_size (kmem k c)) (free_blocks (kmem k) bs) of
      None \<Rightarrow> kmalloc sz k = Some (0, k)
    | Some c \<Rightarrow>
       (\<exists>k' bs' n j. kmalloc sz k = Some (n + sizeof_block_info, k') \<and> kheap_inv k' bs' \<and>
          want \<le> j \<and> j \<le> want + sizeof_block_info \<and>
          c \<le> n \<and> n + sizeof_block_info + j = blk_end (kmem k) c \<and>
          allocs (kmem k') bs' = insert (n, j) (allocs (kmem k) bs))"
  using kmalloc_first_fit[OF assms(1), of sz want] assms(2)
  by (fastforce simp: kmalloc_result_def mult.commute split: option.splits)

theorem kmalloc_first_fit_spec_witness:
  "\<exists>k' bs' n j. kmalloc 16 kheap_fresh = Some (n + sizeof_block_info, k') \<and> kheap_inv k' bs' \<and>
     88 \<le> j \<and> n + sizeof_block_info + j = 8192 \<and> allocs (kmem k') bs' = {(n, j)}"
proof -
  have e: "free_blocks (kmem kheap_fresh) [4096] = [4096]" "allocs (kmem kheap_fresh) [4096] = {}"
    "blk_end (kmem kheap_fresh) 4096 = 8192"
    by (simp_all add: kheap_fresh_eq free_blocks_def allocs_def blk_end_def blank_block_def
        sizeof_block_info_def)
  have "88 = w64 (16 + 3 * sizeof_block_info)" by (simp add: sizeof_block_info_def)
  from kmalloc_first_fit_spec[OF kheap_fresh_inv this] show ?thesis
    unfolding e by (simp add: kheap_fresh_eq e(3)) blast
qed

text \<open>
  C3. \<open>kfree\<close> of an allocated block always returns, removes exactly that block
  from the allocated ones and keeps the heap well formed: the freed bytes are
  merged with the free blocks on both sides, so that free blocks never touch,
  and the free list stays in address order.
\<close>

theorem kfree_spec:
  assumes "kheap_inv k bs" and "(b, s) \<in> allocs (kmem k) bs"
  shows "\<exists>k' bs'. kfree (b + sizeof_block_info) k = Some k' \<and> kheap_inv k' bs' \<and>
    allocs (kmem k') bs' = allocs (kmem k) bs - {(b, s)}"
  using kfree_ok[OF assms] by blast

theorem kfree_spec_witness:
  "\<exists>k' bs'. kfree 4120 kheap_used = Some k' \<and> kheap_inv k' bs' \<and> allocs (kmem k') bs' = {}"
  using kfree_spec[OF kheap_used_inv(1), of 4096 4072] kheap_used_inv(2)
  by (simp add: sizeof_block_info_def)

text \<open>
  C13. After \<open>init_kheap\<close>, whatever sequence of \<open>kmalloc\<close> and \<open>kfree\<close> the kernel
  runs, the regions it holds are non-null and never overlap, and once all of
  them are freed again the whole area is one block: a request for everything
  but the headers and the spare bytes succeeds.
\<close>

theorem kheap_run_safe:
  assumes "0 < area" "area + sizeof_block_info \<le> area_end" "area_end < 2 ^ 64"
    "area_end < area + 2 ^ 60" "kheap_size k = 0"
    and run: "kheap_run (fst (init_kheap area area_end guard_end (k, r))) k' L"
  shows "(\<forall>(p, s)\<in>L. 0 < p \<and> (\<forall>(q, t)\<in>L. (p, s) \<noteq> (q, t) \<longrightarrow> p + s < q \<or> q + t < p)) \<and>
    (L = {} \<and> n < 2 ^ 63 \<and> n + 4 * sizeof_block_info \<le> area_end - area \<longrightarrow>
       (\<exists>p k''. kmalloc n k' = Some (p, k'') \<and> p \<noteq> 0))"
proof -
  let ?k0 = "fst (init_kheap area area_end guard_end (k, r))"
  have inv: "kheap_inv ?k0 [area]" by (rule init_kheap_inv) (fact assms)+
  have "allocs (kmem ?k0) [area] = {}" by (simp add: init_kheap_def allocs_def Let_def)
  with inv have "kheap_rep ?k0 {}"
    unfolding kheap_rep_def by (intro exI[of _ "[area]"]) (simp add: user_view_def)
  from kheap_run_rep[OF run this] have rep: "kheap_rep k' L"
    and b: "kheap_start k' = area" "kheap_end k' = area_end"
    by (simp_all add: init_kheap_def Let_def)
  have "\<forall>(p, s)\<in>L. 0 < p \<and> (\<forall>(q, t)\<in>L. (p, s) \<noteq> (q, t) \<longrightarrow> p + s < q \<or> q + t < p)"
    using kheap_rep_facts[OF rep] by blast
  then show ?thesis using kmalloc_all_free[of k' n] rep b by blast
qed

theorem kheap_run_safe_witness:
  "kheap_run kheap_fresh kheap_fresh {} \<and> (\<exists>p k''. kmalloc 4000 kheap_fresh = Some (p, k'') \<and> p \<noteq> 0)"
  using kheap_run_safe[of 4096 8192 kheap_zero 12288 reserve_empty kheap_fresh "{}" 4000]
    run_start[of kheap_fresh]
  by (simp add: kheap_fresh_def[symmetric] sizeof_block_info_def) (simp add: kheap_zero_def)

text \<open>
  C25. \<open>kmalloc\<close> does not check its request: for the 72 largest sizes the sum
  wraps, and a heap with any block large enough for the wrapped sum answers
  with a block of less than 96 bytes, not with \<open>NULL\<close>. (\<open>vmalloc\<close> and \<open>malloc\<close>
  refuse such sizes.)
\<close>

theorem kmalloc_overflow:
  assumes inv: "kheap_inv k bs" and sz: "2 ^ 64 - 3 * sizeof_block_info \<le> sz" "sz < 2 ^ 64"
    and c: "c \<in> set (free_blocks (kmem k) bs)" "3 * sizeof_block_info \<le> blk_size (kmem k c)"
  shows "\<exists>n j k' bs'. kmalloc sz k = Some (n + sizeof_block_info, k') \<and>
    (n, j) \<in> allocs (kmem k') bs' \<and> kheap_inv k' bs' \<and> j < 96"
proof -
  define want where "want = sz + sizeof_block_info * 3 - 2 ^ 64"
  have w: "w64 (sz + sizeof_block_info * 3) = want"
    using sz by (simp add: w64_def want_def sizeof_block_info_def mod_if)
  have le: "want < 3 * sizeof_block_info" using sz by (simp add: want_def)
  then have "find (\<lambda>c. want \<le> blk_size (kmem k c)) (free_blocks (kmem k) bs) \<noteq> None"
    using c by (auto simp: find_None_iff)
  then obtain d where "kmalloc_result want d k bs (kmalloc sz k)"
    using kmalloc_first_fit[OF inv w] by (auto split: option.splits)
  then obtain k' bs' n j where r: "kmalloc sz k = Some (n + sizeof_block_info, k')" "kheap_inv k' bs'"
    "j \<le> want + sizeof_block_info" "allocs (kmem k') bs' = insert (n, j) (allocs (kmem k) bs)"
    unfolding kmalloc_result_def by blast
  then show ?thesis
    using le by (intro exI[of _ n] exI[of _ j] exI[of _ k'] exI[of _ bs'])
      (simp add: sizeof_block_info_def)
qed

theorem kmalloc_overflow_witness:
  "\<exists>n j k' bs'. kmalloc (2 ^ 64 - 1) kheap_fresh = Some (n + sizeof_block_info, k') \<and>
    (n, j) \<in> allocs (kmem k') bs' \<and> kheap_inv k' bs' \<and> j < 96"
  by (rule kmalloc_overflow[OF kheap_fresh_inv, of _ 4096])
     (simp_all add: kheap_fresh_eq free_blocks_def sizeof_block_info_def blank_block_def)

end
