(* ===== verification/Queue.thy ===== *)
theory Queue
  imports Kheap Kmutex
begin

text \<open>
  The linked queues of the system: the locked queue with a dummy node,
  \<open>src/klib/data_structure/queue.c\<close>, and the two that have none,
  \<open>src/klib/data_structure/mtx_queue.c\<close> and \<open>src/posix/plib/unsafe_queue.c\<close>.
  The operations take the allocator they call as arguments. The nodes are a
  store of their own: the addresses in its domain hold a node, any other access
  faults. Both queues meet the contract \<open>fifo\<close>.
\<close>

section \<open>Nodes\<close>

record queue_node =
  qvalue :: nat
  qnext :: ptr

definition sizeof_queue_node :: nat where
  "sizeof_queue_node = 16"

text \<open>
  The queue variable, the nodes and the allocator. \<open>qraw\<close> is what the memory of a
  block holds when the allocator hands it out.
\<close>

record queue_t =
  head :: ptr
  tail :: ptr
  head_lock :: kmutex
  tail_lock :: kmutex

record 's qstate =
  que :: queue_t
  qnodes :: "ptr \<rightharpoonup> queue_node"
  qraw :: "ptr \<Rightarrow> queue_node"
  qheap :: 's

text \<open>Following \<open>next\<close> from \<open>p\<close> visits the nodes \<open>ps\<close> and ends at \<open>NULL\<close>.\<close>

primrec qpath :: "(ptr \<rightharpoonup> queue_node) \<Rightarrow> ptr \<Rightarrow> ptr list \<Rightarrow> bool" where
  "qpath N p [] \<longleftrightarrow> p = 0"
| "qpath N p (a # as) \<longleftrightarrow> p = a \<and> a \<noteq> 0 \<and> (\<exists>n. N a = Some n \<and> qpath N (qnext n) as)"

definition qvalues :: "(ptr \<rightharpoonup> queue_node) \<Rightarrow> ptr list \<Rightarrow> nat list" where
  "qvalues N ps = map (\<lambda>p. qvalue (the (N p))) ps"

lemma qpath_cong: "(\<And>p. p \<in> set ps \<Longrightarrow> N' p = N p) \<Longrightarrow> qpath N' p ps = qpath N p ps"
  by (induction ps arbitrary: p) auto

lemma qpath_dom: "qpath N p ps \<Longrightarrow> set ps \<subseteq> dom N"
  by (induction ps arbitrary: p) auto

lemma qpath_nonnull: "qpath N p ps \<Longrightarrow> 0 \<notin> set ps"
  by (induction ps arbitrary: p) auto

text \<open>Appending a node behind the last one.\<close>

lemma qpath_snoc:
  assumes "qpath N p ps" "ps \<noteq> []" "distinct ps" "a \<notin> set ps" "a \<noteq> 0" "N (last ps) = Some t"
  shows "qpath (N(a \<mapsto> n\<lparr>qnext := 0\<rparr>, last ps \<mapsto> t\<lparr>qnext := a\<rparr>)) p (ps @ [a])"
  using assms
proof (induction ps arbitrary: p)
  case (Cons b ps)
  show ?case
  proof (cases "ps = []")
    case False
    then have "last ps \<in> set ps" by simp
    then have "b \<noteq> last ps" "b \<noteq> a" using Cons.prems(3,4) by auto
    then show ?thesis using Cons False by auto
  qed (use Cons.prems in auto)
qed simp

section \<open>The locked queue\<close>

definition queue_init :: "(nat \<Rightarrow> 's \<Rightarrow> (ptr \<times> 's) option) \<Rightarrow> 's qstate \<Rightarrow> 's qstate option" where
  "queue_init alloc q = do {
     (tmp, h) \<leftarrow> alloc sizeof_queue_node (qheap q);
     let q1 = q\<lparr>qheap := h\<rparr>;
     if tmp = 0 then Some (q1\<lparr>que := (que q1)\<lparr>head := 0, tail := 0\<rparr>\<rparr>)
     else Some (q1\<lparr>qnodes := (qnodes q1)(tmp \<mapsto> (qraw q1 tmp)\<lparr>qnext := 0\<rparr>),
                   que := (que q1)\<lparr>head := tmp, tail := tmp,
                                   head_lock := kmutex_init (head_lock (que q1)),
                                   tail_lock := kmutex_init (tail_lock (que q1))\<rparr>\<rparr>)
   }"

definition queue_enqueue ::
    "(nat \<Rightarrow> 's \<Rightarrow> (ptr \<times> 's) option) \<Rightarrow> nat \<Rightarrow> 's qstate \<Rightarrow> 's qstate option" where
  "queue_enqueue alloc value q = do {
     (node, h) \<leftarrow> alloc sizeof_queue_node (qheap q);
     let q1 = q\<lparr>qheap := h\<rparr>;
     if node = 0 \<or> tail (que q1) = 0 then Some q1
     else do {
       let N = (qnodes q1)(node \<mapsto> (qraw q1 node)\<lparr>qvalue := value, qnext := 0\<rparr>);
       l \<leftarrow> kmutex_lock (tail_lock (que q1));
       t \<leftarrow> N (tail (que q1));
       (l', woken) \<leftarrow> kmutex_unlock l;
       Some (q1\<lparr>qnodes := N(tail (que q1) \<mapsto> t\<lparr>qnext := node\<rparr>),
                que := (que q1)\<lparr>tail := node, tail_lock := l'\<rparr>\<rparr>)
     }
   }"

text \<open>The result is the value stored through the pointer, \<open>None\<close> for \<open>-1\<close>.\<close>

definition queue_dequeue ::
    "(ptr \<Rightarrow> 's \<Rightarrow> 's option) \<Rightarrow> 's qstate \<Rightarrow> (nat option \<times> 's qstate) option" where
  "queue_dequeue dealloc q =
     (if head (que q) = 0 then Some (None, q)
      else do {
        l \<leftarrow> kmutex_lock (head_lock (que q));
        let tmp = head (que q);
        t \<leftarrow> qnodes q tmp;
        let new_head = qnext t;
        if new_head = 0 then do {
          (l', woken) \<leftarrow> kmutex_unlock l;
          Some (None, q\<lparr>que := (que q)\<lparr>head_lock := l'\<rparr>\<rparr>)
        } else do {
          n \<leftarrow> qnodes q new_head;
          (l', woken) \<leftarrow> kmutex_unlock l;
          h \<leftarrow> dealloc tmp (qheap q);
          Some (Some (qvalue n), q\<lparr>que := (que q)\<lparr>head := new_head, head_lock := l'\<rparr>,
                                   qnodes := (qnodes q)(tmp := None), qheap := h\<rparr>)
        }
      })"

definition queue_remove ::
    "(ptr \<Rightarrow> 's \<Rightarrow> 's option) \<Rightarrow> 's qstate \<Rightarrow> (nat \<times> 's qstate) option" where
  "queue_remove dealloc q = do {
     (r, q') \<leftarrow> queue_dequeue dealloc q;
     Some (case r of None \<Rightarrow> 0 | Some v \<Rightarrow> v, q')
   }"

definition queue_empty :: "'s qstate \<Rightarrow> bool option" where
  "queue_empty q =
     (if head (que q) = 0 then Some True
      else do { t \<leftarrow> qnodes q (head (que q)); Some (qnext t = 0) })"

section \<open>The queues without a dummy node\<close>

text \<open>
  \<open>mtx_queue.c\<close> and \<open>unsafe_queue.c\<close> are the same code over \<open>vmalloc\<close> and over
  \<open>malloc\<close>. A failed allocation is written through, which faults.
\<close>

definition mtx_queue_init :: "'s qstate \<Rightarrow> 's qstate" where
  "mtx_queue_init q = q\<lparr>que := (que q)\<lparr>head := 0, tail := 0\<rparr>\<rparr>"

definition mtx_queue_enqueue ::
    "(nat \<Rightarrow> 's \<Rightarrow> (ptr \<times> 's) option) \<Rightarrow> nat \<Rightarrow> 's qstate \<Rightarrow> 's qstate option" where
  "mtx_queue_enqueue alloc value q = do {
     (node, h) \<leftarrow> alloc sizeof_queue_node (qheap q);
     let q1 = q\<lparr>qheap := h\<rparr>;
     if node = 0 then None
     else do {
       let N = (qnodes q1)(node \<mapsto> (qraw q1 node)\<lparr>qvalue := value, qnext := 0\<rparr>);
       if head (que q1) = 0 then Some (q1\<lparr>qnodes := N, que := (que q1)\<lparr>head := node, tail := node\<rparr>\<rparr>)
       else do {
         t \<leftarrow> N (tail (que q1));
         Some (q1\<lparr>qnodes := N(tail (que q1) \<mapsto> t\<lparr>qnext := node\<rparr>),
                  que := (que q1)\<lparr>tail := node\<rparr>\<rparr>)
       }
     }
   }"

definition mtx_queue_dequeue ::
    "(ptr \<Rightarrow> 's \<Rightarrow> 's option) \<Rightarrow> 's qstate \<Rightarrow> (nat option \<times> 's qstate) option" where
  "mtx_queue_dequeue dealloc q =
     (if head (que q) = 0 then Some (None, q)
      else do {
        let tmp = head (que q);
        t \<leftarrow> qnodes q tmp;
        h \<leftarrow> dealloc tmp (qheap q);
        Some (Some (qvalue t), q\<lparr>que := (que q)\<lparr>head := qnext t\<rparr>,
                                 qnodes := (qnodes q)(tmp := None), qheap := h\<rparr>)
      })"

definition mtx_queue_remove ::
    "(ptr \<Rightarrow> 's \<Rightarrow> 's option) \<Rightarrow> 's qstate \<Rightarrow> (nat \<times> 's qstate) option" where
  "mtx_queue_remove dealloc q = do {
     (r, q') \<leftarrow> mtx_queue_dequeue dealloc q;
     Some (case r of None \<Rightarrow> 0 | Some v \<Rightarrow> v, q')
   }"

definition mtx_queue_empty :: "'s qstate \<Rightarrow> bool" where
  "mtx_queue_empty q \<longleftrightarrow> head (que q) = 0"

section \<open>The contract of a queue\<close>

text \<open>Taking \<open>n\<close> values.\<close>

fun drain :: "('q \<Rightarrow> (nat option \<times> 'q) option) \<Rightarrow> nat \<Rightarrow> 'q \<Rightarrow> (nat list \<times> 'q) option" where
  "drain deq 0 q = Some ([], q)"
| "drain deq (Suc n) q = do {
     (r, q1) \<leftarrow> deq q;
     case r of None \<Rightarrow> Some ([], q1)
     | Some v \<Rightarrow> do { (vs, q2) \<leftarrow> drain deq n q1; Some (v # vs, q2) }
   }"

text \<open>
  \<open>room\<close> says that the queue can get a node for one more value; without it a
  value is dropped by one of the queues and the other one faults.
\<close>

locale fifo =
  fixes enq :: "nat \<Rightarrow> 'q \<Rightarrow> 'q option"
    and deq :: "'q \<Rightarrow> (nat option \<times> 'q) option"
    and empty :: "'q \<Rightarrow> bool option"
    and qrep :: "'q \<Rightarrow> nat list \<Rightarrow> bool"
    and room :: "'q \<Rightarrow> bool"
  assumes enq_rep: "qrep q xs \<Longrightarrow> room q \<Longrightarrow> \<exists>q'. enq v q = Some q' \<and> qrep q' (xs @ [v])"
    and deq_none: "qrep q [] \<Longrightarrow> \<exists>q'. deq q = Some (None, q') \<and> qrep q' []"
    and deq_some: "qrep q (x # xs) \<Longrightarrow> \<exists>q'. deq q = Some (Some x, q') \<and> qrep q' xs"
    and empty_rep: "qrep q xs \<Longrightarrow> empty q = Some (xs = [])"
begin

lemma drain_all:
  assumes "qrep q xs" "length xs \<le> n"
  shows "\<exists>q'. drain deq n q = Some (xs, q') \<and> qrep q' []"
  using assms
proof (induction n arbitrary: q xs)
  case (Suc n)
  show ?case
  proof (cases xs)
    case Nil
    then show ?thesis using deq_none[of q] Suc.prems(1) by auto
  next
    case (Cons x ys)
    then obtain q1 where q1: "deq q = Some (Some x, q1)" "qrep q1 ys"
      using deq_some Suc.prems(1) by blast
    then show ?thesis using Suc.IH[OF q1(2)] Suc.prems(2) Cons by auto
  qed
qed simp

lemma enq_drain:
  assumes "qrep q xs" "room q"
  shows "\<exists>q1 q2. enq v q = Some q1 \<and> drain deq (Suc (length xs)) q1 = Some (xs @ [v], q2) \<and> qrep q2 []"
  using enq_rep[OF assms, of v] drain_all[of _ "xs @ [v]" "Suc (length xs)"] by fastforce

end

section \<open>The locked queue is a queue\<close>

text \<open>
  \<open>F\<close> are the addresses that other parts of the kernel hold in the same
  allocator: no operation of the queue touches them.
\<close>

definition queue_rep ::
    "('s \<Rightarrow> (ptr \<times> nat) set \<Rightarrow> bool) \<Rightarrow> ptr set \<Rightarrow> 's qstate \<Rightarrow> nat list \<Rightarrow> bool" where
  "queue_rep rep F q xs \<longleftrightarrow>
     mutex_free (head_lock (que q)) \<and> mutex_free (tail_lock (que q)) \<and>
     (\<exists>d ps. qpath (qnodes q) (head (que q)) (d # ps) \<and> distinct (d # ps) \<and>
        tail (que q) = last (d # ps) \<and> dom (qnodes q) = set (d # ps) \<and>
        qvalues (qnodes q) ps = xs \<and> F \<inter> set (d # ps) = {} \<and>
        holds rep (qheap q) (F \<union> set (d # ps)))"

definition alloc_room :: "(nat \<Rightarrow> 's \<Rightarrow> (ptr \<times> 's) option) \<Rightarrow> 's qstate \<Rightarrow> bool" where
  "alloc_room alloc q \<longleftrightarrow> (\<exists>p h. alloc sizeof_queue_node (qheap q) = Some (p, h) \<and> p \<noteq> 0)"

lemma qvalues_cong: "(\<And>p. p \<in> set ps \<Longrightarrow> N' p = N p) \<Longrightarrow> qvalues N' ps = qvalues N ps"
  by (simp add: qvalues_def)

lemma qvalues_Cons: "qvalues N (p # ps) = qvalue (the (N p)) # qvalues N ps"
  by (simp add: qvalues_def)

lemma qvalues_upd_next:
  "N p = Some t \<Longrightarrow> qvalues (N(p \<mapsto> t\<lparr>qnext := a\<rparr>)) ps = qvalues N ps"
  by (auto simp: qvalues_def)

context allocator
begin

lemma sizeof_queue_node_small: "sizeof_queue_node < max_req"
  using max_req by (simp add: sizeof_queue_node_def)

lemma queue_enqueue_drop:
  assumes rep: "queue_rep rep F q xs" and full: "\<not> alloc_room alloc q"
  shows "\<exists>q'. queue_enqueue alloc v q = Some q' \<and> queue_rep rep F q' xs"
proof -
  obtain d ps where p: "qpath (qnodes q) (head (que q)) (d # ps)"
      "distinct (d # ps)" "tail (que q) = last (d # ps)"
      "dom (qnodes q) = set (d # ps)" "qvalues (qnodes q) ps = xs" "F \<inter> set (d # ps) = {}"
    and h: "holds rep (qheap q) (F \<union> set (d # ps))"
    and m: "mutex_free (head_lock (que q))" "mutex_free (tail_lock (que q))"
    using rep unfolding queue_rep_def by blast
  obtain n s' where a: "alloc sizeof_queue_node (qheap q) = Some (n, s')" "holds rep s' (F \<union> set (d # ps))"
    using alloc_holds[OF h sizeof_queue_node_small] by blast
  have "n = 0" using full a(1) by (auto simp: alloc_room_def)
  then have "queue_enqueue alloc v q = Some (q\<lparr>qheap := s'\<rparr>)"
    using a(1) by (simp add: queue_enqueue_def)
  moreover have "queue_rep rep F (q\<lparr>qheap := s'\<rparr>) xs"
    unfolding queue_rep_def using p m a(2) by (intro conjI exI[of _ d] exI[of _ ps]) simp_all
  ultimately show ?thesis by blast
qed

lemma queue_enqueue_rep:
  assumes rep: "queue_rep rep F q xs" and room: "alloc_room alloc q"
  shows "\<exists>q'. queue_enqueue alloc v q = Some q' \<and> queue_rep rep F q' (xs @ [v])"
proof -
  obtain d ps where p: "qpath (qnodes q) (head (que q)) (d # ps)"
      "distinct (d # ps)" "tail (que q) = last (d # ps)"
      "dom (qnodes q) = set (d # ps)" "qvalues (qnodes q) ps = xs" "F \<inter> set (d # ps) = {}"
    and h: "holds rep (qheap q) (F \<union> set (d # ps))"
    and m: "mutex_free (head_lock (que q))" "mutex_free (tail_lock (que q))"
    using rep unfolding queue_rep_def by blast
  obtain n s' where a: "alloc sizeof_queue_node (qheap q) = Some (n, s')"
    and n: "n \<noteq> 0 \<Longrightarrow> n \<notin> F \<union> set (d # ps) \<and> holds rep s' (insert n (F \<union> set (d # ps)))"
    using alloc_holds[OF h sizeof_queue_node_small] by blast
  have n0: "n \<noteq> 0" using room a by (auto simp: alloc_room_def)
  have nfresh: "n \<notin> set (d # ps)" "n \<notin> F" using n[OF n0] by auto
  let ?l = "last (d # ps)"
  have lin: "?l \<in> set (d # ps)" by (rule last_in_set) simp
  then obtain t where t: "qnodes q ?l = Some t" using p(4) by blast
  have l0: "?l \<noteq> 0" using qpath_nonnull[OF p(1)] lin by metis
  have nl: "n \<noteq> ?l" using nfresh(1) lin by metis
  let ?x = "(qraw q n)\<lparr>qvalue := v, qnext := 0\<rparr>"
  let ?N = "(qnodes q)(n \<mapsto> ?x, ?l \<mapsto> t\<lparr>qnext := n\<rparr>)"
  let ?q = "q\<lparr>qheap := s', qnodes := ?N, que := (que q)\<lparr>tail := n\<rparr>\<rparr>"
  have "queue_enqueue alloc v q = Some ?q"
    using a n0 l0 t nl p(3) kmutex_lock_free[OF m(2)] kmutex_unlock_free[OF m(2)]
    by (simp add: queue_enqueue_def del: last.simps)
  moreover have "queue_rep rep F ?q (xs @ [v])"
    unfolding queue_rep_def
  proof (intro conjI exI[of _ d] exI[of _ "ps @ [n]"])
    show "qpath (qnodes ?q) (head (que ?q)) (d # ps @ [n])"
      using qpath_snoc[OF p(1) _ p(2) nfresh(1) n0 t, of ?x] by simp
    have "qvalues ?N (ps @ [n]) = qvalues ((qnodes q)(n \<mapsto> ?x)) (ps @ [n])"
      using t nl by (intro qvalues_upd_next) auto
    also have "\<dots> = qvalues (qnodes q) ps @ [v]"
      using nfresh(1) by (auto simp: qvalues_def)
    finally show "qvalues (qnodes ?q) (ps @ [n]) = xs @ [v]" using p(5) by simp
    show "dom (qnodes ?q) = set (d # ps @ [n])" using p(4) lin by auto
    show "holds rep (qheap ?q) (F \<union> set (d # ps @ [n]))" using n[OF n0] by (simp add: insert_commute)
    show "F \<inter> set (d # ps @ [n]) = {}" using p(6) nfresh by auto
  qed (use p m nfresh in auto)
  ultimately show ?thesis by blast
qed

lemma queue_dequeue_none:
  assumes rep: "queue_rep rep F q []"
  shows "\<exists>q'. queue_dequeue dealloc q = Some (None, q') \<and> queue_rep rep F q' []"
proof -
  obtain d ps where p: "qpath (qnodes q) (head (que q)) (d # ps)" "qvalues (qnodes q) ps = []"
    and m: "mutex_free (head_lock (que q))"
    using rep unfolding queue_rep_def by blast
  have ps: "ps = []" using p(2) by (simp add: qvalues_def)
  have "queue_dequeue dealloc q = Some (None, q)"
    using p(1) ps kmutex_lock_free[OF m] kmutex_unlock_free[OF m]
    by (auto simp: queue_dequeue_def)
  with rep show ?thesis by blast
qed

lemma queue_dequeue_some:
  assumes rep: "queue_rep rep F q (x # xs)"
  shows "\<exists>q'. queue_dequeue dealloc q = Some (Some x, q') \<and> queue_rep rep F q' xs"
proof -
  obtain d ps0 where p0: "qpath (qnodes q) (head (que q)) (d # ps0)"
      "distinct (d # ps0)" "tail (que q) = last (d # ps0)"
      "dom (qnodes q) = set (d # ps0)" "qvalues (qnodes q) ps0 = x # xs" "F \<inter> set (d # ps0) = {}"
    and h: "holds rep (qheap q) (F \<union> set (d # ps0))"
    and m: "mutex_free (head_lock (que q))" "mutex_free (tail_lock (que q))"
    using rep unfolding queue_rep_def by blast
  obtain e ps where ps: "ps0 = e # ps" using p0(5) by (cases ps0) (auto simp: qvalues_def)
  note p = p0[unfolded ps]
  obtain nd ne where nd: "qnodes q d = Some nd" "qnext nd = e" "head (que q) = d" "d \<noteq> 0" "e \<noteq> 0"
    and ne: "qnodes q e = Some ne" "qvalue ne = x"
    using p(1,5) by (auto simp: qvalues_def)
  have "d \<in> F \<union> set (d # ps0)" by simp
  then obtain s' where f: "dealloc d (qheap q) = Some s'" "holds rep s' (F \<union> set (d # ps0) - {d})"
    using dealloc_holds[OF h] by blast
  let ?q = "q\<lparr>que := (que q)\<lparr>head := e\<rparr>, qnodes := (qnodes q)(d := None), qheap := s'\<rparr>"
  have "queue_dequeue dealloc q = Some (Some x, ?q)"
    using nd ne f(1) kmutex_lock_free[OF m(1)] kmutex_unlock_free[OF m(1)]
    by (simp add: queue_dequeue_def)
  moreover have "queue_rep rep F ?q xs"
    unfolding queue_rep_def
  proof (intro conjI exI[of _ e] exI[of _ ps])
    have "qpath (qnodes q) e (e # ps)" using p(1) nd by auto
    then show "qpath (qnodes ?q) (head (que ?q)) (e # ps)"
      using p(2) by (subst qpath_cong[where N = "qnodes q"]) auto
    have "qvalues ((qnodes q)(d := None)) ps = qvalues (qnodes q) ps"
      using p(2) by (intro qvalues_cong) auto
    then show "qvalues (qnodes ?q) ps = xs" using p(5) by (simp add: qvalues_Cons)
    show "dom (qnodes ?q) = set (e # ps)" using p(2,4) by auto
    have "F \<union> set (d # ps0) - {d} = F \<union> set (e # ps)" using p(2,6) ps by auto
    then show "holds rep (qheap ?q) (F \<union> set (e # ps))" using f(2) by simp
    show "F \<inter> set (e # ps) = {}" using p(6) by auto
  qed (use p m in auto)
  ultimately show ?thesis by blast
qed

lemma queue_empty_rep: "queue_rep rep F q xs \<Longrightarrow> queue_empty q = Some (xs = [])"
proof -
  assume "queue_rep rep F q xs"
  then obtain d ps where "qpath (qnodes q) (head (que q)) (d # ps)" "qvalues (qnodes q) ps = xs"
    unfolding queue_rep_def by blast
  then show ?thesis by (cases ps) (auto simp: queue_empty_def qvalues_def)
qed

text \<open>An initialised queue is empty, or has no dummy node and stays useless.\<close>

lemma queue_init_rep:
  assumes "holds rep (qheap q) F" "qnodes q = Map.empty"
    "pad (head_lock (que q)) = 0" "pad (tail_lock (que q)) = 0" "alloc_room alloc q"
  shows "\<exists>q'. queue_init alloc q = Some q' \<and> queue_rep rep F q' []"
proof -
  obtain n s' where a: "alloc sizeof_queue_node (qheap q) = Some (n, s')"
    and n: "n \<noteq> 0 \<Longrightarrow> n \<notin> F \<and> holds rep s' (insert n F)"
    using alloc_holds[OF assms(1) sizeof_queue_node_small] by blast
  have n0: "n \<noteq> 0" using assms(5) a by (auto simp: alloc_room_def)
  show ?thesis
    unfolding queue_rep_def using a n0 n[OF n0] assms(2-4)
    by (auto simp: queue_init_def qvalues_def kmutex_init_def mutex_free_def intro!: exI[of _ n])
qed

end

section \<open>The queues without a dummy node are queues\<close>

definition mtx_queue_rep ::
    "('s \<Rightarrow> (ptr \<times> nat) set \<Rightarrow> bool) \<Rightarrow> ptr set \<Rightarrow> 's qstate \<Rightarrow> nat list \<Rightarrow> bool" where
  "mtx_queue_rep rep F q xs \<longleftrightarrow>
     (\<exists>ps. qpath (qnodes q) (head (que q)) ps \<and> distinct ps \<and>
        (ps \<noteq> [] \<longrightarrow> tail (que q) = last ps) \<and> dom (qnodes q) = set ps \<and>
        qvalues (qnodes q) ps = xs \<and> F \<inter> set ps = {} \<and>
        holds rep (qheap q) (F \<union> set ps))"

context allocator
begin

lemma mtx_queue_enqueue_rep:
  assumes rep: "mtx_queue_rep rep F q xs" and room: "alloc_room alloc q"
  shows "\<exists>q'. mtx_queue_enqueue alloc v q = Some q' \<and> mtx_queue_rep rep F q' (xs @ [v])"
proof -
  obtain ps where p: "qpath (qnodes q) (head (que q)) ps"
      "distinct ps" "ps \<noteq> [] \<longrightarrow> tail (que q) = last ps"
      "dom (qnodes q) = set ps" "qvalues (qnodes q) ps = xs" "F \<inter> set ps = {}"
    and h: "holds rep (qheap q) (F \<union> set ps)"
    using rep unfolding mtx_queue_rep_def by blast
  obtain n s' where a: "alloc sizeof_queue_node (qheap q) = Some (n, s')"
    and n: "n \<noteq> 0 \<Longrightarrow> n \<notin> F \<union> set ps \<and> holds rep s' (insert n (F \<union> set ps))"
    using alloc_holds[OF h sizeof_queue_node_small] by blast
  have n0: "n \<noteq> 0" using room a by (auto simp: alloc_room_def)
  have nf: "n \<notin> set ps" "n \<notin> F" "holds rep s' (F \<union> set (ps @ [n]))" using n[OF n0] by auto
  let ?x = "(qraw q n)\<lparr>qvalue := v, qnext := 0\<rparr>"
  show ?thesis
  proof (cases "ps = []")
    case True
    then have "mtx_queue_enqueue alloc v q = Some (q\<lparr>qheap := s', qnodes := (qnodes q)(n \<mapsto> ?x),
        que := (que q)\<lparr>head := n, tail := n\<rparr>\<rparr>)"
      using a n0 p(1) by (simp add: mtx_queue_enqueue_def)
    then show ?thesis
      using True p nf n0 unfolding mtx_queue_rep_def by (auto simp: qvalues_def intro!: exI[of _ "[n]"])
  next
    case False
    then have lin: "last ps \<in> set ps" by simp
    then obtain t where t: "qnodes q (last ps) = Some t" using p(4) by blast
    have hd: "head (que q) \<noteq> 0" using False p(1) by (cases ps) auto
    have nl: "n \<noteq> last ps" using nf(1) lin by metis
    let ?N = "(qnodes q)(n \<mapsto> ?x, last ps \<mapsto> t\<lparr>qnext := n\<rparr>)"
    let ?q = "q\<lparr>qheap := s', qnodes := ?N, que := (que q)\<lparr>tail := n\<rparr>\<rparr>"
    have "mtx_queue_enqueue alloc v q = Some ?q"
      using a n0 hd t nl p(3) False by (simp add: mtx_queue_enqueue_def)
    moreover have "mtx_queue_rep rep F ?q (xs @ [v])"
      unfolding mtx_queue_rep_def
    proof (intro conjI exI[of _ "ps @ [n]"])
      show "qpath (qnodes ?q) (head (que ?q)) (ps @ [n])"
        using qpath_snoc[OF p(1) False p(2) nf(1) n0 t, of ?x] by simp
      have "qvalues ?N (ps @ [n]) = qvalues ((qnodes q)(n \<mapsto> ?x)) (ps @ [n])"
        using t nl by (intro qvalues_upd_next) auto
      also have "\<dots> = qvalues (qnodes q) ps @ [v]"
        using nf(1) by (auto simp: qvalues_def)
      finally show "qvalues (qnodes ?q) (ps @ [n]) = xs @ [v]" using p(5) by simp
      show "dom (qnodes ?q) = set (ps @ [n])" using p(4) lin by auto
    qed (use p nf in auto)
    ultimately show ?thesis by blast
  qed
qed

lemma mtx_queue_dequeue_none:
  "mtx_queue_rep rep F q [] \<Longrightarrow> \<exists>q'. mtx_queue_dequeue dealloc q = Some (None, q') \<and> mtx_queue_rep rep F q' []"
  unfolding mtx_queue_dequeue_def by (fastforce simp: mtx_queue_rep_def qvalues_def)

lemma mtx_queue_dequeue_some:
  assumes rep: "mtx_queue_rep rep F q (x # xs)"
  shows "\<exists>q'. mtx_queue_dequeue dealloc q = Some (Some x, q') \<and> mtx_queue_rep rep F q' xs"
proof -
  obtain ps0 where p0: "qpath (qnodes q) (head (que q)) ps0"
      "distinct ps0" "ps0 \<noteq> [] \<longrightarrow> tail (que q) = last ps0"
      "dom (qnodes q) = set ps0" "qvalues (qnodes q) ps0 = x # xs" "F \<inter> set ps0 = {}"
    and h: "holds rep (qheap q) (F \<union> set ps0)"
    using rep unfolding mtx_queue_rep_def by blast
  obtain d ps where ps: "ps0 = d # ps" using p0(5) by (cases ps0) (auto simp: qvalues_def)
  note p = p0[unfolded ps]
  obtain nd where nd: "qnodes q d = Some nd" "head (que q) = d" "d \<noteq> 0" "qvalue nd = x"
      "qpath (qnodes q) (qnext nd) ps"
    using p(1,5) by (auto simp: qvalues_def)
  have "d \<in> F \<union> set ps0" using ps by simp
  then obtain s' where f: "dealloc d (qheap q) = Some s'" "holds rep s' (F \<union> set ps0 - {d})"
    using dealloc_holds[OF h] by blast
  let ?q = "q\<lparr>que := (que q)\<lparr>head := qnext nd\<rparr>, qnodes := (qnodes q)(d := None), qheap := s'\<rparr>"
  have "mtx_queue_dequeue dealloc q = Some (Some x, ?q)"
    using nd f(1) by (simp add: mtx_queue_dequeue_def)
  moreover have "mtx_queue_rep rep F ?q xs"
    unfolding mtx_queue_rep_def
  proof (intro conjI exI[of _ ps])
    show "qpath (qnodes ?q) (head (que ?q)) ps"
      using nd(5) p(2) by (simp, subst qpath_cong[where N = "qnodes q"]) auto
    have "qvalues ((qnodes q)(d := None)) ps = qvalues (qnodes q) ps"
      using p(2) by (intro qvalues_cong) auto
    then show "qvalues (qnodes ?q) ps = xs" using p(5) by (simp add: qvalues_Cons)
    show "dom (qnodes ?q) = set ps" using p(2,4) by auto
    have "F \<union> set ps0 - {d} = F \<union> set ps" using p(2,6) ps by auto
    then show "holds rep (qheap ?q) (F \<union> set ps)" using f(2) by simp
    show "F \<inter> set ps = {}" using p(6) by auto
  qed (use p in auto)
  ultimately show ?thesis by blast
qed

lemma mtx_queue_empty_rep: "mtx_queue_rep rep F q xs \<Longrightarrow> mtx_queue_empty q = (xs = [])"
proof -
  assume "mtx_queue_rep rep F q xs"
  then obtain ps where "qpath (qnodes q) (head (que q)) ps" "qvalues (qnodes q) ps = xs"
    unfolding mtx_queue_rep_def by blast
  then show ?thesis by (cases ps) (auto simp: mtx_queue_empty_def qvalues_def)
qed

end

text \<open>Both over the kernel heap.\<close>

interpretation kq: fifo "queue_enqueue kmalloc" "queue_dequeue kfree" queue_empty
    "queue_rep kheap_rep F" "alloc_room kmalloc" for F
  by unfold_locales
     (fact kh.queue_enqueue_rep kh.queue_dequeue_none kh.queue_dequeue_some kh.queue_empty_rep)+

section \<open>Properties\<close>

text \<open>
  C18. The locked queue of the kernel is first in, first out, and never loses
  what it holds: enqueuing a value and then dequeuing until the queue is empty
  returns the values that were in it, in order, followed by the new one; only
  when \<open>kmalloc\<close> has no node for it is the new value dropped. Every node is freed
  exactly once and what other code holds in the heap is untouched.
\<close>

theorem queue_fifo:
  assumes "queue_rep kheap_rep F q xs"
  shows "\<exists>q1 q2. queue_enqueue kmalloc v q = Some q1 \<and>
    drain (queue_dequeue kfree) (Suc (length xs)) q1 =
      Some (if alloc_room kmalloc q then xs @ [v] else xs, q2) \<and>
    queue_rep kheap_rep F q2 [] \<and> queue_empty q2 = Some True"
proof -
  obtain q1 where q1: "queue_enqueue kmalloc v q = Some q1"
    "queue_rep kheap_rep F q1 (if alloc_room kmalloc q then xs @ [v] else xs)"
    using kh.queue_enqueue_rep[OF assms, of v] kh.queue_enqueue_drop[OF assms, of v]
    by (cases "alloc_room kmalloc q") auto
  then show ?thesis
    using kq.drain_all[OF q1(2), of "Suc (length xs)"] kq.empty_rep by auto
qed

text \<open>A concrete queue: empty, its dummy node the only allocated block of a heap.\<close>

definition kheap_one :: kheap where
  "kheap_one = \<lparr>kmem = (\<lambda>_. blank_block)(
        4096 := blank_block\<lparr>blk_size := 3960, next_free := 8192\<rparr>,
        8080 := blank_block\<lparr>blk_size := 88, is_mmapped := True, present := True, previous_chunk := 4096\<rparr>),
     kheap_start = 4096, kheap_end = 8192, kfirst_free = 4096, kheap_max_size = 4096, kheap_size = 88\<rparr>"

definition kqueue_one :: "kheap qstate" where
  "kqueue_one = \<lparr>que = \<lparr>head = 8104, tail = 8104, head_lock = kmutex_zero, tail_lock = kmutex_zero\<rparr>,
     qnodes = [8104 \<mapsto> \<lparr>qvalue = 0, qnext = 0\<rparr>], qraw = (\<lambda>_. \<lparr>qvalue = 0, qnext = 0\<rparr>), qheap = kheap_one\<rparr>"

lemma kheap_one_inv: "kheap_inv kheap_one [4096, 8080]" "allocs (kmem kheap_one) [4096, 8080] = {(8080, 88)}"
  by (simp_all add: kheap_one_def kheap_inv_def heap_inv_def allocs_Cons allocs_Nil free_blocks_def blk_end_def
      sizeof_block_info_def blank_block_def)

lemma kheap_one_rep: "kheap_rep kheap_one {(8104, 88)}"
  unfolding kheap_rep_def using kheap_one_inv
  by (intro exI[of _ "[4096, 8080]"]) (simp add: user_view_def sizeof_block_info_def)

lemma kqueue_one_rep: "queue_rep kheap_rep {} kqueue_one []"
proof -
  have "holds kheap_rep kheap_one {8104}" using kheap_one_rep by (force simp: holds_def)
  then show ?thesis
    unfolding queue_rep_def
    by (intro conjI exI[of _ 8104] exI[of _ "[]"])
       (simp_all add: kqueue_one_def qvalues_def mutex_free_def kmutex_zero_def)
qed

lemma kqueue_one_room: "alloc_room kmalloc kqueue_one"
proof -
  have w: "w64 (sizeof_queue_node + sizeof_block_info * 3) = 88"
    by (simp add: sizeof_queue_node_def sizeof_block_info_def)
  have "free_blocks (kmem kheap_one) [4096, 8080] = [4096]" "blk_size (kmem kheap_one 4096) = 3960"
    by (simp_all add: free_blocks_def kheap_one_def blank_block_def)
  then have "kmalloc_result 88 4096 kheap_one [4096, 8080] (kmalloc sizeof_queue_node kheap_one)"
    using kmalloc_first_fit[OF kheap_one_inv(1) w] by simp
  then show ?thesis
    using sizeof_block_info_pos by (auto simp: kmalloc_result_def alloc_room_def kqueue_one_def)
qed

theorem queue_fifo_witness:
  "\<exists>q1 q2. queue_enqueue kmalloc 7 kqueue_one = Some q1 \<and>
     drain (queue_dequeue kfree) 1 q1 = Some ([7], q2) \<and> queue_empty q2 = Some True"
  using queue_fifo[OF kqueue_one_rep, of 7] kqueue_one_room by auto

end
