(* ===== verification/Pmm.thy ===== *)
theory Pmm
  imports Queue
begin

text \<open>
  The physical memory manager, \<open>src/kernel/memory/pmm.c\<close>: pages are handed out
  from a queue of freed pages, or else from the allocation front \<open>next_addr\<close>,
  which steps over the reserved ranges. The record holds the static variables of
  the file; \<open>pmem\<close> is the physical memory, by page and 64 bit entry of the page,
  and \<open>kernel_PML4T\<close> the one static variable of \<open>vmm.c\<close>.
\<close>

section \<open>State and operations\<close>

record pm =
  total_memory :: nat
  total_memory_used :: nat
  total_usable_memory :: nat
  next_addr :: nat
  top_32_addr :: nat
  pmm_top_addr :: nat
  last_free_q :: "kheap qstate"
  resv :: reserve
  refused :: nat
  pmem :: "nat \<Rightarrow> nat \<Rightarrow> nat"
  kernel_PML4T :: nat

definition pmm_free :: "nat \<Rightarrow> pm \<Rightarrow> pm option" where
  "pmm_free addr p =
     (if next_addr p < addr then Some (p\<lparr>refused := w64 (refused p + 1)\<rparr>)
      else do {
        q \<leftarrow> queue_enqueue kmalloc (P2V addr) (last_free_q p);
        Some (p\<lparr>last_free_q := q, total_memory_used := w64_sub (total_memory_used p) PAGE_SIZE\<rparr>)
      })"

text \<open>One pass of the \<open>for\<close> loop over the reserved ranges with the indices \<open>is\<close>.\<close>

fun skip_pass :: "reserve \<Rightarrow> nat list \<Rightarrow> nat \<times> bool \<Rightarrow> nat \<times> bool" where
  "skip_pass r [] s = s"
| "skip_pass r (i # is) (n, moved) =
     (if reserved_start r ! i \<le> n \<and> n < reserved_end r ! i
      then skip_pass r is (reserved_end r ! i, True)
      else skip_pass r is (n, moved))"

partial_function (option) skip_reserved :: "reserve \<Rightarrow> nat \<Rightarrow> nat option" where
  "skip_reserved r n =
     (case skip_pass r [0..<reserved_count r] (n, False) of
        (n', moved) \<Rightarrow> if moved then skip_reserved r n' else Some n')"

text \<open>The branch of \<open>pmm_alloc\<close> that takes a page from the front.\<close>

definition pmm_alloc_front :: "pm \<Rightarrow> (nat \<times> pm) option" where
  "pmm_alloc_front p =
     (if next_addr p \<ge> pmm_top_addr p then Some (0, p)
      else let jump = (next_addr p \<ge> w64_sub (top_32_addr p) 0x1000 \<and> next_addr p < 0x100000000);
               p1 = (if jump then p\<lparr>next_addr := 0x100000000\<rparr> else p)
           in if jump \<and> next_addr p1 \<ge> pmm_top_addr p1 then Some (0, p1)
              else do {
                n \<leftarrow> skip_reserved (resv p1) (next_addr p1);
                let p2 = p1\<lparr>next_addr := n\<rparr>;
                if n \<ge> pmm_top_addr p2 then Some (0, p2)
                else Some (n, p2\<lparr>next_addr := w64 (n + PAGE_SIZE),
                                 total_memory_used := w64 (total_memory_used p2 + PAGE_SIZE)\<rparr>)
              })"

definition pmm_alloc :: "pm \<Rightarrow> (nat \<times> pm) option" where
  "pmm_alloc p = do {
     e \<leftarrow> queue_empty (last_free_q p);
     if \<not> e then do {
       (addr, q) \<leftarrow> queue_dequeue kfree (last_free_q p);
       a \<leftarrow> addr;
       Some (V2P a, p\<lparr>last_free_q := q,
                      total_memory_used := w64 (total_memory_used p + PAGE_SIZE)\<rparr>)
     } else pmm_alloc_front p
   }"

text \<open>\<open>memset\<close> of the page through its address in the linear window.\<close>

definition clear_page :: "nat \<Rightarrow> pm \<Rightarrow> pm" where
  "clear_page a p = p\<lparr>pmem := (pmem p)(V2P (P2V a) := \<lambda>_. 0)\<rparr>"

definition pmm_calloc :: "pm \<Rightarrow> (nat \<times> pm) option" where
  "pmm_calloc p = do {
     (a, p1) \<leftarrow> pmm_alloc p;
     if a = 0 then Some (0, p1) else Some (a, clear_page a p1)
   }"

section \<open>Stepping over the reserved ranges\<close>

lemma skip_pass_range:
  assumes "skip_pass r is (n, mv) = (n', mv')" "\<forall>i\<in>set is. i < reserved_count r" "reserve_ok r"
  shows "n \<le> n' \<and> (\<forall>a. n \<le> a \<and> a < n' \<longrightarrow> reserved r a) \<and> (mv' \<longrightarrow> mv \<or> n < n') \<and> (mv \<longrightarrow> mv') \<and>
    (n' = n \<or> n' \<in> snd ` set (ranges r)) \<and>
    (\<not> mv' \<longrightarrow> n' = n \<and> (\<forall>i\<in>set is. \<not> (reserved_start r ! i \<le> n \<and> n < reserved_end r ! i)))"
  using assms
proof (induction r "is" "(n, mv)" arbitrary: n mv rule: skip_pass.induct)
  case (2 r i "is" n mv)
  show ?case
  proof (cases "reserved_start r ! i \<le> n \<and> n < reserved_end r ! i")
    case True
    have "i < reserved_count r" using 2(4) by simp
    then have mem: "(reserved_start r ! i, reserved_end r ! i) \<in> set (ranges r)"
      using 2(5) by (auto simp: ranges_def reserve_ok_def in_set_conv_nth intro!: exI[of _ i])
    have cov: "reserved r a" if "n \<le> a" "a < reserved_end r ! i" for a
      unfolding reserved_def using True that by (intro bexI[OF _ mem]) auto
    have rng: "reserved_end r ! i \<in> snd ` set (ranges r)"
      by (rule rev_image_eqI[OF mem]) simp
    have "skip_pass r is (reserved_end r ! i, True) = (n', mv')" using 2(3) True by simp
    with 2(1)[OF True] 2(4,5) have ih: "reserved_end r ! i \<le> n'" "mv'"
      "\<forall>a. reserved_end r ! i \<le> a \<and> a < n' \<longrightarrow> reserved r a"
      "n' = reserved_end r ! i \<or> n' \<in> snd ` set (ranges r)"
      by simp_all
    have "n < n'" using ih(1) True by simp
    moreover have "\<forall>a. n \<le> a \<and> a < n' \<longrightarrow> reserved r a"
      using cov ih(3) by (metis not_le)
    moreover have "n' \<in> snd ` set (ranges r)" using ih(4) rng by blast
    ultimately show ?thesis using ih(2) by simp
  next
    case False
    then show ?thesis using 2(2)[OF False] 2(3-5) by auto
  qed
qed auto

lemma skip_reserved_ok:
  assumes ok: "reserve_ok r"
  shows "\<exists>n'. skip_reserved r n = Some n' \<and> n \<le> n' \<and> \<not> reserved r n' \<and>
    (\<forall>a. n \<le> a \<and> a < n' \<longrightarrow> reserved r a) \<and> (n' = n \<or> n' \<in> snd ` set (ranges r))"
proof -
  define M where "M = Max (insert 0 (snd ` set (ranges r)))"
  have M: "e \<le> M" if "e \<in> snd ` set (ranges r)" for e
    unfolding M_def using that by (intro Max_ge) auto
  show ?thesis
  proof (induction "M - n" arbitrary: n rule: less_induct)
    case less
    obtain n' mv where p: "skip_pass r [0..<reserved_count r] (n, False) = (n', mv)" by fastforce
    note f = skip_pass_range[OF p _ ok, simplified]
    show ?case
    proof (cases mv)
      case True
      then have "n < n'" "n' \<in> snd ` set (ranges r)" using f by auto
      then have "M - n' < M - n" using M[of n'] by simp
      from less[OF this] obtain m where m: "skip_reserved r n' = Some m" "n' \<le> m" "\<not> reserved r m"
        "\<forall>a. n' \<le> a \<and> a < m \<longrightarrow> reserved r a" "m = n' \<or> m \<in> snd ` set (ranges r)" by blast
      have "skip_reserved r n = Some m" using p True m(1) by (subst skip_reserved.simps) simp
      then show ?thesis using m f \<open>n < n'\<close> \<open>n' \<in> snd ` set (ranges r)\<close>
        by (metis less_imp_le_nat less_le_trans linorder_not_less)
    next
      case False
      then have n: "n' = n" and none: "\<forall>i<reserved_count r. \<not> (reserved_start r ! i \<le> n \<and> n < reserved_end r ! i)"
        using f by auto
      have "\<not> reserved r n"
        using none ok by (auto simp: reserved_def ranges_def in_set_conv_nth reserve_ok_def)
      moreover have "skip_reserved r n = Some n" using p False n by (subst skip_reserved.simps) simp
      ultimately show ?thesis by auto
    qed
  qed
qed

section \<open>Pages in use\<close>

text \<open>
  What a client of the manager relies on: a page is handed out to one holder at
  a time. \<open>prep s U\<close> says that the state is well formed and \<open>U\<close> are the pages in
  use.
\<close>

definition phys_limit :: nat where
  "phys_limit = 0x7F80000000"

locale page_provider =
  fixes palloc :: "'s \<Rightarrow> (nat \<times> 's) option"
    and pfree :: "nat \<Rightarrow> 's \<Rightarrow> 's option"
    and prep :: "'s \<Rightarrow> nat set \<Rightarrow> bool"
  assumes palloc_rep: "prep s U \<Longrightarrow> \<exists>a s'. palloc s = Some (a, s') \<and>
      (a = 0 \<and> prep s' U \<or> a \<noteq> 0 \<and> a \<notin> U \<and> prep s' (insert a U))"
    and pfree_rep: "prep s U \<Longrightarrow> a \<in> U \<Longrightarrow> \<exists>s'. pfree a s = Some s' \<and> prep s' (U - {a})"
    and prep_page: "prep s U \<Longrightarrow> a \<in> U \<Longrightarrow> PAGE_SIZE dvd a \<and> 0 < a \<and> a < phys_limit"
begin

text \<open>Taking \<open>n\<close> pages gives \<open>n\<close> different ones, or runs out.\<close>

lemma palloc_obtains:
  assumes "prep s U"
  obtains (none) s' where "palloc s = Some (0, s')" "prep s' U"
  | (page) a s' where "palloc s = Some (a, s')" "a \<noteq> 0" "a \<notin> U" "prep s' (insert a U)"
  using palloc_rep[OF assms] by blast

lemma palloc_pfree:
  assumes "prep s U" "palloc s = Some (a, s')" "a \<noteq> 0"
  shows "\<exists>s''. pfree a s' = Some s'' \<and> prep s'' U"
  using palloc_rep[OF assms(1)] assms(2,3) pfree_rep[of s' "insert a U" a] by auto

end

text \<open>
  The invariant: the free queue holds pages below the front, none twice, none of
  them in use. \<open>F\<close> is what others hold in the kernel heap.
\<close>

definition page_ok :: "pm \<Rightarrow> nat \<Rightarrow> bool" where
  "page_ok p a \<longleftrightarrow> PAGE_SIZE dvd a \<and> 0 < a \<and> a < next_addr p \<and> a < phys_limit"

definition pmm_rep :: "ptr set \<Rightarrow> pm \<Rightarrow> nat set \<Rightarrow> bool" where
  "pmm_rep F p U \<longleftrightarrow>
     (\<exists>fs. queue_rep kheap_rep F (last_free_q p) (map P2V fs) \<and> distinct fs \<and> set fs \<inter> U = {} \<and>
        (\<forall>a\<in>set fs \<union> U. page_ok p a)) \<and>
     PAGE_SIZE dvd next_addr p \<and> 0 < next_addr p \<and> pmm_top_addr p \<le> phys_limit \<and> reserve_ok (resv p)"

lemma page_ok_mono: "page_ok p a \<Longrightarrow> next_addr p \<le> next_addr p' \<Longrightarrow> page_ok p' a"
  by (auto simp: page_ok_def)

text \<open>Moving the front forward, and what else does not matter.\<close>

lemma pmm_rep_front:
  assumes "pmm_rep F p U" "next_addr p \<le> next_addr p'" "PAGE_SIZE dvd next_addr p'"
    "last_free_q p' = last_free_q p" "pmm_top_addr p' = pmm_top_addr p" "resv p' = resv p"
  shows "pmm_rep F p' U"
  using assms page_ok_mono[of p _ p'] unfolding pmm_rep_def by (metis less_le_trans)

lemma range_end_dvd: "reserve_ok r \<Longrightarrow> e \<in> snd ` set (ranges r) \<Longrightarrow> PAGE_SIZE dvd e"
  by (auto simp: reserve_ok_def)

lemma pmm_rep_take:
  assumes rep: "pmm_rep F p U" and n: "next_addr p = n" "n < phys_limit"
    and p': "next_addr p' = n + PAGE_SIZE" "last_free_q p' = last_free_q p"
      "pmm_top_addr p' = pmm_top_addr p" "resv p' = resv p"
  shows "n \<notin> U \<and> n \<noteq> 0 \<and> pmm_rep F p' (insert n U)"
proof -
  obtain fs where fs: "queue_rep kheap_rep F (last_free_q p) (map P2V fs)" "distinct fs"
    "set fs \<inter> U = {}" "\<forall>a\<in>set fs \<union> U. page_ok p a"
    and o: "PAGE_SIZE dvd n" "0 < n" "pmm_top_addr p \<le> phys_limit" "reserve_ok (resv p)"
    using rep n(1) by (auto simp: pmm_rep_def)
  have nU: "n \<notin> set fs \<union> U" using fs(4) n(1) by (auto simp: page_ok_def)
  have "page_ok p' n" using n p'(1) o(1,2) by (simp add: page_ok_def)
  moreover have "\<forall>a\<in>set fs \<union> U. page_ok p' a"
    using fs(4) page_ok_mono[of p _ p'] n(1) p'(1) by simp
  ultimately have ok: "\<forall>a\<in>set fs \<union> insert n U. page_ok p' a" by blast
  have "pmm_rep F p' (insert n U)"
    unfolding pmm_rep_def using fs nU ok o p' by (intro conjI exI[of _ fs]) auto
  then show ?thesis using nU o(2) by auto
qed

lemma pmm_alloc_front_rep:
  assumes rep: "pmm_rep F p U"
  shows "\<exists>a p'. pmm_alloc_front p = Some (a, p') \<and>
    (a = 0 \<and> pmm_rep F p' U \<or> a \<noteq> 0 \<and> a \<notin> U \<and> \<not> reserved (resv p) a \<and> pmm_rep F p' (insert a U))"
proof (cases "next_addr p \<ge> pmm_top_addr p")
  case True
  then show ?thesis using rep by (simp add: pmm_alloc_front_def)
next
  case False
  define jump where "jump \<longleftrightarrow> next_addr p \<ge> w64_sub (top_32_addr p) 0x1000 \<and> next_addr p < 0x100000000"
  define p1 where "p1 = (if jump then p\<lparr>next_addr := 0x100000000\<rparr> else p)"
  have p1: "pmm_rep F p1 U"
  proof (cases jump)
    case True
    have "PAGE_SIZE dvd (0x100000000 :: nat)" by (simp add: PAGE_SIZE_def)
    then show ?thesis using rep True
      by (intro pmm_rep_front[OF rep]) (auto simp: p1_def jump_def)
  qed (simp add: p1_def rep)
  have ok: "reserve_ok (resv p1)" "PAGE_SIZE dvd next_addr p1" using p1 by (auto simp: pmm_rep_def)
  obtain n where n: "skip_reserved (resv p1) (next_addr p1) = Some n" "next_addr p1 \<le> n"
    "\<not> reserved (resv p1) n" "n = next_addr p1 \<or> n \<in> snd ` set (ranges (resv p1))"
    using skip_reserved_ok[OF ok(1), of "next_addr p1"] by blast
  have dvd: "PAGE_SIZE dvd n" using n(4) ok range_end_dvd by blast
  have p2: "pmm_rep F (p1\<lparr>next_addr := n\<rparr>) U"
    by (rule pmm_rep_front[OF p1]) (use n dvd in auto)
  have top: "pmm_top_addr p1 \<le> phys_limit" "resv p1 = resv p" using p1 by (auto simp: pmm_rep_def p1_def)
  let ?p3 = "p1\<lparr>next_addr := n + PAGE_SIZE, total_memory_used := w64 (total_memory_used p1 + PAGE_SIZE)\<rparr>"
  consider "jump \<and> next_addr p1 \<ge> pmm_top_addr p1" | "\<not> (jump \<and> next_addr p1 \<ge> pmm_top_addr p1)" "n \<ge> pmm_top_addr p1"
    | "\<not> (jump \<and> next_addr p1 \<ge> pmm_top_addr p1)" "n < pmm_top_addr p1" by linarith
  then show ?thesis
  proof cases
    case 1
    then have "pmm_alloc_front p = Some (0, p1)"
      using False unfolding pmm_alloc_front_def jump_def[symmetric] p1_def[symmetric] Let_def by simp
    then show ?thesis using p1 by blast
  next
    case 2
    then have "pmm_alloc_front p = Some (0, p1\<lparr>next_addr := n\<rparr>)"
      using False n(1) unfolding pmm_alloc_front_def jump_def[symmetric] p1_def[symmetric] Let_def by auto
    then show ?thesis using p2 by blast
  next
    case 3
    have w: "w64 (n + PAGE_SIZE) = n + PAGE_SIZE"
      using 3(2) top(1) by (simp add: phys_limit_def PAGE_SIZE_def)
    have "pmm_alloc_front p = Some (n, ?p3)"
      using False 3 n(1) unfolding pmm_alloc_front_def jump_def[symmetric] p1_def[symmetric] Let_def
      by (auto simp: w)
    moreover have "n \<notin> U \<and> n \<noteq> 0 \<and> pmm_rep F ?p3 (insert n U)"
      by (rule pmm_rep_take[OF p2]) (use 3(2) top(1) in auto)
    ultimately show ?thesis using n(3) top(2) by auto
  qed
qed

lemma V2P_P2V_page: "page_ok p a \<Longrightarrow> V2P (P2V a) = a"
  by (rule V2P_P2V) (simp add: page_ok_def phys_limit_def)

lemma pmm_alloc_rep:
  assumes rep: "pmm_rep F p U"
  shows "\<exists>a p'. pmm_alloc p = Some (a, p') \<and>
    (a = 0 \<and> pmm_rep F p' U \<or> a \<noteq> 0 \<and> a \<notin> U \<and> pmm_rep F p' (insert a U))"
proof -
  obtain fs where fs: "queue_rep kheap_rep F (last_free_q p) (map P2V fs)" "distinct fs"
    "set fs \<inter> U = {}" "\<forall>a\<in>set fs \<union> U. page_ok p a"
    and o: "PAGE_SIZE dvd next_addr p" "0 < next_addr p" "pmm_top_addr p \<le> phys_limit" "reserve_ok (resv p)"
    using rep by (auto simp: pmm_rep_def)
  have e: "queue_empty (last_free_q p) = Some (fs = [])" using kq.empty_rep[OF fs(1)] by simp
  show ?thesis
  proof (cases fs)
    case Nil
    then show ?thesis using pmm_alloc_front_rep[OF rep] e by (auto simp: pmm_alloc_def)
  next
    case (Cons a gs)
    obtain q where q: "queue_dequeue kfree (last_free_q p) = Some (Some (P2V a), q)"
      "queue_rep kheap_rep F q (map P2V gs)"
      using kq.deq_some fs(1) Cons by force
    let ?p = "p\<lparr>last_free_q := q, total_memory_used := w64 (total_memory_used p + PAGE_SIZE)\<rparr>"
    have a: "page_ok p a" "a \<notin> U" "a \<notin> set gs" using fs Cons by auto
    have "pmm_alloc p = Some (a, ?p)"
      using e q(1) Cons V2P_P2V_page[OF a(1)] by (simp add: pmm_alloc_def)
    moreover have "pmm_rep F ?p (insert a U)"
      unfolding pmm_rep_def
    proof (intro conjI exI[of _ gs])
      show "\<forall>x\<in>set gs \<union> insert a U. page_ok ?p x" using fs(4) Cons by (simp add: page_ok_def)
    qed (use fs Cons q(2) a o in auto)
    ultimately show ?thesis using a by (auto simp: page_ok_def)
  qed
qed

lemma pmm_free_rep:
  assumes rep: "pmm_rep F p U" and a: "a \<in> U"
  shows "\<exists>p'. pmm_free a p = Some p' \<and> pmm_rep F p' (U - {a})"
proof -
  obtain fs where fs: "queue_rep kheap_rep F (last_free_q p) (map P2V fs)" "distinct fs"
    "set fs \<inter> U = {}" "\<forall>a\<in>set fs \<union> U. page_ok p a"
    and o: "PAGE_SIZE dvd next_addr p" "0 < next_addr p" "pmm_top_addr p \<le> phys_limit" "reserve_ok (resv p)"
    using rep by (auto simp: pmm_rep_def)
  have lt: "a < next_addr p" using fs(4) a by (auto simp: page_ok_def)
  define gs where "gs = (if alloc_room kmalloc (last_free_q p) then fs @ [a] else fs)"
  obtain q where q: "queue_enqueue kmalloc (P2V a) (last_free_q p) = Some q"
    "queue_rep kheap_rep F q (map P2V gs)"
    using kh.queue_enqueue_rep[OF fs(1), of "P2V a"] kh.queue_enqueue_drop[OF fs(1), of "P2V a"]
    unfolding gs_def by (cases "alloc_room kmalloc (last_free_q p)") auto
  have gs: "distinct gs" "set gs \<subseteq> insert a (set fs)" using fs(2,3) a by (auto simp: gs_def)
  let ?p = "p\<lparr>last_free_q := q, total_memory_used := w64_sub (total_memory_used p) PAGE_SIZE\<rparr>"
  have "pmm_free a p = Some ?p" using lt q(1) by (simp add: pmm_free_def)
  moreover have "pmm_rep F ?p (U - {a})"
    unfolding pmm_rep_def
  proof (intro conjI exI[of _ gs])
    show "\<forall>x\<in>set gs \<union> (U - {a}). page_ok ?p x" using fs(4) gs(2) a by (auto simp: page_ok_def)
    show "set gs \<inter> (U - {a}) = {}" using fs(3) gs(2) by auto
  qed (use gs q(2) o in auto)
  ultimately show ?thesis by blast
qed

lemma pmm_rep_pmem [simp]: "pmm_rep F (p\<lparr>pmem := m\<rparr>) U = pmm_rep F p U"
  by (simp add: pmm_rep_def page_ok_def)

lemma pmm_calloc_rep:
  assumes rep: "pmm_rep F p U"
  shows "\<exists>a p'. pmm_calloc p = Some (a, p') \<and>
    (a = 0 \<and> pmm_rep F p' U \<or> a \<noteq> 0 \<and> a \<notin> U \<and> pmm_rep F p' (insert a U))"
  using pmm_alloc_rep[OF rep] by (auto simp: pmm_calloc_def clear_page_def)

lemma pmm_rep_page:
  "pmm_rep F p U \<Longrightarrow> a \<in> U \<Longrightarrow> PAGE_SIZE dvd a \<and> 0 < a \<and> a < phys_limit"
  by (auto simp: pmm_rep_def page_ok_def)

interpretation pa: page_provider pmm_alloc pmm_free "pmm_rep F" for F
  by unfold_locales (fact pmm_alloc_rep pmm_free_rep pmm_rep_page)+

interpretation pc: page_provider pmm_calloc pmm_free "pmm_rep F" for F
  by unfold_locales (fact pmm_calloc_rep pmm_free_rep pmm_rep_page)+

text \<open>The page that \<open>pmm_calloc\<close> returns is zero, the others are as before.\<close>

lemma pmm_alloc_pmem: "pmm_alloc p = Some (a, p') \<Longrightarrow> pmem p' = pmem p \<and> kernel_PML4T p' = kernel_PML4T p"
  by (auto simp: pmm_alloc_def pmm_alloc_front_def Let_def split: if_splits bind_splits)

lemma pmm_calloc_pmem:
  assumes "pmm_rep F p U" "pmm_calloc p = Some (a, p')" "a \<noteq> 0"
  shows "pmem p' = (pmem p)(a := \<lambda>_. 0) \<and> kernel_PML4T p' = kernel_PML4T p"
proof -
  obtain p1 where p1: "pmm_alloc p = Some (a, p1)" "p' = clear_page a p1"
    using assms(2,3) by (auto simp: pmm_calloc_def split: bind_splits if_splits)
  then have "pmm_rep F p1 (insert a U)" using pmm_alloc_rep[OF assms(1)] assms(3) by auto
  then have "a < phys_limit" using pmm_rep_page by blast
  then have "V2P (P2V a) = a" by (intro V2P_P2V) (simp add: phys_limit_def)
  then show ?thesis using pmm_alloc_pmem[OF p1(1)] p1(2) by (simp add: clear_page_def)
qed

end
