(* ===== verification/Vmm.thy ===== *)
theory Vmm
  imports Pmm
begin

text \<open>
  The virtual memory manager, \<open>src/kernel/memory/vmm.c\<close>: the four-level page
  tables. A table is a page of physical memory, reached through its address in
  the linear window; its entries are 64 bit words.
\<close>

section \<open>Operations\<close>

text \<open>Reading and writing \<open>tab[i]\<close>, \<open>tab\<close> a virtual address.\<close>

definition rd :: "pm \<Rightarrow> nat \<Rightarrow> nat \<Rightarrow> nat" where
  "rd p tab i = pmem p (V2P tab) i"

definition wr :: "pm \<Rightarrow> nat \<Rightarrow> nat \<Rightarrow> nat \<Rightarrow> pm" where
  "wr p tab i e = p\<lparr>pmem := (pmem p)(V2P tab := (pmem p (V2P tab))(i := e))\<rparr>"

definition init_vmm :: "pm \<Rightarrow> pm" where
  "init_vmm p = p\<lparr>kernel_PML4T := 0x1000\<rparr>"

definition vmm_get_kernel_pml4t :: "pm \<Rightarrow> nat" where
  "vmm_get_kernel_pml4t p = kernel_PML4T p"

definition vmm_get_kernel_pdpt :: "pm \<Rightarrow> nat" where
  "vmm_get_kernel_pdpt p = rd p (P2V (kernel_PML4T p)) 511"

text \<open>
  One level of \<open>vmm_find_page\<close>: the entry \<open>i\<close> of \<open>tab\<close>; when it is empty, a new
  zeroed table if \<open>create\<close>, and 0 when there is none. The C function has this code
  three times, for the levels 4, 3 and 2.
\<close>

definition vmm_find_level :: "nat \<Rightarrow> nat \<Rightarrow> bool \<Rightarrow> pm \<Rightarrow> (nat \<times> pm) option" where
  "vmm_find_level tab i create p =
     (if rd p tab i \<noteq> 0 then Some (rd p tab i, p)
      else if \<not> create then Some (0, p)
      else do {
        (a, p1) \<leftarrow> pmm_calloc p;
        if a = 0 then Some (0, p1)
        else let e = ADD_FLAGS a (PAGE_PRESENT OR PAGE_WRITE OR PAGE_USER)
             in Some (e, wr p1 tab i e)
      })"

definition vmm_find_page :: "nat \<Rightarrow> nat \<Rightarrow> bool \<Rightarrow> pm \<Rightarrow> (nat \<times> pm) option" where
  "vmm_find_page PML4T virt_addr create p =
     (let va = STRIP_FLAGS virt_addr in do {
        (PDPT, p1) \<leftarrow> vmm_find_level (P2V PML4T) (PML4T_OFFSET va) create p;
        if PDPT = 0 then Some (0, p1) else do {
          (PDT, p2) \<leftarrow> vmm_find_level (P2V (STRIP_FLAGS PDPT)) (PDPT_OFFSET va) create p1;
          if PDT = 0 then Some (0, p2) else do {
            (PT, p3) \<leftarrow> vmm_find_level (P2V (STRIP_FLAGS PDT)) (PDT_OFFSET va) create p2;
            if PT = 0 then Some (0, p3) else Some (P2V (STRIP_FLAGS PT), p3)
          }
        }
      })"

definition pml4_or_kernel :: "nat \<Rightarrow> pm \<Rightarrow> nat" where
  "pml4_or_kernel PML4T p = (if PML4T = 0 then kernel_PML4T p else PML4T)"

definition vmm_get_page :: "nat \<Rightarrow> nat \<Rightarrow> pm \<Rightarrow> (nat \<times> pm) option" where
  "vmm_get_page PML4T virt_addr p = do {
     (PT, p1) \<leftarrow> vmm_find_page (pml4_or_kernel PML4T p) virt_addr False p;
     if PT = 0 then Some (0, p1)
     else Some (STRIP_FLAGS (rd p1 PT (PT_OFFSET virt_addr)), p1)
   }"

definition vmm_set_page :: "nat \<Rightarrow> nat \<Rightarrow> nat \<Rightarrow> nat \<Rightarrow> pm \<Rightarrow> (nat \<times> pm) option" where
  "vmm_set_page PML4T virt_addr phys_addr flags p = do {
     (PT, p1) \<leftarrow> vmm_find_page (pml4_or_kernel PML4T p) virt_addr True p;
     if PT = 0 then Some (0, p1)
     else let flags1 = (if virt_addr \<ge> KERNEL_OFFSET \<and> flags AND PAGE_USER = 0
                        then flags OR PAGE_GLOBAL else flags);
              p2 = wr p1 PT (PT_OFFSET virt_addr) (ADD_FLAGS phys_addr flags1)
          in Some (rd p2 PT (PT_OFFSET virt_addr), p2)
   }"

definition vmm_free_page :: "nat \<Rightarrow> nat \<Rightarrow> pm \<Rightarrow> pm option" where
  "vmm_free_page PML4T virt_addr p = do {
     (PT, p1) \<leftarrow> vmm_find_page (pml4_or_kernel PML4T p) virt_addr True p;
     if PT = 0 then Some p1
     else if rd p1 PT (PT_OFFSET virt_addr) \<noteq> 0 then do {
       p2 \<leftarrow> pmm_free (STRIP_FLAGS (rd p1 PT (PT_OFFSET virt_addr))) p1;
       Some (wr p2 PT (PT_OFFSET virt_addr) 0)
     } else Some p1
   }"

text \<open>\<open>__vmm_clean\<close>, with the indices that are left to visit.\<close>

fun vmm_clean :: "nat \<Rightarrow> nat list \<Rightarrow> nat \<Rightarrow> bool \<Rightarrow> pm \<Rightarrow> pm option" where
  "vmm_clean level [] table table_only p = Some p"
| "vmm_clean level (i # is) table table_only p =
     (let tab = P2V (STRIP_FLAGS table); e = rd p tab i in
      if e \<noteq> 0 \<and> e AND (PAGE_GLOBAL OR PAGE_SHARED) = 0 then
        if level > 1 then do {
          p1 \<leftarrow> vmm_clean (level - 1) [0..<512] e table_only p;
          p2 \<leftarrow> pmm_free (STRIP_FLAGS (rd p1 tab i)) p1;
          vmm_clean level is table table_only (wr p2 tab i 0)
        }
        else if table_only then vmm_clean level is table table_only p
        else do {
          p2 \<leftarrow> pmm_free (STRIP_FLAGS (rd p tab i)) p;
          vmm_clean level is table table_only (wr p2 tab i 0)
        }
      else vmm_clean level is table table_only p)"

definition vmm_clean_page_table :: "nat \<Rightarrow> bool \<Rightarrow> pm \<Rightarrow> (int \<times> pm) option" where
  "vmm_clean_page_table PML4T tables_only p =
     (if PML4T = 0 then Some (-1, p)
      else do { p1 \<leftarrow> vmm_clean 4 [0..<512] PML4T tables_only p; Some (0, p1) })"

section \<open>The tree of tables\<close>

text \<open>Following the indices \<open>is\<close> from the table \<open>t\<close>.\<close>

fun walk :: "pm \<Rightarrow> nat \<Rightarrow> nat list \<Rightarrow> nat option" where
  "walk p t [] = Some t"
| "walk p t (i # is) = (if pmem p t i = 0 then None else walk p (STRIP_FLAGS (pmem p t i)) is)"

lemma walk_append: "walk p t (xs @ ys) = Option.bind (walk p t xs) (\<lambda>u. walk p u ys)"
  by (induction xs arbitrary: t) auto

lemma walk_snoc:
  "walk p t (xs @ [i]) = Option.bind (walk p t xs)
     (\<lambda>u. if pmem p u i = 0 then None else Some (STRIP_FLAGS (pmem p u i)))"
  by (cases "walk p t xs") (simp_all add: walk_append)

text \<open>
  The invariant of a page table tree: every table of the three upper levels and
  every leaf table is a page in use, and is reached in one way only.
\<close>

definition vm_inv :: "pm \<Rightarrow> nat \<Rightarrow> nat set \<Rightarrow> bool" where
  "vm_inv p root U \<longleftrightarrow>
     (\<forall>is t. length is \<le> 3 \<longrightarrow> walk p root is = Some t \<longrightarrow> t \<in> U) \<and>
     (\<forall>is js t. length is \<le> 3 \<longrightarrow> length js \<le> 3 \<longrightarrow> walk p root is = Some t \<longrightarrow>
        walk p root js = Some t \<longrightarrow> is = js)"

text \<open>The entry that translates a virtual address, 0 when there is none.\<close>

definition indices :: "nat \<Rightarrow> nat list" where
  "indices va = [PML4T_OFFSET va, PDPT_OFFSET va, PDT_OFFSET va]"

definition lookup_entry :: "pm \<Rightarrow> nat \<Rightarrow> nat \<Rightarrow> nat" where
  "lookup_entry p root va =
     (case walk p root (indices va) of None \<Rightarrow> 0 | Some t \<Rightarrow> pmem p t (PT_OFFSET va))"

lemma vm_inv_in: "vm_inv p root U \<Longrightarrow> length is \<le> 3 \<Longrightarrow> walk p root is = Some t \<Longrightarrow> t \<in> U"
  by (simp add: vm_inv_def)

lemma vm_inv_inj:
  "vm_inv p root U \<Longrightarrow> length is \<le> 3 \<Longrightarrow> length js \<le> 3 \<Longrightarrow> walk p root is = Some t \<Longrightarrow>
     walk p root js = Some t \<Longrightarrow> is = js"
  by (simp add: vm_inv_def)

text \<open>A new table \<open>a\<close>, all zero, at the empty entry \<open>i\<close> of the table at \<open>is\<close>.\<close>

lemma walk_new_table:
  assumes inv: "vm_inv p root U" and "is": "length is < 3" "walk p root is = Some t" "pmem p t i = 0"
    and a: "a \<notin> U" "STRIP_FLAGS e = a" "e \<noteq> 0"
    and p': "pmem p' = (pmem p)(a := \<lambda>_. 0, t := (pmem p t)(i := e))"
    and js: "length js \<le> 3"
  shows "walk p' root js = (if js = is @ [i] then Some a else walk p root js)"
  using js
proof (induction js rule: rev_induct)
  case (snoc j js)
  have "t \<in> U" using vm_inv_in[OF inv _ "is"(2)] "is"(1) by simp
  then have ta: "t \<noteq> a" using a(1) by auto
  have IH: "walk p' root js = (if js = is @ [i] then Some a else walk p root js)"
    using snoc by simp
  show ?case
  proof (cases "js = is @ [i]")
    case True
    have n: "walk p root js = None" using True "is"(2,3) by (simp add: walk_snoc)
    have s: "walk p' root js = Some a" by (subst IH) (simp add: True)
    have z: "pmem p' a j = 0" using p' ta by simp
    have "walk p' root (js @ [j]) = None" "walk p root (js @ [j]) = None"
      using z by (simp_all add: walk_snoc n s)
    moreover have "js @ [j] \<noteq> is @ [i]" using True by simp
    ultimately show ?thesis by (simp only: if_False)
  next
    case False
    show ?thesis
    proof (cases "walk p root js")
      case None
      then show ?thesis using IH False "is"(2) by (auto simp: walk_snoc)
    next
      case (Some u)
      have "u \<in> U" using vm_inv_in[OF inv _ Some] snoc.prems by simp
      then have ua: "u \<noteq> a" using a(1) by auto
      have "u = t \<longleftrightarrow> js = is"
        using vm_inv_inj[OF inv _ _ Some, of "is"] "is"(1,2) snoc.prems Some by auto
      then show ?thesis
        using IH False Some ua p' ta a "is"(2,3) by (auto simp: walk_snoc)
    qed
  qed
qed simp

lemma vm_inv_new_table:
  assumes inv: "vm_inv p root U" and "is": "length is < 3" "walk p root is = Some t" "pmem p t i = 0"
    and a: "a \<notin> U" "STRIP_FLAGS e = a" "e \<noteq> 0"
    and p': "pmem p' = (pmem p)(a := \<lambda>_. 0, t := (pmem p t)(i := e))"
  shows "vm_inv p' root (insert a U)" "lookup_entry p' root va = lookup_entry p root va"
proof -
  note w = walk_new_table[OF inv "is" a p']
  have none: "walk p root js \<noteq> Some a" if "length js \<le> 3" for js
    using vm_inv_in[OF inv that] a(1) by auto
  show "vm_inv p' root (insert a U)"
    unfolding vm_inv_def
  proof (intro conjI allI impI)
    fix js u assume "length js \<le> 3" "walk p' root js = Some u"
    then show "u \<in> insert a U" using w[of js] vm_inv_in[OF inv, of js] by (auto split: if_splits)
  next
    fix js ks u assume *: "length js \<le> 3" "length ks \<le> 3" "walk p' root js = Some u" "walk p' root ks = Some u"
    then show "js = ks"
      using w[of js] w[of ks] none[of js] none[of ks] vm_inv_inj[OF inv, of js ks u]
      by (auto split: if_splits)
  qed
  have idx: "length (indices va) = 3" by (simp add: indices_def)
  have z: "walk p root (is @ [i]) = None" using "is"(2,3) by (simp add: walk_snoc)
  show "lookup_entry p' root va = lookup_entry p root va"
  proof (cases "indices va = is @ [i]")
    case True
    have "t \<in> U" using vm_inv_in[OF inv _ "is"(2)] "is"(1) by simp
    then have "pmem p' a (PT_OFFSET va) = 0" using p' a(1) by auto
    then show ?thesis using w[of "indices va"] True z idx by (simp add: lookup_entry_def)
  next
    case False
    have "u \<noteq> a \<and> u \<noteq> t" if "walk p root (indices va) = Some u" for u
      using that none[of "indices va"] vm_inv_inj[OF inv, of "indices va" "is" u] "is" idx by auto
    then show ?thesis
      using w[of "indices va"] False idx p' by (auto simp: lookup_entry_def split: option.splits)
  qed
qed

section \<open>Finding and creating tables\<close>

lemma V2P_P2V_used: "pmm_rep F p U \<Longrightarrow> t \<in> U \<Longrightarrow> V2P (P2V t) = t"
  using pmm_rep_page[of F p U t] by (intro V2P_P2V) (simp add: phys_limit_def)

lemma P2V_nonzero [simp]: "P2V t \<noteq> 0"
  by (simp add: P2V_def KERNEL_MAP_BASE_def or_eq_0_iff)

lemma new_entry:
  assumes "PAGE_SIZE dvd a" "a < phys_limit"
  shows "ADD_FLAGS a (PAGE_PRESENT OR PAGE_WRITE OR PAGE_USER) = a + 7"
    "STRIP_FLAGS (a + 7) = a"
proof -
  have f: "PAGE_PRESENT OR PAGE_WRITE OR PAGE_USER = 7"
    by (simp add: PAGE_PRESENT_def PAGE_WRITE_def PAGE_USER_def)
  show "ADD_FLAGS a (PAGE_PRESENT OR PAGE_WRITE OR PAGE_USER) = a + 7"
    unfolding f using assms by (intro ADD_FLAGS_eq) (simp_all add: PAGE_SIZE_def)
  have "7 < PAGE_SIZE" by (simp add: PAGE_SIZE_def)
  then have m: "(a + 7) mod PAGE_SIZE = 7" using assms(1) by simp
  have "a + 7 < 2 ^ 64" using assms(2) by (simp add: phys_limit_def)
  from STRIP_FLAGS_eq[OF this] show "STRIP_FLAGS (a + 7) = a" unfolding m by simp
qed

text \<open>
  What \<open>vmm_find_page\<close> does to the machine: it may take pages for new tables, and
  no address is translated in another way.
\<close>

definition vm_grown :: "ptr set \<Rightarrow> nat \<Rightarrow> pm \<Rightarrow> nat set \<Rightarrow> pm \<Rightarrow> nat set \<Rightarrow> bool" where
  "vm_grown F root p U p' U' \<longleftrightarrow> U \<subseteq> U' \<and> pmm_rep F p' U' \<and> vm_inv p' root U' \<and>
     kernel_PML4T p' = kernel_PML4T p \<and> (\<forall>va. lookup_entry p' root va = lookup_entry p root va)"

lemma vm_grown_refl: "pmm_rep F p U \<Longrightarrow> vm_inv p root U \<Longrightarrow> vm_grown F root p U p U"
  by (simp add: vm_grown_def)

lemma vm_grown_trans:
  "vm_grown F root p U p' U' \<Longrightarrow> vm_grown F root p' U' p'' U'' \<Longrightarrow> vm_grown F root p U p'' U''"
  by (auto simp: vm_grown_def)

lemma walk_pmem: "pmem p' = pmem p \<Longrightarrow> walk p' t is = walk p t is"
  by (induction "is" arbitrary: t) simp_all

lemma vm_inv_pmem: "pmem p' = pmem p \<Longrightarrow> vm_inv p' root U = vm_inv p root U"
  by (simp add: vm_inv_def walk_pmem[of p' p])

lemma lookup_pmem: "pmem p' = pmem p \<Longrightarrow> lookup_entry p' root va = lookup_entry p root va"
  by (simp add: lookup_entry_def walk_pmem[of p' p] split: option.split)

lemma pmm_calloc_none_pmem:
  "pmm_calloc p = Some (0, p') \<Longrightarrow> pmem p' = pmem p \<and> kernel_PML4T p' = kernel_PML4T p"
  by (auto simp: pmm_calloc_def dest: pmm_alloc_pmem split: bind_splits if_splits)

lemma vmm_find_level_ok:
  assumes rep: "pmm_rep F p U" and inv: "vm_inv p root U"
    and "is": "length is < 3" "walk p root is = Some t"
  shows "\<exists>e p' U'. vmm_find_level (P2V t) i create p = Some (e, p') \<and> vm_grown F root p U p' U' \<and>
    walk p' root (is @ [i]) = (if e = 0 then None else Some (STRIP_FLAGS e)) \<and>
    (\<not> create \<or> walk p root (is @ [i]) \<noteq> None \<longrightarrow> p' = p)"
proof -
  have t: "t \<in> U" using vm_inv_in[OF inv _ "is"(2)] "is"(1) by simp
  have v: "V2P (P2V t) = t" by (rule V2P_P2V_used[OF rep t])
  have w: "walk p root (is @ [i]) = (if pmem p t i = 0 then None else Some (STRIP_FLAGS (pmem p t i)))"
    using "is"(2) by (simp add: walk_snoc)
  show ?thesis
  proof (cases "pmem p t i \<noteq> 0 \<or> \<not> create")
    case True
    then have "vmm_find_level (P2V t) i create p = Some (pmem p t i, p)"
      by (auto simp: vmm_find_level_def rd_def v)
    then show ?thesis using w vm_grown_refl[OF rep inv] by auto
  next
    case False
    from pc.palloc_obtains[OF rep] show ?thesis
    proof cases
      case none: (1 p1)
      have "vmm_find_level (P2V t) i create p = Some (0, p1)"
        using False none(1) by (simp add: vmm_find_level_def rd_def v)
      moreover have e: "pmem p1 = pmem p" "kernel_PML4T p1 = kernel_PML4T p"
        using pmm_calloc_none_pmem[OF none(1)] by auto
      have "vm_grown F root p U p1 U"
        using none(2) inv vm_inv_pmem[OF e(1)] lookup_pmem[OF e(1)] e(2) by (simp add: vm_grown_def)
      moreover have "walk p1 root (is @ [i]) = None" using w False walk_pmem[OF e(1)] by simp
      ultimately show ?thesis using w False by auto
    next
      case page: (2 a p1)
      have a: "PAGE_SIZE dvd a" "a < phys_limit" using pmm_rep_page[OF page(4), of a] by auto
      note ne = new_entry[OF a]
      have m: "pmem p1 = (pmem p)(a := \<lambda>_. 0)" "kernel_PML4T p1 = kernel_PML4T p"
        using pmm_calloc_pmem[OF rep page(1,2)] by auto
      let ?p' = "wr p1 (P2V t) i (a + 7)"
      have ta: "t \<noteq> a" using t page(3) by auto
      have p': "pmem ?p' = (pmem p)(a := \<lambda>_. 0, t := (pmem p t)(i := a + 7))"
        using ta by (simp add: wr_def v m(1))
      have z: "pmem p t i = 0" using False by simp
      have "vmm_find_level (P2V t) i create p = Some (a + 7, ?p')"
        using False page(1,2) by (simp add: vmm_find_level_def rd_def v ne Let_def)
      moreover have "vm_grown F root p U ?p' (insert a U)"
        using vm_inv_new_table[OF inv "is" z page(3) ne(2) _ p'] page(4) m(2)
        by (auto simp: vm_grown_def wr_def)
      moreover have "walk ?p' root (is @ [i]) = Some a"
        using walk_new_table[OF inv "is" z page(3) ne(2) _ p', of "is @ [i]"] "is"(1) by simp
      ultimately show ?thesis using w z ne(2) False by auto
    qed
  qed
qed

lemma strip_drop:
  assumes "v < 2 ^ 64" "12 \<le> k"
  shows "drop_bit k (STRIP_FLAGS v) = drop_bit k v"
proof -
  have "STRIP_FLAGS v = 2 ^ 12 * (v div 2 ^ 12)"
    using STRIP_FLAGS_eq[OF assms(1)] by (simp add: PAGE_SIZE_def minus_mod_eq_mult_div)
  moreover have "(2 :: nat) ^ k = 2 ^ 12 * 2 ^ (k - 12)"
    by (metis assms(2) le_add_diff_inverse power_add)
  ultimately show ?thesis
    by (simp add: drop_bit_eq_div div_mult2_eq)
qed

lemma indices_strip: "v < 2 ^ 64 \<Longrightarrow> indices (STRIP_FLAGS v) = indices v"
  by (simp add: indices_def PML4T_OFFSET_def PDPT_OFFSET_def PDT_OFFSET_def strip_drop)

lemma vmm_find_page_ok:
  assumes rep: "pmm_rep F p U" and inv: "vm_inv p root U" and va: "va < 2 ^ 64"
  shows "\<exists>t p' U'. vmm_find_page root va create p = Some (t, p') \<and> vm_grown F root p U p' U' \<and>
    (\<not> create \<or> walk p root (indices va) \<noteq> None \<longrightarrow> p' = p) \<and>
    (t = 0 \<and> walk p' root (indices va) = None \<or>
     (\<exists>pt. t = P2V pt \<and> walk p' root (indices va) = Some pt))"
proof -
  let ?v = "STRIP_FLAGS va"
  have idx: "indices va = [PML4T_OFFSET ?v, PDPT_OFFSET ?v, PDT_OFFSET ?v]"
    using indices_strip[OF va] by (simp add: indices_def)
  have r0: "length ([] :: nat list) < 3" "walk p root [] = Some root" by simp_all
  obtain e1 p1 U1 where l1: "vmm_find_level (P2V root) (PML4T_OFFSET ?v) create p = Some (e1, p1)"
    and g1: "vm_grown F root p U p1 U1"
    and w1: "walk p1 root [PML4T_OFFSET ?v] = (if e1 = 0 then None else Some (STRIP_FLAGS e1))"
    and c1: "\<not> create \<or> walk p root [PML4T_OFFSET ?v] \<noteq> None \<longrightarrow> p1 = p"
    using vmm_find_level_ok[OF rep inv r0, of "PML4T_OFFSET ?v" create] by (auto simp del: walk.simps)
  have pre: "walk p root [PML4T_OFFSET ?v] \<noteq> None" "walk p root [PML4T_OFFSET ?v, PDPT_OFFSET ?v] \<noteq> None"
    if "walk p root (indices va) \<noteq> None"
    using that by (auto simp: idx split: if_splits)
  show ?thesis
  proof (cases "e1 = 0")
    case True
    have n: "walk p1 root (indices va) = None"
      using w1 True walk_append[of p1 root "[PML4T_OFFSET ?v]" "[PDPT_OFFSET ?v, PDT_OFFSET ?v]"]
      by (simp add: idx del: walk.simps)
    have "vmm_find_page root va create p = Some (0, p1)"
      using l1 True by (simp add: vmm_find_page_def Let_def)
    then show ?thesis using g1 c1 n pre by blast
  next
    case e1: False
    have h1: "pmm_rep F p1 U1" "vm_inv p1 root U1" using g1 by (auto simp: vm_grown_def)
    obtain e2 p2 U2 where l2: "vmm_find_level (P2V (STRIP_FLAGS e1)) (PDPT_OFFSET ?v) create p1 = Some (e2, p2)"
      and g2: "vm_grown F root p1 U1 p2 U2"
      and w2: "walk p2 root [PML4T_OFFSET ?v, PDPT_OFFSET ?v] = (if e2 = 0 then None else Some (STRIP_FLAGS e2))"
      and c2: "\<not> create \<or> walk p1 root [PML4T_OFFSET ?v, PDPT_OFFSET ?v] \<noteq> None \<longrightarrow> p2 = p1"
      using vmm_find_level_ok[OF h1, of "[PML4T_OFFSET ?v]" "STRIP_FLAGS e1" "PDPT_OFFSET ?v" create] w1 e1
      by (auto simp del: walk.simps)
    show ?thesis
    proof (cases "e2 = 0")
      case True
      have n: "walk p2 root (indices va) = None"
        using w2 True walk_append[of p2 root "[PML4T_OFFSET ?v, PDPT_OFFSET ?v]" "[PDT_OFFSET ?v]"]
        by (simp add: idx del: walk.simps)
      have "vmm_find_page root va create p = Some (0, p2)"
        using l1 e1 l2 True by (simp add: vmm_find_page_def Let_def)
      then show ?thesis using vm_grown_trans[OF g1 g2] c1 c2 n pre by blast
    next
      case e2: False
      have h2: "pmm_rep F p2 U2" "vm_inv p2 root U2" using g2 by (auto simp: vm_grown_def)
      obtain e3 p3 U3 where l3: "vmm_find_level (P2V (STRIP_FLAGS e2)) (PDT_OFFSET ?v) create p2 = Some (e3, p3)"
        and g3: "vm_grown F root p2 U2 p3 U3"
        and w3: "walk p3 root (indices va) = (if e3 = 0 then None else Some (STRIP_FLAGS e3))"
        and c3: "\<not> create \<or> walk p2 root (indices va) \<noteq> None \<longrightarrow> p3 = p2"
        using vmm_find_level_ok[OF h2, of "[PML4T_OFFSET ?v, PDPT_OFFSET ?v]" "STRIP_FLAGS e2" "PDT_OFFSET ?v" create] w2 e2
        by (auto simp: idx simp del: walk.simps)
      have "vmm_find_page root va create p = Some (if e3 = 0 then 0 else P2V (STRIP_FLAGS e3), p3)"
        using l1 e1 l2 e2 l3 by (simp add: vmm_find_page_def Let_def)
      moreover have "vm_grown F root p U p3 U3" by (rule vm_grown_trans[OF vm_grown_trans[OF g1 g2] g3])
      moreover have "p3 = p" if "\<not> create \<or> walk p root (indices va) \<noteq> None"
        using that c1 c2 c3 pre by metis
      ultimately show ?thesis using w3 by (cases "e3 = 0") auto
    qed
  qed
qed

section \<open>Mapping, looking up, unmapping\<close>

text \<open>Writing an entry of a leaf table.\<close>

definition same_page :: "nat \<Rightarrow> nat \<Rightarrow> bool" where
  "same_page va vb \<longleftrightarrow> indices va = indices vb \<and> PT_OFFSET va = PT_OFFSET vb"

lemma walk_leaf_write:
  assumes inv: "vm_inv p root U" and t: "walk p root is = Some t" "length is = 3"
    and p': "pmem p' = (pmem p)(t := tab)" and js: "length js \<le> 3"
  shows "walk p' root js = walk p root js"
  using js
proof (induction js rule: rev_induct)
  case (snoc j js)
  show ?case
  proof (cases "walk p root js")
    case (Some u)
    have "u \<noteq> t" using vm_inv_inj[OF inv _ _ Some, of "is"] t snoc.prems by auto
    then show ?thesis using snoc Some p' by (simp add: walk_snoc)
  qed (use snoc in \<open>simp add: walk_snoc\<close>)
qed simp

lemma vm_leaf_write:
  assumes inv: "vm_inv p root U" and t: "walk p root (indices va) = Some t"
    and p': "pmem p' = (pmem p)(t := (pmem p t)(PT_OFFSET va := e))"
  shows "vm_inv p' root U"
    "lookup_entry p' root vb = (if same_page va vb then e else lookup_entry p root vb)"
proof -
  have l: "length (indices vb) = 3" for vb by (simp add: indices_def)
  note w = walk_leaf_write[OF inv t l p']
  show "vm_inv p' root U" unfolding vm_inv_def
    using w vm_inv_in[OF inv] vm_inv_inj[OF inv] by metis
  have "indices vb = indices va" if "walk p root (indices vb) = Some t"
    using vm_inv_inj[OF inv _ _ that t] l by simp
  then show "lookup_entry p' root vb = (if same_page va vb then e else lookup_entry p root vb)"
    using w[of "indices vb"] l t p'
    by (auto simp: lookup_entry_def same_page_def split: option.splits)
qed

text \<open>The flags that \<open>vmm_set_page\<close> stores: kernel pages are global.\<close>

definition stored_flags :: "nat \<Rightarrow> nat \<Rightarrow> nat" where
  "stored_flags va flags =
     (if va \<ge> KERNEL_OFFSET \<and> flags AND PAGE_USER = 0 then flags OR PAGE_GLOBAL else flags)"

lemma rd_wr [simp]: "rd (wr p tab i e) tab i = e"
  by (simp add: rd_def wr_def)

lemma pmm_rep_wr [simp]: "pmm_rep F (wr p tab i e) U = pmm_rep F p U"
  by (simp add: wr_def)

lemma wr_used:
  assumes "pmm_rep F p U" "t \<in> U"
  shows "pmem (wr p (P2V t) i e) = (pmem p)(t := (pmem p t)(i := e))" "rd p (P2V t) i = pmem p t i"
  using V2P_P2V_used[OF assms] by (simp_all add: wr_def rd_def)

lemma indices_length [simp]: "length (indices va) = 3"
  by (simp add: indices_def)

lemma vmm_set_page_ok:
  assumes rep: "pmm_rep F p U" and inv: "vm_inv p root U" and va: "va < 2 ^ 64"
    and root: "pml4_or_kernel pml4 p = root"
  shows "\<exists>r p' U'. vmm_set_page pml4 va pa flags p = Some (r, p') \<and> U \<subseteq> U' \<and> pmm_rep F p' U' \<and>
    vm_inv p' root U' \<and> kernel_PML4T p' = kernel_PML4T p \<and>
    (r = 0 \<and> (\<forall>vb. lookup_entry p' root vb = lookup_entry p root vb) \<or>
     r = ADD_FLAGS pa (stored_flags va flags) \<and>
     (\<forall>vb. lookup_entry p' root vb = (if same_page va vb then r else lookup_entry p root vb)))"
proof -
  obtain t p1 U1 where f: "vmm_find_page root va True p = Some (t, p1)" and g: "vm_grown F root p U p1 U1"
    and t: "t = 0 \<or> (\<exists>pt. t = P2V pt \<and> walk p1 root (indices va) = Some pt)"
    using vmm_find_page_ok[OF rep inv va, of True] by auto
  have h: "U \<subseteq> U1" "pmm_rep F p1 U1" "vm_inv p1 root U1" "kernel_PML4T p1 = kernel_PML4T p"
    "\<forall>vb. lookup_entry p1 root vb = lookup_entry p root vb"
    using g by (simp_all add: vm_grown_def)
  show ?thesis
  proof (cases "t = 0")
    case True
    then show ?thesis using f h root by (auto simp: vmm_set_page_def)
  next
    case False
    then obtain pt where pt: "t = P2V pt" "walk p1 root (indices va) = Some pt" using t by blast
    have "pt \<in> U1" using vm_inv_in[OF h(3) _ pt(2)] by simp
    note w = wr_used[OF h(2) this]
    let ?e = "ADD_FLAGS pa (stored_flags va flags)"
    let ?p2 = "wr p1 t (PT_OFFSET va) ?e"
    have "vmm_set_page pml4 va pa flags p = Some (?e, ?p2)"
      using f root False by (simp add: vmm_set_page_def stored_flags_def Let_def)
    moreover have "vm_inv ?p2 root U1" "\<forall>vb. lookup_entry ?p2 root vb =
        (if same_page va vb then ?e else lookup_entry p root vb)"
      using vm_leaf_write[OF h(3) pt(2), of ?p2 ?e] w(1) h(5) pt(1) by simp_all
    moreover have "kernel_PML4T ?p2 = kernel_PML4T p" using h(4) by (simp add: wr_def)
    ultimately show ?thesis using h(1,2) by (auto intro!: exI[of _ U1])
  qed
qed

lemma vmm_get_page_ok:
  assumes rep: "pmm_rep F p U" and inv: "vm_inv p root U" and va: "va < 2 ^ 64"
    and root: "pml4_or_kernel pml4 p = root"
  shows "vmm_get_page pml4 va p = Some (STRIP_FLAGS (lookup_entry p root va), p)"
proof -
  obtain t where f: "vmm_find_page root va False p = Some (t, p)"
    and t: "t = 0 \<and> walk p root (indices va) = None \<or> (\<exists>pt. t = P2V pt \<and> walk p root (indices va) = Some pt)"
    using vmm_find_page_ok[OF rep inv va, of False] by auto
  have z: "STRIP_FLAGS 0 = 0" by (simp add: STRIP_FLAGS_def)
  from t show ?thesis
  proof
    assume "t = 0 \<and> walk p root (indices va) = None"
    then show ?thesis using f root z by (simp add: vmm_get_page_def lookup_entry_def)
  next
    assume "\<exists>pt. t = P2V pt \<and> walk p root (indices va) = Some pt"
    then obtain pt where pt: "t = P2V pt" "walk p root (indices va) = Some pt" by blast
    have "pt \<in> U" using vm_inv_in[OF inv _ pt(2)] by simp
    then show ?thesis
      using f root pt wr_used(2)[OF rep] by (simp add: vmm_get_page_def lookup_entry_def)
  qed
qed

text \<open>Unmapping a page that is no table of the tree gives it back.\<close>

lemma vmm_free_page_ok:
  assumes rep: "pmm_rep F p U" and inv: "vm_inv p root U" and va: "va < 2 ^ 64"
    and root: "pml4_or_kernel pml4 p = root"
    and e: "lookup_entry p root va = e" "e \<noteq> 0" "STRIP_FLAGS e = a"
    and a: "a \<in> U" "\<And>is. length is \<le> 3 \<Longrightarrow> walk p root is \<noteq> Some a"
  shows "\<exists>p'. vmm_free_page pml4 va p = Some p' \<and> pmm_rep F p' (U - {a}) \<and> vm_inv p' root (U - {a}) \<and>
    (\<forall>vb. lookup_entry p' root vb = (if same_page va vb then 0 else lookup_entry p root vb))"
proof -
  have some: "walk p root (indices va) \<noteq> None"
    using e(1,2) by (cases "walk p root (indices va)") (auto simp: lookup_entry_def)
  then obtain pt where f: "vmm_find_page root va True p = Some (P2V pt, p)"
    and pt: "walk p root (indices va) = Some pt"
    using vmm_find_page_ok[OF rep inv va, of True] by auto
  have "pt \<in> U" using vm_inv_in[OF inv _ pt] by simp
  note w = wr_used[OF rep this]
  have pe: "pmem p pt (PT_OFFSET va) = e" using e(1) pt by (simp add: lookup_entry_def)
  obtain p2 where p2: "pmm_free a p = Some p2" "pmm_rep F p2 (U - {a})"
    using pmm_free_rep[OF rep a(1)] by blast
  have m2: "pmem p2 = pmem p" using p2(1) by (auto simp: pmm_free_def split: if_splits bind_splits)
  let ?p3 = "wr p2 (P2V pt) (PT_OFFSET va) 0"
  have "vmm_free_page pml4 va p = Some ?p3"
    using f root w(2) pe e p2(1) by (simp add: vmm_free_page_def)
  moreover have inv2: "vm_inv p2 root (U - {a})"
    using inv a(2) walk_pmem[OF m2] unfolding vm_inv_def by (metis DiffI singletonD)
  have "pt \<in> U - {a}" using \<open>pt \<in> U\<close> a(2)[of "indices va"] pt by auto
  note w2 = wr_used[OF p2(2) this]
  have pt2: "walk p2 root (indices va) = Some pt" using pt walk_pmem[OF m2] by simp
  have "vm_inv ?p3 root (U - {a})" "\<forall>vb. lookup_entry ?p3 root vb = (if same_page va vb then 0 else lookup_entry p root vb)"
    using vm_leaf_write[OF inv2 pt2 w2(1)] lookup_pmem[OF m2] by simp_all
  ultimately show ?thesis using p2(2) by auto
qed

lemma strip_0 [simp]: "STRIP_FLAGS 0 = 0"
  by (simp add: STRIP_FLAGS_def)

lemma STRIP_ADD_FLAGS_page:
  assumes "PAGE_SIZE dvd a" "a < phys_limit"
  shows "STRIP_FLAGS (ADD_FLAGS a f) = a"
proof -
  have "f AND PAGE_FLAG_MASK < PAGE_SIZE"
    by (simp add: PAGE_FLAG_MASK_def and_0xfff PAGE_SIZE_def)
  moreover have "ADD_FLAGS a f = ADD_FLAGS a (f AND PAGE_FLAG_MASK)"
    by (simp add: ADD_FLAGS_def and.assoc)
  ultimately show ?thesis
    using STRIP_ADD_FLAGS(1)[OF assms(1)] assms(2) by (simp add: phys_limit_def PAGE_SIZE_def)
qed

section \<open>Runs of the page allocator\<close>

text \<open>Calls of the allocator, with the pages in use; what is freed was in use.\<close>

inductive pmm_run :: "pm \<Rightarrow> nat set \<Rightarrow> pm \<Rightarrow> nat set \<Rightarrow> bool" for p0 :: pm and U0 :: "nat set" where
  prun_start: "pmm_run p0 U0 p0 U0"
| prun_none: "pmm_run p0 U0 p U \<Longrightarrow> pmm_alloc p = Some (0, p') \<Longrightarrow> pmm_run p0 U0 p' U"
| prun_alloc: "pmm_run p0 U0 p U \<Longrightarrow> pmm_alloc p = Some (a, p') \<Longrightarrow> a \<noteq> 0 \<Longrightarrow>
    pmm_run p0 U0 p' (insert a U)"
| prun_free: "pmm_run p0 U0 p U \<Longrightarrow> a \<in> U \<Longrightarrow> pmm_free a p = Some p' \<Longrightarrow> pmm_run p0 U0 p' (U - {a})"

lemma pmm_run_rep: "pmm_run p0 U0 p U \<Longrightarrow> pmm_rep F p0 U0 \<Longrightarrow> pmm_rep F p U"
proof (induction rule: pmm_run.induct)
  case (prun_none p U p')
  then show ?case using pmm_alloc_rep[of F p U] by auto
next
  case (prun_alloc p U a p')
  then show ?case using pmm_alloc_rep[of F p U] by auto
next
  case (prun_free p U a p')
  then show ?case using pmm_free_rep[of F p U a] by auto
qed simp

section \<open>The operations always return\<close>

text \<open>
  A weaker invariant, which holds whatever pages are freed: the free queue and
  the reserved ranges are well formed. Under it every operation returns.
\<close>

definition pm_wf :: "ptr set \<Rightarrow> pm \<Rightarrow> bool" where
  "pm_wf F p \<longleftrightarrow> (\<exists>xs. queue_rep kheap_rep F (last_free_q p) xs) \<and> reserve_ok (resv p)"

lemma pmm_rep_wf: "pmm_rep F p U \<Longrightarrow> pm_wf F p"
  by (auto simp: pmm_rep_def pm_wf_def)

lemma pm_wf_wr [simp]: "pm_wf F (wr p tab i e) = pm_wf F p"
  by (simp add: pm_wf_def wr_def)

lemma pmm_free_wf:
  assumes "pm_wf F p"
  shows "\<exists>p'. pmm_free a p = Some p' \<and> pm_wf F p'"
proof -
  obtain xs where xs: "queue_rep kheap_rep F (last_free_q p) xs" "reserve_ok (resv p)"
    using assms by (auto simp: pm_wf_def)
  obtain q xs' where "queue_enqueue kmalloc (P2V a) (last_free_q p) = Some q" "queue_rep kheap_rep F q xs'"
    using kh.queue_enqueue_rep[OF xs(1), of "P2V a"] kh.queue_enqueue_drop[OF xs(1), of "P2V a"] by blast
  then show ?thesis using xs by (auto simp: pmm_free_def pm_wf_def)
qed

lemma pmm_alloc_wf:
  assumes "pm_wf F p"
  shows "\<exists>a p'. pmm_alloc p = Some (a, p') \<and> pm_wf F p'"
proof -
  obtain xs where xs: "queue_rep kheap_rep F (last_free_q p) xs" "reserve_ok (resv p)"
    using assms by (auto simp: pm_wf_def)
  show ?thesis
  proof (cases xs)
    case Nil
    have front: "\<exists>a p'. pmm_alloc_front p = Some (a, p') \<and> pm_wf F p'"
    proof -
      have s: "\<exists>n. skip_reserved (resv p) a = Some n" for a using skip_reserved_ok[OF xs(2)] by blast
      obtain n1 n2 where n: "skip_reserved (resv p) 0x100000000 = Some n1"
        "skip_reserved (resv p) (next_addr p) = Some n2" using s by blast
      show ?thesis using assms n by (simp add: pmm_alloc_front_def Let_def pm_wf_def)
    qed
    then show ?thesis using kq.empty_rep[OF xs(1)] Nil by (simp add: pmm_alloc_def)
  next
    case (Cons x ys)
    obtain q where "queue_dequeue kfree (last_free_q p) = Some (Some x, q)" "queue_rep kheap_rep F q ys"
      using kq.deq_some xs(1) Cons by blast
    then show ?thesis using kq.empty_rep[OF xs(1)] Cons xs(2) by (auto simp: pmm_alloc_def pm_wf_def)
  qed
qed

lemma pmm_calloc_wf:
  assumes "pm_wf F p"
  shows "\<exists>a p'. pmm_calloc p = Some (a, p') \<and> pm_wf F p'"
proof -
  obtain a p1 where "pmm_alloc p = Some (a, p1)" "pm_wf F p1" using pmm_alloc_wf[OF assms] by blast
  then show ?thesis by (simp add: pmm_calloc_def clear_page_def pm_wf_def)
qed

lemma vmm_find_level_wf:
  assumes "pm_wf F p"
  shows "\<exists>e p'. vmm_find_level tab i create p = Some (e, p') \<and> pm_wf F p'"
proof -
  obtain a p1 where "pmm_calloc p = Some (a, p1)" "pm_wf F p1" using pmm_calloc_wf[OF assms] by blast
  then show ?thesis using assms by (simp add: vmm_find_level_def Let_def)
qed

lemma vmm_find_page_wf:
  assumes "pm_wf F p"
  shows "\<exists>t p'. vmm_find_page root va create p = Some (t, p') \<and> pm_wf F p'"
proof -
  let ?v = "STRIP_FLAGS va"
  obtain e1 p1 where 1: "vmm_find_level (P2V root) (PML4T_OFFSET ?v) create p = Some (e1, p1)" "pm_wf F p1"
    using vmm_find_level_wf[OF assms] by blast
  obtain e2 p2 where 2: "vmm_find_level (P2V (STRIP_FLAGS e1)) (PDPT_OFFSET ?v) create p1 = Some (e2, p2)" "pm_wf F p2"
    using vmm_find_level_wf[OF 1(2)] by blast
  obtain e3 p3 where 3: "vmm_find_level (P2V (STRIP_FLAGS e2)) (PDT_OFFSET ?v) create p2 = Some (e3, p3)" "pm_wf F p3"
    using vmm_find_level_wf[OF 2(2)] by blast
  show ?thesis using 1 2 3 by (simp add: vmm_find_page_def Let_def)
qed

lemma vmm_set_page_wf:
  assumes "pm_wf F p"
  shows "\<exists>r p'. vmm_set_page pml4 va pa flags p = Some (r, p') \<and> pm_wf F p'"
proof -
  obtain t p1 where "vmm_find_page (pml4_or_kernel pml4 p) va True p = Some (t, p1)" "pm_wf F p1"
    using vmm_find_page_wf[OF assms] by blast
  then show ?thesis by (simp add: vmm_set_page_def Let_def)
qed

lemma vmm_get_page_wf:
  assumes "pm_wf F p"
  shows "\<exists>r p'. vmm_get_page pml4 va p = Some (r, p') \<and> pm_wf F p'"
proof -
  obtain t p1 where "vmm_find_page (pml4_or_kernel pml4 p) va False p = Some (t, p1)" "pm_wf F p1"
    using vmm_find_page_wf[OF assms] by blast
  then show ?thesis by (simp add: vmm_get_page_def)
qed

lemma vmm_free_page_wf:
  assumes "pm_wf F p"
  shows "\<exists>p'. vmm_free_page pml4 va p = Some p' \<and> pm_wf F p'"
proof -
  obtain t p1 where t: "vmm_find_page (pml4_or_kernel pml4 p) va True p = Some (t, p1)" "pm_wf F p1"
    using vmm_find_page_wf[OF assms] by blast
  obtain p2 where "pmm_free (STRIP_FLAGS (rd p1 t (PT_OFFSET va))) p1 = Some p2" "pm_wf F p2"
    using pmm_free_wf[OF t(2)] by blast
  then show ?thesis using t by (simp add: vmm_free_page_def)
qed

section \<open>Starting the physical memory manager\<close>

text \<open>
  \<open>init_pmm\<close> of \<open>pmm.c\<close>: the memory map of the boot loader is walked once; every
  page is mapped into the linear window and usable pages behind the front are
  freed.
\<close>

record SMAP_entry =
  BaseAddress :: nat
  Length :: nat
  SType :: nat

partial_function (option) init_pages :: "nat \<Rightarrow> nat \<Rightarrow> nat \<Rightarrow> pm \<Rightarrow> pm option" where
  "init_pages ty end_addr a p =
     (if a < end_addr then do {
        (r, p1) \<leftarrow> vmm_set_page 0 (P2V a) a (PAGE_PRESENT OR PAGE_WRITE) p;
        p2 \<leftarrow> (if ty = USABLE_MEMORY \<and> a > 0x100000 then pmm_free a p1 else Some p1);
        init_pages ty end_addr (w64 (a + PAGE_SIZE)) p2
      } else Some p)"

definition init_pmm_entry :: "nat \<Rightarrow> nat \<Rightarrow> SMAP_entry \<Rightarrow> pm \<Rightarrow> pm option" where
  "init_pmm_entry SMAPsize i e p =
     (let start = BaseAddress e; end_addr = w64 (BaseAddress e + Length e);
          p1 = p\<lparr>total_memory := w64 (total_memory p + Length e)\<rparr>;
          p2 = (if BaseAddress e \<ge> 0x100000 \<and> SType e = USABLE_MEMORY
                then p1\<lparr>total_usable_memory := w64 (total_usable_memory p1 + Length e),
                        next_addr := (if next_addr p1 = 0 then start else next_addr p1),
                        top_32_addr := (if end_addr \<le> 0x100000000 then end_addr else top_32_addr p1),
                        pmm_top_addr := end_addr\<rparr>
                else p1)
      in if i \<noteq> SMAPsize - 1 \<or> SType e = 1 then init_pages (SType e) end_addr start p2 else Some p2)"

fun init_pmm_loop :: "nat \<Rightarrow> nat \<Rightarrow> SMAP_entry list \<Rightarrow> pm \<Rightarrow> pm option" where
  "init_pmm_loop SMAPsize i [] p = Some p"
| "init_pmm_loop SMAPsize i (e # es) p = do {
     p1 \<leftarrow> init_pmm_entry SMAPsize i e p;
     init_pmm_loop SMAPsize (i + 1) es p1
   }"

definition init_pmm :: "SMAP_entry list \<Rightarrow> pm \<Rightarrow> (int \<times> pm) option" where
  "init_pmm SMAPinfo p = do {
     q \<leftarrow> queue_init kmalloc (last_free_q p);
     p1 \<leftarrow> init_pmm_loop (length SMAPinfo) 0 SMAPinfo (p\<lparr>last_free_q := q\<rparr>);
     Some (0, p1)
   }"

section \<open>A concrete machine\<close>

definition pm_boot :: "kheap qstate \<Rightarrow> pm" where
  "pm_boot q = \<lparr>total_memory = 0, total_memory_used = 0, total_usable_memory = 0,
     next_addr = 0x200000, top_32_addr = 0x400000, pmm_top_addr = 0x400000, last_free_q = q,
     resv = reserve_empty, refused = 0, pmem = (\<lambda>_ _. 0), kernel_PML4T = 0x1000\<rparr>"

lemma pm_boot_rep:
  assumes "queue_rep kheap_rep {} q []"
  shows "pmm_rep {} (pm_boot q) {0x1000}"
  unfolding pmm_rep_def using assms reserve_ok_empty
  by (intro conjI exI[of _ "[]"])
     (simp_all add: pm_boot_def page_ok_def phys_limit_def PAGE_SIZE_def)

lemma pm_boot_inv: "vm_inv (pm_boot q) 0x1000 {0x1000}"
proof -
  have w: "walk (pm_boot q) 0x1000 is = (if is = [] then Some 0x1000 else None)" for "is"
    by (cases "is") (simp_all add: pm_boot_def)
  then show ?thesis by (simp add: vm_inv_def split: if_splits)
qed

lemmas pm_boot_one = pm_boot_rep[OF kqueue_one_rep] pm_boot_inv[of kqueue_one]

section \<open>Properties\<close>

text \<open>
  C11. The physical memory manager hands a page to one holder at a time: after
  any sequence of \<open>pmm_alloc\<close> and of \<open>pmm_free\<close> of pages in use, \<open>pmm_alloc\<close>
  returns, and what it returns is 0 or a page-aligned address of the linear
  window that nobody holds.
\<close>

theorem pmm_run_exclusive:
  assumes "pmm_rep F p0 U0" "pmm_run p0 U0 p U"
  shows "\<exists>a p'. pmm_alloc p = Some (a, p') \<and>
    (a = 0 \<or> a \<notin> U \<and> PAGE_SIZE dvd a \<and> V2P (P2V a) = a)"
proof -
  have rep: "pmm_rep F p U" using pmm_run_rep assms by blast
  obtain a p' where "pmm_alloc p = Some (a, p')"
    "a = 0 \<and> pmm_rep F p' U \<or> a \<noteq> 0 \<and> a \<notin> U \<and> pmm_rep F p' (insert a U)"
    using pmm_alloc_rep[OF rep] by blast
  then show ?thesis
    using pmm_rep_page[of F p' "insert a U" a] V2P_P2V_used[of F p' "insert a U" a] by auto
qed

theorem pmm_run_exclusive_witness:
  "\<exists>a p'. pmm_alloc (pm_boot kqueue_one) = Some (a, p') \<and> a \<noteq> 0x1000"
  using pmm_run_exclusive[OF pm_boot_one(1) prun_start] by auto

text \<open>
  C27. Stepping over the reserved ranges ends, in whatever order they lie and
  overlap, and loses no memory: the front moves to the first address that is not
  reserved.
\<close>

theorem skip_reserved_least:
  assumes "reserve_ok r"
  shows "skip_reserved r n = Some (LEAST m. n \<le> m \<and> \<not> reserved r m)"
proof -
  obtain m where m: "skip_reserved r n = Some m" "n \<le> m" "\<not> reserved r m"
    "\<forall>a. n \<le> a \<and> a < m \<longrightarrow> reserved r a"
    using skip_reserved_ok[OF assms, of n] by blast
  have "(LEAST m. n \<le> m \<and> \<not> reserved r m) = m"
    by (rule Least_equality) (use m in \<open>auto simp: not_less[symmetric]\<close>)
  with m(1) show ?thesis by simp
qed

theorem skip_reserved_least_witness:
  "skip_reserved reserve_empty 4096 = Some (LEAST m. 4096 \<le> m \<and> \<not> reserved reserve_empty m)"
  by (rule skip_reserved_least[OF reserve_ok_empty])




definition pm_mapped :: "kheap qstate \<Rightarrow> pm" where
  "pm_mapped q = (pm_boot q)\<lparr>pmem := (\<lambda>t i. if i = 0 \<and> t \<in> {0x1000, 0x2000, 0x3000, 0x4000}
     then t + 0x1003 else 0)\<rparr>"

lemma pm_mapped_walk:
  "walk (pm_mapped q) 0x1000 is = (if length is \<le> 4 \<and> set is \<subseteq> {0}
     then Some (0x1000 * (length is + 1)) else None)"
proof -
  have strip: "STRIP_FLAGS 0x2003 = 0x2000" "STRIP_FLAGS 0x3003 = 0x3000" "STRIP_FLAGS 0x4003 = 0x4000"
    "STRIP_FLAGS 0x5003 = 0x5000"
    by (simp_all add: STRIP_FLAGS_eq PAGE_SIZE_def)
  have m: "pmem (pm_mapped q) t i = (if i = 0 \<and> t \<in> {0x1000, 0x2000, 0x3000, 0x4000} then t + 0x1003 else 0)" for t i
    by (simp add: pm_mapped_def)
  have 5: "walk (pm_mapped q) 0x5000 is = (if is = [] then Some 0x5000 else None)" for "is"
    by (cases "is") (simp_all add: m)
  have 4: "walk (pm_mapped q) 0x4000 is = (if length is \<le> 1 \<and> set is \<subseteq> {0} then Some (0x4000 + 0x1000 * length is) else None)" for "is"
    by (cases "is") (auto simp: 5 strip m)
  have 3: "walk (pm_mapped q) 0x3000 is = (if length is \<le> 2 \<and> set is \<subseteq> {0} then Some (0x3000 + 0x1000 * length is) else None)" for "is"
    by (cases "is") (auto simp: 4 strip m)
  have 2: "walk (pm_mapped q) 0x2000 is = (if length is \<le> 3 \<and> set is \<subseteq> {0} then Some (0x2000 + 0x1000 * length is) else None)" for "is"
    by (cases "is") (auto simp: 3 strip m)
  show ?thesis by (cases "is") (auto simp: 2 strip m)
qed

lemma pm_mapped_ok:
  assumes "queue_rep kheap_rep {} q []"
  shows "pmm_rep {} (pm_mapped q) {0x1000, 0x2000, 0x3000, 0x4000, 0x5000}"
    "vm_inv (pm_mapped q) 0x1000 {0x1000, 0x2000, 0x3000, 0x4000, 0x5000}"
proof -
  show "pmm_rep {} (pm_mapped q) {0x1000, 0x2000, 0x3000, 0x4000, 0x5000}"
    unfolding pmm_rep_def pm_mapped_def using assms reserve_ok_empty
    by (intro conjI exI[of _ "[]"])
       (simp_all add: pm_boot_def page_ok_def phys_limit_def PAGE_SIZE_def)
  have eq: "is = js" if "set is \<subseteq> {0 :: nat}" "set js \<subseteq> {0}" "length is = length js" for "is" js
    using that replicate_length_same[of "is" 0] replicate_length_same[of js 0]
    by (metis singletonD subsetD)
  have t: "0x1000 * (n + 1 :: nat) \<in> {0x1000, 0x2000, 0x3000, 0x4000, 0x5000}" if "n \<le> 3" for n
  proof -
    have "n = 0 \<or> n = 1 \<or> n = 2 \<or> n = 3" using that by linarith
    then show ?thesis by auto
  qed
  show "vm_inv (pm_mapped q) 0x1000 {0x1000, 0x2000, 0x3000, 0x4000, 0x5000}"
    unfolding vm_inv_def pm_mapped_walk
  proof (intro conjI allI impI)
    fix "is" :: "nat list" and u
    assume "length is \<le> 3" "(if length is \<le> 4 \<and> set is \<subseteq> {0} then Some (0x1000 * (length is + 1)) else None) = Some u"
    then show "u \<in> {0x1000, 0x2000, 0x3000, 0x4000, 0x5000}"
      using t[of "length is"] by (metis option.discI option.inject)
  qed (use eq in \<open>auto split: if_splits\<close>)
qed


text \<open>
  C29. \<open>pmm_free\<close> refuses pages above the front but takes the page at the front,
  which was never handed out: it is then allocated twice, first from the queue
  and again from the front. \<open>init_pmm\<close> makes that call for the first usable page
  when it lies above 1 MiB.
\<close>

theorem pmm_free_front_twice:
  assumes rep: "pmm_rep F p U" and q: "queue_rep kheap_rep F (last_free_q p) []"
    and room: "alloc_room kmalloc (last_free_q p)"
    and a: "next_addr p = a" "a < pmm_top_addr p" "a < w64_sub (top_32_addr p) 0x1000" "\<not> reserved (resv p) a"
  shows "\<exists>p1 p2 p3. pmm_free a p = Some p1 \<and> pmm_alloc p1 = Some (a, p2) \<and> pmm_alloc p2 = Some (a, p3)"
proof -
  have lim: "a < phys_limit" "reserve_ok (resv p)" using rep a by (auto simp: pmm_rep_def)
  have v: "V2P (P2V a) = a" using lim by (intro V2P_P2V) (simp add: phys_limit_def)
  obtain q1 where q1: "queue_enqueue kmalloc (P2V a) (last_free_q p) = Some q1" "queue_rep kheap_rep F q1 [P2V a]"
    using kh.queue_enqueue_rep[OF q room, of "P2V a"] by auto
  obtain q2 where q2: "queue_dequeue kfree q1 = Some (Some (P2V a), q2)" "queue_rep kheap_rep F q2 []"
    using kq.deq_some[OF q1(2)] by blast
  let ?p1 = "p\<lparr>last_free_q := q1, total_memory_used := w64_sub (total_memory_used p) PAGE_SIZE\<rparr>"
  let ?p2 = "?p1\<lparr>last_free_q := q2, total_memory_used := w64 (total_memory_used ?p1 + PAGE_SIZE)\<rparr>"
  have "pmm_free a p = Some ?p1" using a(1) q1(1) by (simp add: pmm_free_def)
  moreover have "pmm_alloc ?p1 = Some (a, ?p2)"
    using kq.empty_rep[OF q1(2)] q2(1) v by (simp add: pmm_alloc_def)
  moreover have "skip_reserved (resv p) a = Some a"
    using skip_reserved_ok[OF lim(2), of a] a(4) by (metis le_eq_less_or_eq order_refl)
  then have "\<exists>p3. pmm_alloc ?p2 = Some (a, p3)"
    using kq.empty_rep[OF q2(2)] a by (simp add: pmm_alloc_def pmm_alloc_front_def)
  ultimately show ?thesis by blast
qed

theorem pmm_free_front_twice_witness:
  "\<exists>p1 p2 p3. pmm_free 0x200000 (pm_boot kqueue_one) = Some p1 \<and>
    pmm_alloc p1 = Some (0x200000, p2) \<and> pmm_alloc p2 = Some (0x200000, p3)"
  by (rule pmm_free_front_twice[OF pm_boot_one(1)])
     (use kqueue_one_rep kqueue_one_room in
       \<open>simp_all add: pm_boot_def reserved_def ranges_def reserve_empty_def\<close>)

end
