(* ===== verification/Heap_Grow.thy ===== *)
theory Heap_Grow
  imports Heap_Ops
begin

text \<open>
  Growing a heap at its top: the code that \<open>vmalloc\<close>
  (\<open>src/kernel/memory/vmheap.c\<close>) and \<open>malloc\<close> (\<open>src/libc/stdlib/malloc.c\<close>)
  share word for word. The last free block is extended when it ends at the top;
  otherwise the new pages become a free block of their own.
\<close>

section \<open>The growth step\<close>

text \<open>How the code decides: \<open>prev_block\<close> is the last block the search looked at.\<close>

definition empty_list :: "ptr \<Rightarrow> ptr \<Rightarrow> ptr \<Rightarrow> bool" where
  "empty_list start ht prev_block \<longleftrightarrow> prev_block \<ge> ht \<or> prev_block < start"

definition extend :: "bmem \<Rightarrow> ptr \<Rightarrow> ptr \<Rightarrow> ptr \<Rightarrow> bool" where
  "extend m start ht tail \<longleftrightarrow> \<not> empty_list start ht tail \<and>
     w64 (tail + sizeof_block_info + blk_size (m tail)) = ht"

definition grow_pages :: "bmem \<Rightarrow> ptr \<Rightarrow> ptr \<Rightarrow> ptr \<Rightarrow> nat \<Rightarrow> nat" where
  "grow_pages m start ht tail sz =
     (let needed = (if extend m start ht tail
                    then w64_sub (w64 (sz + sizeof_block_info)) (blk_size (m tail))
                    else w64 (sz + sizeof_block_info * 2))
      in needed div 0x1000 + 1)"

text \<open>The result is the memory, \<open>first_free\<close> and the block to allocate in.\<close>

definition grow_headers ::
    "ptr \<Rightarrow> ptr \<Rightarrow> ptr \<Rightarrow> nat \<Rightarrow> bmem \<Rightarrow> ptr \<Rightarrow> bmem \<times> ptr \<times> ptr" where
  "grow_headers start ht tail pages m ff =
     (let new_top = w64 (ht + pages * 0x1000) in
      if extend m start ht tail
      then (m(tail := (m tail)\<lparr>blk_size := u60 (blk_size (m tail) + pages * 0x1000),
                               next_free := new_top\<rparr>), ff, tail)
      else let m1 = m(ht := (m ht)\<lparr>previous_chunk := 0, is_mmapped := False, non_arena := False,
                                    present := False,
                                    blk_size := u60 (w64_sub (pages * 0x1000) sizeof_block_info),
                                    next_free := new_top\<rparr>);
               m2 = (if \<not> empty_list start ht tail \<and> next_free (m1 tail) \<noteq> ht
                     then m1(tail := (m1 tail)\<lparr>next_free := ht\<rparr>) else m1)
           in (m2, if empty_list start ht tail \<or> ff \<ge> ht then ht else ff, ht))"

section \<open>Both ways keep the heap well formed\<close>

lemma chain_last:
  "chain m p (fs @ [q]) ht \<Longrightarrow> next_free (m q) = ht"
  by (simp add: chain_append)

lemma chain_new_top:
  assumes "chain m p fs ht" "\<forall>f\<in>set fs. f \<noteq> q \<longrightarrow> next_free (m' f) = next_free (m f)"
    "fs = gs @ [q]" "next_free (m' q) = ht'" "q \<notin> set gs"
  shows "chain m' p fs ht'"
proof -
  have "chain m p gs q" using assms(1,3) by (simp add: chain_append)
  then have "chain m' p gs q" using assms by (subst chain_cong[where m = m]) auto
  then show ?thesis using assms(3,4) by (simp add: chain_append)
qed

lemma heap_extend_tail:
  assumes inv: "heap_inv m start ht ff (xs @ [c])" and free: "free_in m c"
    and k: "ht + k < 2 ^ 64" "ht + k < start + 2 ^ 60"
    and m': "m' = m(c := (m c)\<lparr>blk_size := blk_size (m c) + k, next_free := ht + k\<rparr>)"
  shows "heap_inv m' start (ht + k) ff (xs @ [c]) \<and> allocs m' (xs @ [c]) = allocs m (xs @ [c])"
proof -
  have h: "blocks m (start, False, 0) (xs @ [c])" "fst (cursor_after m (start, False, 0) (xs @ [c])) = ht"
    "chain m ff (free_blocks m (xs @ [c])) ht" and pos: "0 < start"
    using inv unfolding heap_inv_def by blast+
  have fb: "free_blocks m (xs @ [c]) = free_blocks m xs @ [c]" using free by (simp add: free_blocks_def)
  note ch = h(3)[unfolded fb]
  have bl: "blocks m (start, False, 0) xs" "blocks m (cursor_after m (start, False, 0) xs) [c]"
    and top: "blk_end m c = ht" using h(1,2) by simp_all
  have nc: "c \<notin> set xs" using heap_inv_distinct[OF inv] by simp
  have "blocks m' (start, False, 0) xs"
    using bl(1) nc by (subst blocks_cong[where m = m]) (auto simp: m')
  moreover have "cursor_after m' (start, False, 0) xs = cursor_after m (start, False, 0) xs"
    using nc by (intro cursor_after_cong) (auto simp: m')
  moreover have "blocks m' (cursor_after m (start, False, 0) xs) [c]"
    using bl(2) by (auto simp: m' split: prod.splits)
  moreover have "blk_end m' c = ht + k" using top by (simp add: m' blk_end_def)
  moreover have "free_blocks m' xs = free_blocks m xs"
    using nc by (intro free_blocks_cong) (auto simp: m')
  then have "free_blocks m' (xs @ [c]) = free_blocks m xs @ [c]"
    using free by (simp add: m' free_blocks_def)
  moreover have "chain m' ff (free_blocks m xs @ [c]) (ht + k)"
    by (rule chain_new_top[OF ch, where q = c and gs = "free_blocks m xs"]) (use nc in \<open>auto simp: m' free_blocks_def\<close>)
  moreover have "allocs m' (xs @ [c]) = allocs m (xs @ [c])"
    using nc free by (auto simp: m' allocs_def)
  ultimately show ?thesis using k pos by (simp add: heap_inv_def)
qed

lemma heap_append_block:
  assumes inv: "heap_inv m start ht ff bs"
    and used: "\<And>xs c. bs = xs @ [c] \<Longrightarrow> is_mmapped (m c)"
    and k: "sizeof_block_info \<le> k" "ht + k < 2 ^ 64" "ht + k < start + 2 ^ 60"
    and new: "free_in m' ht" "\<not> present (m' ht)" "blk_size (m' ht) = k - sizeof_block_info"
      "next_free (m' ht) = ht + k"
    and other: "\<forall>b\<in>set bs. m' b = m b"
  shows "heap_inv m' start (ht + k) ff (bs @ [ht]) \<and> allocs m' (bs @ [ht]) = allocs m bs"
proof -
  have bl: "blocks m (start, False, 0) bs" and pos: "0 < start"
    and top: "fst (cursor_after m (start, False, 0) bs) = ht"
    and ch: "chain m ff (free_blocks m bs) ht"
    using inv by (auto simp: heap_inv_def)
  have cu: "cursor_after m' (start, False, 0) bs = cursor_after m (start, False, 0) bs"
    using other by (intro cursor_after_cong) simp
  have cb: "blocks m' (start, False, 0) bs"
    using bl other by (subst blocks_cong[where m = m]) auto
  have "\<exists>pb. cursor_after m (start, False, 0) bs = (ht, False, pb)"
    using top used by (cases bs rule: rev_cases) auto
  then have "blocks m' (cursor_after m (start, False, 0) bs) [ht]" using new by auto
  moreover have "blk_end m' ht = ht + k" using new(3) k(1) by (simp add: blk_end_def)
  moreover have "free_blocks m' bs = free_blocks m bs"
    using other by (intro free_blocks_cong) auto
  then have fr: "free_blocks m' (bs @ [ht]) = free_blocks m bs @ [ht]"
    using new(1) by (simp add: free_blocks_def)
  moreover have "chain m' ff (free_blocks m bs) ht"
    using ch other by (subst chain_cong[where m = m]) (auto simp: set_free_blocks)
  then have "chain m' ff (free_blocks m bs @ [ht]) (ht + k)"
    using new(4) by (simp add: chain_append)
  moreover have "allocs m' (bs @ [ht]) = allocs m bs"
    using other new(1) by (auto simp: allocs_def)
  ultimately show ?thesis using cu cb k pos by (simp add: heap_inv_def)
qed

text \<open>
  The growth step as the allocators run it, when the search has come to the top:
  \<open>tail\<close> is the last free block, too small for \<open>sz\<close> bytes, or, when there is no
  free block, an address that is none of the heap. Afterwards the block it
  returns is so large that it will be split.
\<close>

definition at_top :: "bmem \<Rightarrow> ptr \<Rightarrow> ptr \<Rightarrow> ptr list \<Rightarrow> ptr \<Rightarrow> nat \<Rightarrow> bool" where
  "at_top m start ht bs tail sz \<longleftrightarrow>
     (if free_blocks m bs = [] then tail \<ge> ht
      else tail = last (free_blocks m bs) \<and> blk_size (m tail) < sz)"

lemma at_top_tail:
  assumes inv: "heap_inv m start ht ff bs" and at: "at_top m start ht bs tail sz"
  shows "empty_list start ht tail \<longleftrightarrow> free_blocks m bs = []"
    "free_blocks m bs \<noteq> [] \<Longrightarrow> tail \<in> set bs \<and> free_in m tail \<and> next_free (m tail) = ht"
proof -
  have *: "tail \<in> set bs \<and> free_in m tail \<and> next_free (m tail) = ht" if ne: "free_blocks m bs \<noteq> []"
  proof -
    obtain fs where fs: "free_blocks m bs = fs @ [tail]"
      using at ne by (metis at_top_def append_butlast_last_id)
    have "chain m ff (fs @ [tail]) ht" using inv fs by (simp add: heap_inv_def)
    then have "next_free (m tail) = ht" by (rule chain_last)
    moreover have "tail \<in> set (free_blocks m bs)" using fs by simp
    ultimately show ?thesis by (simp add: set_free_blocks)
  qed
  then show "free_blocks m bs \<noteq> [] \<Longrightarrow> tail \<in> set bs \<and> free_in m tail \<and> next_free (m tail) = ht" .
  show "empty_list start ht tail \<longleftrightarrow> free_blocks m bs = []"
    using * at heap_inv_bounds(1,3)[OF inv, of tail] by (fastforce simp: empty_list_def at_top_def)
qed

lemma grow_headers_ok:
  assumes inv: "heap_inv m start ht ff bs" and at: "at_top m start ht bs tail sz"
    and pages: "pages = grow_pages m start ht tail sz"
    and sz: "sz < 2 ^ 60" and k: "ht + pages * 0x1000 < 2 ^ 64" "ht + pages * 0x1000 < start + 2 ^ 60"
  shows "\<exists>m' ff' c xs ys. grow_headers start ht tail pages m ff = (m', ff', c) \<and>
    heap_inv m' start (ht + pages * 0x1000) ff' (xs @ c # ys) \<and> free_in m' c \<and>
    sz + sizeof_block_info < blk_size (m' c) \<and> allocs m' (xs @ c # ys) = allocs m bs"
proof -
  note tl = at_top_tail[OF inv at]
  define K where "K = pages * 0x1000"
  have "start \<le> ht"
    using inv blocks_le[of m "(start, False, 0)" bs] by (simp add: heap_inv_def)
  then have lim: "K < 2 ^ 60" using k(2) unfolding K_def by linarith
  have w: "w64 (ht + pages * 0x1000) = ht + K" using k(1) by (simp add: K_def)
  show ?thesis
  proof (cases "extend m start ht tail")
    case True
    then have ne: "free_blocks m bs \<noteq> []" using tl(1) by (simp add: extend_def)
    note t = tl(2)[OF ne]
    have tb: "blk_end m tail < 2 ^ 64" "blk_size (m tail) < 2 ^ 60" using heap_inv_bounds[OF inv] t by auto
    then have e: "blk_end m tail = ht" using True by (simp add: extend_def blk_end_def)
    obtain xs ys where bs: "bs = xs @ tail # ys" using t by (meson split_list)
    then have ys: "ys = []" using heap_inv_next[of m start ht ff xs tail ys] inv e by auto
    have small: "blk_size (m tail) < sz" using at ne unfolding at_top_def by metis
    have "w64 (sz + sizeof_block_info) = sz + sizeof_block_info"
      using sz by (simp add: sizeof_block_info_def)
    moreover have "sz + sizeof_block_info < 2 ^ 64" using sz by (simp add: sizeof_block_info_def)
    ultimately have "pages = (sz + sizeof_block_info - blk_size (m tail)) div 0x1000 + 1"
      using True small pages by (simp add: grow_pages_def)
    then have big: "sz + sizeof_block_info < blk_size (m tail) + K"
      using small unfolding K_def by linarith
    have "blk_end m tail \<ge> start + blk_size (m tail)"
      using heap_inv_bounds(1)[OF inv, of tail] t by (simp add: blk_end_def)
    then have "u60 (blk_size (m tail) + pages * 0x1000) = blk_size (m tail) + K"
      using e k(2) unfolding K_def by (intro u60_id) linarith
    then have g: "grow_headers start ht tail pages m ff =
        (m(tail := (m tail)\<lparr>blk_size := blk_size (m tail) + K, next_free := ht + K\<rparr>), ff, tail)"
      using True w by (simp add: grow_headers_def Let_def)
    have inv': "heap_inv m start ht ff (xs @ [tail])" using inv bs ys by simp
    have "heap_inv (m(tail := (m tail)\<lparr>blk_size := blk_size (m tail) + K, next_free := ht + K\<rparr>)) start (ht + K) ff (xs @ [tail])
      \<and> allocs (m(tail := (m tail)\<lparr>blk_size := blk_size (m tail) + K, next_free := ht + K\<rparr>)) (xs @ [tail]) = allocs m (xs @ [tail])"
      by (rule heap_extend_tail[OF inv' _ _ _ refl]) (use k t in \<open>simp_all add: K_def\<close>)
    then show ?thesis
      using g t big bs ys unfolding K_def[symmetric]
      by (intro exI[of _ "m(tail := (m tail)\<lparr>blk_size := blk_size (m tail) + K, next_free := ht + K\<rparr>)"]
          exI[of _ ff] exI[of _ tail] exI[of _ xs] exI[of _ "[]"]) simp
  next
    case False
    have "pages = (sz + sizeof_block_info * 2) div 0x1000 + 1"
      using False pages sz by (simp add: grow_pages_def sizeof_block_info_def)
    then have big: "sz + sizeof_block_info * 2 < K" unfolding K_def by linarith
    have ch: "chain m ff (free_blocks m bs) ht" using inv by (simp add: heap_inv_def)
    have ff: "(if empty_list start ht tail \<or> ff \<ge> ht then ht else ff) = ff"
    proof (cases "free_blocks m bs")
      case Nil
      then show ?thesis using ch tl(1) by simp
    next
      case (Cons f fs)
      then have "ff \<in> set bs" using ch by (metis chain.simps(2) list.set_intros(1) mem_Collect_eq set_free_blocks)
      then show ?thesis using heap_inv_bounds(3)[OF inv] tl(1) Cons by fastforce
    qed
    have used: "is_mmapped (m c)" if bs: "bs = xs @ [c]" for xs c
    proof (rule ccontr)
      assume "free_in m c"
      then have fb: "free_blocks m bs = free_blocks m xs @ [c]" using bs by (simp add: free_blocks_def)
      then have "tail = c" using at by (simp add: at_top_def)
      moreover have "blk_end m c = ht" using heap_inv_next[of m start ht ff xs c "[]"] inv bs by auto
      moreover have "blk_end m c < 2 ^ 64" using heap_inv_bounds(7)[OF inv, of c] bs by simp
      ultimately show False using False tl(1) fb by (simp add: extend_def blk_end_def)
    qed
    let ?n = "(m ht)\<lparr>previous_chunk := 0, is_mmapped := False, non_arena := False, present := False,
        blk_size := K - sizeof_block_info, next_free := ht + K\<rparr>"
    have s: "u60 (w64_sub (pages * 0x1000) sizeof_block_info) = K - sizeof_block_info"
      using big lim by (simp add: K_def)
    have link: "empty_list start ht tail \<or> next_free ((m(ht := ?n)) tail) = ht"
      using tl by (cases "free_blocks m bs = []") (auto dest: heap_inv_bounds(3)[OF inv])
    then have g: "grow_headers start ht tail pages m ff = (m(ht := ?n), ff, ht)"
      unfolding grow_headers_def Let_def w s ff using False by auto
    have hb: "\<forall>b\<in>set bs. b \<noteq> ht" using heap_inv_bounds(3)[OF inv] by fastforce
    have "heap_inv (m(ht := ?n)) start (ht + K) ff (bs @ [ht]) \<and> allocs (m(ht := ?n)) (bs @ [ht]) = allocs m bs"
      by (rule heap_append_block[OF inv used]) (use big k hb in \<open>simp_all add: K_def\<close>)
    then show ?thesis
      using g big unfolding K_def[symmetric]
      by (intro exI[of _ "m(ht := ?n)"] exI[of _ ff] exI[of _ ht] exI[of _ bs] exI[of _ "[]"]) simp
  qed
qed

lemma grow_pages_le:
  assumes inv: "heap_inv m start ht ff bs" and at: "at_top m start ht bs tail sz" and sz: "sz < 2 ^ 60"
  shows "grow_pages m start ht tail sz * 0x1000 \<le> sz + sizeof_block_info * 2 + 0x1000"
proof (cases "extend m start ht tail")
  case True
  then have ne: "free_blocks m bs \<noteq> []" using at_top_tail(1)[OF inv at] by (simp add: extend_def)
  then have small: "blk_size (m tail) < sz" using at unfolding at_top_def by metis
  have w: "w64 (sz + sizeof_block_info) = sz + sizeof_block_info" "sz + sizeof_block_info < 2 ^ 64"
    using sz by (simp_all add: sizeof_block_info_def)
  define x where "x = sz + sizeof_block_info - blk_size (m tail)"
  have "w64_sub (sz + sizeof_block_info) (blk_size (m tail)) = x"
    unfolding x_def using small w(2) by (intro w64_sub_id) linarith+
  then have "grow_pages m start ht tail sz = x div 0x1000 + 1"
    using True w(1) by (simp add: grow_pages_def)
  moreover have "x \<le> sz + sizeof_block_info * 2" by (simp add: x_def)
  ultimately show ?thesis by simp
next
  case False
  have "w64 (sz + sizeof_block_info * 2) = sz + sizeof_block_info * 2"
    using sz by (simp add: sizeof_block_info_def)
  then have "grow_pages m start ht tail sz = (sz + sizeof_block_info * 2) div 0x1000 + 1"
    using False by (simp add: grow_pages_def)
  then show ?thesis by simp
qed

section \<open>The search through a heap that grows\<close>

text \<open>
  What a request of \<open>sz\<close> bytes does to a heap with the allocations \<open>A\<close>: it fails and
  leaves them alone, or it adds one block of at least \<open>sz\<close> bytes.
\<close>

definition alloc_result ::
    "('s \<Rightarrow> ptr list \<Rightarrow> bool) \<Rightarrow> ('s \<Rightarrow> bmem) \<Rightarrow> nat \<Rightarrow> (ptr \<times> nat) set \<Rightarrow> (ptr \<times> 's) option \<Rightarrow> bool" where
  "alloc_result ginv gmem sz A r \<longleftrightarrow>
     (\<exists>p s' bs'. r = Some (p, s') \<and> ginv s' bs' \<and>
        (p = 0 \<and> allocs (gmem s') bs' = A \<or>
         (\<exists>n j. p = n + sizeof_block_info \<and> sz \<le> j \<and> j \<le> sz + sizeof_block_info \<and> n \<notin> fst ` A \<and>
            allocs (gmem s') bs' = insert (n, j) A)))"

text \<open>
  The loop of such an allocator, by what one iteration does: it returns the block
  that \<open>heap_alloc\<close> carves out, it goes on with the next free block, or, at the
  top, it gives up or goes on with a block that growth has made large enough.
\<close>

locale growing_heap =
  fixes loop :: "nat \<Rightarrow> ptr \<Rightarrow> ptr \<Rightarrow> bool \<Rightarrow> 's \<Rightarrow> (ptr \<times> 's) option"
    and ginv :: "'s \<Rightarrow> ptr list \<Rightarrow> bool" and gmem :: "'s \<Rightarrow> bmem" and gtop :: "'s \<Rightarrow> ptr" and gff :: "'s \<Rightarrow> ptr"
    and gstart :: ptr and gmax :: nat
  assumes ginv_heap: "ginv s bs \<Longrightarrow> heap_inv (gmem s) gstart (gtop s) (gff s) bs"
    and hit: "\<lbrakk>ginv s bs; c \<in> set bs;
        heap_alloc sz c prev (gtop s) first (gmem s) (gff s) = (m', ff', n + sizeof_block_info);
        heap_inv m' gstart (gtop s) ff' bs'; n \<notin> fst ` allocs (gmem s) bs;
        allocs m' bs' = insert (n, j) (allocs (gmem s) bs)\<rbrakk> \<Longrightarrow>
        \<exists>s'. loop sz c prev first s = Some (n + sizeof_block_info, s') \<and> ginv s' bs' \<and> gmem s' = m'"
    and miss: "\<lbrakk>ginv s bs; c \<in> set bs; blk_size (gmem s c) < sz\<rbrakk> \<Longrightarrow>
        loop sz c prev first s = loop sz (next_free (gmem s c)) c False s"
    and grow: "\<lbrakk>ginv s bs; at_top (gmem s) gstart (gtop s) bs prev sz; sz < gmax\<rbrakk> \<Longrightarrow>
        (\<exists>s'. loop sz (gtop s) prev first s = Some (0, s') \<and> ginv s' bs \<and> gmem s' = gmem s) \<or>
        (\<exists>c xs ys s'. loop sz (gtop s) prev first s = loop sz c prev False s' \<and> ginv s' (xs @ c # ys) \<and>
           free_in (gmem s') c \<and> sz + sizeof_block_info < blk_size (gmem s' c) \<and>
           allocs (gmem s') (xs @ c # ys) = allocs (gmem s) bs)"
begin

lemma loop_hit:
  assumes "ginv s bs" "c \<in> set bs"
    "heap_alloc sz c prev (gtop s) first (gmem s) (gff s) = (m', ff', n + sizeof_block_info)"
    "heap_inv m' gstart (gtop s) ff' bs'" "n \<notin> fst ` allocs (gmem s) bs"
    "allocs m' bs' = insert (n, j) (allocs (gmem s) bs)" "sz \<le> j" "j \<le> sz + sizeof_block_info"
  shows "alloc_result ginv gmem sz (allocs (gmem s) bs) (loop sz c prev first s)"
  using hit[OF assms(1-6)] assms(5-8) unfolding alloc_result_def by blast

lemma loop_top:
  assumes inv: "ginv s bs" and at: "at_top (gmem s) gstart (gtop s) bs prev sz" and sz: "sz < gmax"
  shows "alloc_result ginv gmem sz (allocs (gmem s) bs) (loop sz (gtop s) prev first s)"
proof (rule disjE[OF grow[OF inv at sz, of first]], goal_cases)
  case 1
  then show ?case unfolding alloc_result_def by metis
next
  case 2
  then obtain c xs ys s' where g: "loop sz (gtop s) prev first s = loop sz c prev False s'"
    "ginv s' (xs @ c # ys)" "free_in (gmem s') c" "sz + sizeof_block_info < blk_size (gmem s' c)"
    "allocs (gmem s') (xs @ c # ys) = allocs (gmem s) bs" by blast
  note hi = ginv_heap[OF g(2)]
  define n where "n = c + blk_size (gmem s' c) - sz"
  obtain m' where m': "heap_alloc sz c prev (gtop s') False (gmem s') (gff s') = (m', gff s', n + sizeof_block_info)"
    "heap_inv m' gstart (gtop s') (gff s') (xs @ c # n # ys)"
    "allocs m' (xs @ c # n # ys) = insert (n, sz) (allocs (gmem s') (xs @ c # ys))"
    using heap_alloc_split[OF hi g(3,4) n_def, of prev False] by blast
  have "distinct (xs @ c # n # ys)" by (rule heap_inv_distinct[OF m'(2)])
  then have "n \<notin> fst ` allocs (gmem s') (xs @ c # ys)" by (auto simp: allocs_def)
  from loop_hit[OF g(2) _ m'(1,2) this m'(3)] show ?case using g(1,5) by simp
qed

lemma loop_result:
  assumes inv: "ginv s bs" and sz: "sz < gmax"
    and fl: "free_blocks (gmem s) bs = fs1 @ fs2" "\<forall>c\<in>set fs1. blk_size (gmem s c) < sz"
    and prev: "prev = (if fs1 = [] then cur else last fs1)" and cur: "cur = hd (fs2 @ [gtop s])"
    and first: "first \<longleftrightarrow> fs1 = []"
  shows "alloc_result ginv gmem sz (allocs (gmem s) bs) (loop sz cur prev first s)"
  using fl prev cur first
proof (induction fs2 arbitrary: fs1 prev cur first)
  case Nil
  then have "at_top (gmem s) gstart (gtop s) bs prev sz" by (auto simp: at_top_def)
  from loop_top[OF inv this sz] show ?case using Nil by simp
next
  case (Cons c fs2)
  note hi = ginv_heap[OF inv]
  have c: "c \<in> set bs" using Cons.prems(1) by (metis in_set_conv_decomp set_free_blocks mem_Collect_eq)
  show ?case
  proof (cases "sz \<le> blk_size (gmem s c)")
    case True
    obtain m' ff' bs' n j where
      a: "heap_alloc sz c prev (gtop s) first (gmem s) (gff s) = (m', ff', n + sizeof_block_info)"
        "heap_inv m' gstart (gtop s) ff' bs'" "sz \<le> j" "j \<le> sz + sizeof_block_info"
        "n \<notin> fst ` allocs (gmem s) bs" "allocs m' bs' = insert (n, j) (allocs (gmem s) bs)"
      using heap_alloc_at[OF hi Cons.prems(1) True, of prev first] Cons.prems(3,5) by auto
    from loop_hit[OF inv c a(1,2,5,6,3,4)] show ?thesis using Cons.prems(4) by simp
  next
    case False
    have "chain (gmem s) (gff s) (free_blocks (gmem s) bs) (gtop s)" using hi by (simp add: heap_inv_def)
    then have nf: "next_free (gmem s c) = hd (fs2 @ [gtop s])"
      using Cons.prems(1) chain_hd[of "gmem s" "next_free (gmem s c)" fs2 "gtop s"] by (simp add: chain_append)
    from Cons.IH[of "fs1 @ [c]" c, OF _ _ _ nf] show ?thesis
      using miss[OF inv c, of sz prev first] False Cons.prems by simp
  qed
qed

lemma search_result:
  assumes inv: "ginv s bs" and sz: "sz < gmax"
  shows "alloc_result ginv gmem sz (allocs (gmem s) bs) (loop sz (gff s) (gff s) True s)"
proof -
  have "gff s = hd (free_blocks (gmem s) bs @ [gtop s])"
    using ginv_heap[OF inv] chain_hd by (auto simp: heap_inv_def)
  from loop_result[OF inv sz, of "[]" _ "gff s", OF _ _ _ this] show ?thesis by simp
qed

end

text \<open>The regions that such an allocator has handed out, and what a request does to them.\<close>

definition user_rep ::
    "('s \<Rightarrow> ptr list \<Rightarrow> bool) \<Rightarrow> ('s \<Rightarrow> bmem) \<Rightarrow> 's \<Rightarrow> (ptr \<times> nat) set \<Rightarrow> bool" where
  "user_rep ginv gmem s L \<longleftrightarrow> (\<exists>bs. ginv s bs \<and> L = user_view (allocs (gmem s) bs))"

lemma user_repI: "ginv s bs \<Longrightarrow> L = user_view (allocs (gmem s) bs) \<Longrightarrow> user_rep ginv gmem s L"
  by (auto simp: user_rep_def)

lemma alloc_result_user:
  assumes r: "alloc_result ginv gmem sz (allocs (gmem s) bs) r" and n: "n \<le> sz"
    and L: "L = user_view (allocs (gmem s) bs)"
  shows "\<exists>p s'. r = Some (p, s') \<and>
    (p = 0 \<and> user_rep ginv gmem s' L \<or>
     p \<noteq> 0 \<and> p \<notin> fst ` L \<and> (\<exists>k\<ge>n. user_rep ginv gmem s' (insert (p, k) L)))"
proof -
  obtain p s' bs' where r': "r = Some (p, s')" "ginv s' bs'"
    and c: "p = 0 \<and> allocs (gmem s') bs' = allocs (gmem s) bs \<or>
      (\<exists>b j. p = b + sizeof_block_info \<and> sz \<le> j \<and> j \<le> sz + sizeof_block_info \<and>
        b \<notin> fst ` allocs (gmem s) bs \<and> allocs (gmem s') bs' = insert (b, j) (allocs (gmem s) bs))"
    using r unfolding alloc_result_def by blast
  from c show ?thesis
  proof (elim disjE exE conjE, goal_cases)
    case 1
    then show ?case using r' L by (auto intro: user_repI[of ginv s' bs'])
  next
    case (2 b j)
    then have "user_rep ginv gmem s' (insert (p, j) L)" using L by (intro user_repI[of ginv s' bs'] r'(2)) simp
    moreover have "p \<notin> fst ` L" "p \<noteq> 0" using 2 L sizeof_block_info_pos by simp_all
    ultimately show ?case using 2 n r'(1) by auto
  qed
qed

lemma dealloc_user:
  assumes f: "\<And>b. p = b + sizeof_block_info \<Longrightarrow> (b, k) \<in> allocs (gmem s) bs \<Longrightarrow>
      \<exists>s' bs'. r = Some s' \<and> ginv s' bs' \<and> allocs (gmem s') bs' = allocs (gmem s) bs - {(b, k)}"
    and L: "L = user_view (allocs (gmem s) bs)" and p: "(p, k) \<in> L"
  shows "\<exists>s'. r = Some s' \<and> user_rep ginv gmem s' (L - {(p, k)})"
proof -
  obtain b where b: "p = b + sizeof_block_info" "(b, k) \<in> allocs (gmem s) bs" using p L by auto
  from f[OF this] obtain s' bs' where s': "r = Some s'" "ginv s' bs'"
    "allocs (gmem s') bs' = allocs (gmem s) bs - {(b, k)}" by blast
  then have "user_rep ginv gmem s' (L - {(p, k)})" using b(1) L by (intro user_repI[of ginv s' bs']) simp_all
  with s'(1) show ?thesis by blast
qed

lemma user_rep_facts:
  assumes h: "\<And>bs. ginv s bs \<Longrightarrow> heap_inv (gmem s) start (gtop s) (gff s) bs"
    and rep: "user_rep ginv gmem s L" and p: "(p, k) \<in> L"
  shows "start + sizeof_block_info \<le> p" "p + k \<le> gtop s" "0 < p"
    "(q, l) \<in> L \<Longrightarrow> (p, k) \<noteq> (q, l) \<Longrightarrow> p + k < q \<or> q + l < p"
proof -
  obtain bs where inv: "heap_inv (gmem s) start (gtop s) (gff s) bs" and L: "L = user_view (allocs (gmem s) bs)"
    using rep h unfolding user_rep_def by blast
  obtain b where b: "p = b + sizeof_block_info" "(b, k) \<in> allocs (gmem s) bs" using p L by auto
  from allocs_bounds[OF inv b(2)] b(1) show "start + sizeof_block_info \<le> p" "p + k \<le> gtop s" by simp_all
  show "0 < p" using b(1) sizeof_block_info_pos by simp
  show "(q, l) \<in> L \<Longrightarrow> (p, k) \<noteq> (q, l) \<Longrightarrow> p + k < q \<or> q + l < p"
    using user_view_separate[OF inv L p] .
qed

end
