(* ===== verification/Vmheap.thy ===== *)
theory Vmheap
  imports Heap_Grow Vmm
begin

text \<open>
  The kernel's virtual heap, \<open>src/kernel/memory/vmheap.c\<close>: a heap in its own
  window of the address space that \<open>vmalloc\<close> grows page by page. The record holds
  the static variables of the file, the block headers and the memory manager
  that backs the heap with pages.
\<close>

section \<open>State and operations\<close>

definition KERNEL_VIRTUAL_START :: nat where "KERNEL_VIRTUAL_START = 0xffffffc000000000"
definition KERNEL_VIRTUAL_TOP :: nat where "KERNEL_VIRTUAL_TOP = 0xffffffe000000000"
definition VMHEAP_MAX_BLOCK_SIZE :: nat where
  "VMHEAP_MAX_BLOCK_SIZE = KERNEL_VIRTUAL_TOP - KERNEL_VIRTUAL_START"

record vmheap =
  vpm :: pm
  vmem :: bmem
  vmheap_start :: ptr
  vmheap_current_top :: ptr
  first_free :: ptr
  vmheap_size :: nat
  vmheap_current_size :: nat
  alloc_count :: nat
  free_count :: nat

text \<open>The boot loop: \<open>n\<close> more pages behind \<open>vmheap_start + vmheap_size\<close>.\<close>

fun init_vmheap_map :: "nat \<Rightarrow> vmheap \<Rightarrow> (bool \<times> vmheap) option" where
  "init_vmheap_map 0 v = Some (True, v)"
| "init_vmheap_map (Suc n) v = do {
     (a, p1) \<leftarrow> pmm_calloc (vpm v);
     if a = 0 then Some (False, v\<lparr>vpm := p1\<rparr>)
     else do {
       (r, p2) \<leftarrow> vmm_set_page 0 (w64 (vmheap_start v + vmheap_size v)) a (PAGE_PRESENT OR PAGE_WRITE) p1;
       init_vmheap_map n (v\<lparr>vpm := p2, vmheap_size := w64 (vmheap_size v + 0x1000)\<rparr>)
     }
   }"

definition init_vmheap :: "vmheap \<Rightarrow> (int \<times> vmheap) option" where
  "init_vmheap v = do {
     (ok, v1) \<leftarrow> init_vmheap_map 256 (v\<lparr>vmheap_start := KERNEL_VIRTUAL_START,
                                         first_free := KERNEL_VIRTUAL_START\<rparr>);
     if \<not> ok then Some (1, v1)
     else let htop = w64 (vmheap_start v1 + vmheap_size v1);
              blk = (vmem v1 (vmheap_start v1))\<lparr>previous_chunk := 0, is_mmapped := False,
                      non_arena := False, present := False,
                      blk_size := u60 (w64_sub (vmheap_size v1) sizeof_block_info), next_free := htop\<rparr>
          in Some (0, v1\<lparr>vmheap_current_top := htop,
                         vmem := (vmem v1)(vmheap_start v1 := blk)\<rparr>)
   }"

text \<open>Giving back the first \<open>i\<close> pages of a growth that failed, from the \<open>j\<close>-th on.\<close>

function vmheap_rollback :: "ptr \<Rightarrow> nat \<Rightarrow> nat \<Rightarrow> pm \<Rightarrow> pm option" where
  "vmheap_rollback htop i j p =
     (if j < i then do {
        (mapped, p1) \<leftarrow> vmm_get_page 0 (w64 (htop + j * 0x1000)) p;
        p2 \<leftarrow> vmm_free_page 0 (w64 (htop + j * 0x1000)) p1;
        p3 \<leftarrow> pmm_free mapped p2;
        vmheap_rollback htop i (j + 1) p3
      } else Some p)"
  by pat_completeness auto
termination by (relation "measure (\<lambda>(htop, i, j, p). i - j)") auto

declare vmheap_rollback.simps [simp del]

text \<open>Mapping the pages \<open>i\<close> to \<open>pages - 1\<close> behind the top; \<open>False\<close> after a rollback.\<close>

function vmheap_map_pages :: "ptr \<Rightarrow> nat \<Rightarrow> nat \<Rightarrow> pm \<Rightarrow> (bool \<times> pm) option" where
  "vmheap_map_pages htop pages i p =
     (if i < pages then do {
        (a, p1) \<leftarrow> pmm_calloc p;
        if a = 0 then do { p2 \<leftarrow> vmheap_rollback htop i 0 p1; Some (False, p2) }
        else do {
          (r, p2) \<leftarrow> vmm_set_page 0 (w64 (htop + i * 0x1000)) a (PAGE_PRESENT OR PAGE_WRITE) p1;
          vmheap_map_pages htop pages (i + 1) p2
        }
      } else Some (True, p))"
  by pat_completeness auto
termination by (relation "measure (\<lambda>(htop, pages, i, p). pages - i)") auto

declare vmheap_map_pages.simps [simp del]

text \<open>The branch of \<open>vmalloc\<close> at the top of the heap: the block to go on with,
  \<open>None\<close> when the heap cannot grow.\<close>

definition vmalloc_grow :: "nat \<Rightarrow> ptr \<Rightarrow> vmheap \<Rightarrow> (ptr option \<times> vmheap) option" where
  "vmalloc_grow sz prev_block v =
     (let htop = vmheap_current_top v;
          pages = grow_pages (vmem v) KERNEL_VIRTUAL_START htop prev_block sz
      in if w64 (htop + pages * 0x1000) > KERNEL_VIRTUAL_TOP then Some (None, v)
         else do {
           (ok, p1) \<leftarrow> vmheap_map_pages htop pages 0 (vpm v);
           if \<not> ok then Some (None, v\<lparr>vpm := p1\<rparr>)
           else case grow_headers KERNEL_VIRTUAL_START htop prev_block pages (vmem v) (first_free v) of
             (m', ff', c) \<Rightarrow>
               Some (Some c, v\<lparr>vpm := p1, vmem := m', first_free := ff',
                               vmheap_size := w64 (vmheap_size v + pages * 0x1000),
                               vmheap_current_top := w64 (htop + pages * 0x1000)\<rparr>)
         })"

partial_function (option) vmalloc_loop ::
    "nat \<Rightarrow> ptr \<Rightarrow> ptr \<Rightarrow> bool \<Rightarrow> vmheap \<Rightarrow> (ptr \<times> vmheap) option" where
  "vmalloc_loop sz current_block prev_block first_block v =
     (if current_block < vmheap_current_top v \<and> current_block \<ge> KERNEL_VIRTUAL_START then
        case heap_alloc sz current_block prev_block (vmheap_current_top v) first_block (vmem v) (first_free v) of
          (m', ff', ret) \<Rightarrow>
            let v' = v\<lparr>vmem := m', first_free := ff'\<rparr>
            in if ret \<noteq> 0
               then Some (ret, v'\<lparr>vmheap_current_size := w64 (vmheap_current_size v
                                     + blk_size (m' (w64_sub ret sizeof_block_info))),
                                  alloc_count := w64 (alloc_count v + 1)\<rparr>)
               else vmalloc_loop sz (next_free (m' current_block)) current_block False v'
      else do {
        (c, v') \<leftarrow> vmalloc_grow sz prev_block v;
        case c of None \<Rightarrow> Some (0, v')
        | Some c \<Rightarrow> vmalloc_loop sz c prev_block False v'
      })"

definition vmalloc :: "nat \<Rightarrow> vmheap \<Rightarrow> (ptr \<times> vmheap) option" where
  "vmalloc sz v =
     (if sz > w64_sub VMHEAP_MAX_BLOCK_SIZE (sizeof_block_info * 3) then Some (0, v)
      else vmalloc_loop (w64 (sz + sizeof_block_info * 3)) (first_free v) (first_free v) True v)"

definition vmfree :: "ptr \<Rightarrow> vmheap \<Rightarrow> vmheap option" where
  "vmfree p v =
     (let block = w64_sub p sizeof_block_info;
          sz = blk_size (vmem v block);
          next_block = w64 (p + sz);
          max_block = (if vmheap_size v < VMHEAP_MAX_BLOCK_SIZE then vmheap_size v else VMHEAP_MAX_BLOCK_SIZE)
      in if \<not> is_mmapped (vmem v block) then Some v
         else do {
           (m', ff') \<leftarrow> heap_free block next_block (vmheap_current_top v) max_block (vmem v) (first_free v);
           Some (v\<lparr>vmem := m', first_free := ff',
                   vmheap_current_size := w64_sub (vmheap_current_size v) sz,
                   free_count := w64 (free_count v + 1),
                   alloc_count := w64_sub (alloc_count v) 1\<rparr>)
         })"

section \<open>The heap invariant\<close>

lemmas vmheap_consts = KERNEL_VIRTUAL_START_def KERNEL_VIRTUAL_TOP_def VMHEAP_MAX_BLOCK_SIZE_def

definition vmheap_inv :: "ptr set \<Rightarrow> vmheap \<Rightarrow> ptr list \<Rightarrow> bool" where
  "vmheap_inv F v bs \<longleftrightarrow>
     vmheap_start v = KERNEL_VIRTUAL_START \<and> vmheap_current_top v \<le> KERNEL_VIRTUAL_TOP \<and>
     vmheap_size v = vmheap_current_top v - KERNEL_VIRTUAL_START \<and>
     heap_inv (vmem v) KERNEL_VIRTUAL_START (vmheap_current_top v) (first_free v) bs \<and>
     vmheap_current_size v = (\<Sum>(b, s) \<in> allocs (vmem v) bs. s) \<and> pm_wf F (vpm v)"

definition vmheap_rep :: "ptr set \<Rightarrow> vmheap \<Rightarrow> (ptr \<times> nat) set \<Rightarrow> bool" where
  "vmheap_rep F = user_rep (vmheap_inv F) vmem"

lemma vmheap_invD:
  assumes "vmheap_inv F v bs"
  shows "heap_inv (vmem v) KERNEL_VIRTUAL_START (vmheap_current_top v) (first_free v) bs"
    "vmheap_current_top v \<le> KERNEL_VIRTUAL_TOP" "vmheap_size v = vmheap_current_top v - KERNEL_VIRTUAL_START"
    "vmheap_current_size v = (\<Sum>(b, s) \<in> allocs (vmem v) bs. s)" "pm_wf F (vpm v)"
    "vmheap_start v = KERNEL_VIRTUAL_START"
  using assms by (auto simp: vmheap_inv_def)

section \<open>Pages for the heap\<close>

lemma vmheap_rollback_wf: "pm_wf F p \<Longrightarrow> \<exists>p'. vmheap_rollback htop i j p = Some p' \<and> pm_wf F p'"
proof (induction htop i j p rule: vmheap_rollback.induct)
  case (1 htop i j p)
  show ?case
  proof (cases "j < i")
    case True
    obtain a p1 where p1: "vmm_get_page 0 (w64 (htop + j * 0x1000)) p = Some (a, p1)" "pm_wf F p1"
      using vmm_get_page_wf[OF 1(2)] by blast
    obtain p2 where p2: "vmm_free_page 0 (w64 (htop + j * 0x1000)) p1 = Some p2" "pm_wf F p2"
      using vmm_free_page_wf[OF p1(2)] by blast
    obtain p3 where p3: "pmm_free a p2 = Some p3" "pm_wf F p3" using pmm_free_wf[OF p2(2)] by blast
    show ?thesis using 1(1)[OF True p1(1) refl p2(1) p3(1) p3(2)] True p1(1) p2(1) p3(1)
      by (subst vmheap_rollback.simps) simp
  qed (use 1(2) in \<open>simp add: vmheap_rollback.simps\<close>)
qed

lemma vmheap_map_pages_wf: "pm_wf F p \<Longrightarrow> \<exists>ok p'. vmheap_map_pages htop pages i p = Some (ok, p') \<and> pm_wf F p'"
proof (induction htop pages i p rule: vmheap_map_pages.induct)
  case (1 htop pages i p)
  show ?case
  proof (cases "i < pages")
    case True
    obtain a p1 where p1: "pmm_calloc p = Some (a, p1)" "pm_wf F p1" using pmm_calloc_wf[OF 1(2)] by blast
    obtain p2 where p2: "vmheap_rollback htop i 0 p1 = Some p2" "pm_wf F p2"
      using vmheap_rollback_wf[OF p1(2)] by blast
    obtain r p3 where p3: "vmm_set_page 0 (w64 (htop + i * 0x1000)) a (PAGE_PRESENT OR PAGE_WRITE) p1 = Some (r, p3)" "pm_wf F p3"
      using vmm_set_page_wf[OF p1(2)] by blast
    show ?thesis
      using 1(1)[OF True p1(1) refl _ p3(1) refl p3(2)] True p1(1) p2 p3(1)
      by (subst vmheap_map_pages.simps) (cases "a = 0", auto)
  qed (use 1(2) in \<open>auto simp: vmheap_map_pages.simps\<close>)
qed

section \<open>\<open>vmalloc\<close>\<close>

lemma vmalloc_grow_ok:
  assumes inv: "vmheap_inv F v bs" and at: "at_top (vmem v) KERNEL_VIRTUAL_START (vmheap_current_top v) bs prev sz"
    and sz: "sz < 2 ^ 36 + 2 ^ 10"
  shows "\<exists>r v'. vmalloc_grow sz prev v = Some (r, v') \<and>
    (r = None \<and> vmheap_inv F v' bs \<and> vmem v' = vmem v \<or>
     (\<exists>c xs ys. r = Some c \<and> vmheap_inv F v' (xs @ c # ys) \<and> free_in (vmem v') c \<and>
        sz + sizeof_block_info < blk_size (vmem v' c) \<and> allocs (vmem v') (xs @ c # ys) = allocs (vmem v) bs))"
proof -
  note hi = vmheap_invD[OF inv]
  let ?top = "vmheap_current_top v"
  define pages where "pages = grow_pages (vmem v) KERNEL_VIRTUAL_START ?top prev sz"
  have small: "pages * 0x1000 \<le> sz + sizeof_block_info * 2 + 0x1000"
    using grow_pages_le[OF hi(1) at] sz unfolding pages_def by simp
  have k: "?top + pages * 0x1000 < 2 ^ 64"
    using small hi(2) sz by (simp add: vmheap_consts sizeof_block_info_def)
  have start: "KERNEL_VIRTUAL_START \<le> ?top"
    using hi(1) blocks_le[of "vmem v" "(KERNEL_VIRTUAL_START, False, 0)" bs] by (simp add: heap_inv_def)
  have k2: "?top + pages * 0x1000 < KERNEL_VIRTUAL_START + 2 ^ 60"
    using small hi(2) sz by (simp add: vmheap_consts sizeof_block_info_def)
  obtain ok p1 where p1: "vmheap_map_pages ?top pages 0 (vpm v) = Some (ok, p1)" "pm_wf F p1"
    using vmheap_map_pages_wf[OF hi(5)] by blast
  have w: "w64 (?top + pages * 0x1000) = ?top + pages * 0x1000" using k by simp
  consider "?top + pages * 0x1000 > KERNEL_VIRTUAL_TOP" | "\<not> ?top + pages * 0x1000 > KERNEL_VIRTUAL_TOP" "\<not> ok"
    | "?top + pages * 0x1000 \<le> KERNEL_VIRTUAL_TOP" ok by linarith
  then show ?thesis
  proof cases
    case 1
    then show ?thesis
      using inv unfolding vmalloc_grow_def Let_def pages_def[symmetric] w by auto
  next
    case 2
    then have "vmalloc_grow sz prev v = Some (None, v\<lparr>vpm := p1\<rparr>)"
      using p1(1) unfolding vmalloc_grow_def Let_def pages_def[symmetric] w by auto
    moreover have "vmheap_inv F (v\<lparr>vpm := p1\<rparr>) bs" using inv p1(2) by (simp add: vmheap_inv_def)
    ultimately show ?thesis by auto
  next
    case 3
    obtain m' ff' c xs ys where
      g: "grow_headers KERNEL_VIRTUAL_START ?top prev pages (vmem v) (first_free v) = (m', ff', c)"
      and h: "heap_inv m' KERNEL_VIRTUAL_START (?top + pages * 0x1000) ff' (xs @ c # ys)" "free_in m' c"
        "sz + sizeof_block_info < blk_size (m' c)" "allocs m' (xs @ c # ys) = allocs (vmem v) bs"
      using grow_headers_ok[OF hi(1) at pages_def _ k k2] sz by auto
    let ?v = "v\<lparr>vpm := p1, vmem := m', first_free := ff',
        vmheap_size := w64 (vmheap_size v + pages * 0x1000), vmheap_current_top := ?top + pages * 0x1000\<rparr>"
    have "vmalloc_grow sz prev v = Some (Some c, ?v)"
      using 3 p1(1) g unfolding vmalloc_grow_def Let_def pages_def[symmetric] w by auto
    moreover have "w64 (vmheap_size v + pages * 0x1000) = ?top + pages * 0x1000 - KERNEL_VIRTUAL_START"
      using hi(3) k start by simp
    then have "vmheap_inv F ?v (xs @ c # ys)"
      using 3(1) h hi p1(2) by (simp add: vmheap_inv_def)
    ultimately show ?thesis
      using h(2-4) by (intro exI[of _ "Some c"] exI[of _ ?v] conjI disjI2 exI[of _ c] exI[of _ xs] exI[of _ ys]) simp_all
  qed
qed

lemma vmalloc_loop_hit:
  assumes inv: "vmheap_inv F v bs" and c: "c \<in> set bs"
    and a: "heap_alloc sz c prev (vmheap_current_top v) first (vmem v) (first_free v) = (m', ff', n + sizeof_block_info)"
    and h: "heap_inv m' KERNEL_VIRTUAL_START (vmheap_current_top v) ff' bs'"
    and n: "n \<notin> fst ` allocs (vmem v) bs" "allocs m' bs' = insert (n, j) (allocs (vmem v) bs)"
  shows "\<exists>v'. vmalloc_loop sz c prev first v = Some (n + sizeof_block_info, v') \<and> vmheap_inv F v' bs' \<and> vmem v' = m'"
proof -
  note hi = vmheap_invD[OF inv]
  have nj: "(n, j) \<in> allocs m' bs'" "(n, j) \<notin> allocs (vmem v) bs" using n by force+
  have lim: "vmheap_current_top v < 2 ^ 64" using h by (simp add: heap_inv_def)
  have bnd: "n + sizeof_block_info + j \<le> vmheap_current_top v" using allocs_bounds[OF h nj(1)] by simp
  have size: "blk_size (m' n) = j" using nj(1) by (auto simp: allocs_def)
  have sum: "(\<Sum>(b, s)\<in>allocs m' bs'. s) = vmheap_current_size v + j"
    using n(2) nj(2) hi(4) by simp
  then have w: "w64 (vmheap_current_size v + j) = vmheap_current_size v + j"
    using allocs_sum_le[OF h] lim by simp
  have cb: "c < vmheap_current_top v" "KERNEL_VIRTUAL_START \<le> c"
    using heap_inv_bounds[OF hi(1) c] by auto
  have r: "w64_sub (n + sizeof_block_info) sizeof_block_info = n" using bnd lim by simp
  let ?v = "v\<lparr>vmem := m', first_free := ff', vmheap_current_size := vmheap_current_size v + j,
      alloc_count := w64 (alloc_count v + 1)\<rparr>"
  have "vmalloc_loop sz c prev first v = Some (n + sizeof_block_info, ?v)"
    using cb a sizeof_block_info_pos by (subst vmalloc_loop.simps) (simp add: Let_def r size w del: w64_id w64_sub_id)
  moreover have "vmheap_inv F ?v bs'" using h sum inv by (simp add: vmheap_inv_def)
  ultimately show ?thesis by simp
qed

lemma vmalloc_loop_miss:
  assumes inv: "vmheap_inv F v bs" and c: "c \<in> set bs" and small: "blk_size (vmem v c) < sz"
  shows "vmalloc_loop sz c prev first v = vmalloc_loop sz (next_free (vmem v c)) c False v"
  using heap_inv_bounds[OF vmheap_invD(1)[OF inv] c] small
  by (subst vmalloc_loop.simps) (simp add: heap_alloc_small)

lemma vmalloc_loop_top:
  assumes inv: "vmheap_inv F v bs"
    and at: "at_top (vmem v) KERNEL_VIRTUAL_START (vmheap_current_top v) bs prev sz" and sz: "sz < 2 ^ 36 + 2 ^ 10"
  shows "(\<exists>v'. vmalloc_loop sz (vmheap_current_top v) prev first v = Some (0, v') \<and> vmheap_inv F v' bs \<and> vmem v' = vmem v) \<or>
    (\<exists>c xs ys v'. vmalloc_loop sz (vmheap_current_top v) prev first v = vmalloc_loop sz c prev False v' \<and>
       vmheap_inv F v' (xs @ c # ys) \<and> free_in (vmem v') c \<and> sz + sizeof_block_info < blk_size (vmem v' c) \<and>
       allocs (vmem v') (xs @ c # ys) = allocs (vmem v) bs)"
proof -
  have l: "vmalloc_loop sz (vmheap_current_top v) prev first v = do {
        (c, v') \<leftarrow> vmalloc_grow sz prev v;
        case c of None \<Rightarrow> Some (0, v') | Some c \<Rightarrow> vmalloc_loop sz c prev False v' }"
    by (subst vmalloc_loop.simps) simp
  from vmalloc_grow_ok[OF inv at sz] obtain r v' where g: "vmalloc_grow sz prev v = Some (r, v')"
    and "r = None \<and> vmheap_inv F v' bs \<and> vmem v' = vmem v \<or>
     (\<exists>c xs ys. r = Some c \<and> vmheap_inv F v' (xs @ c # ys) \<and> free_in (vmem v') c \<and>
        sz + sizeof_block_info < blk_size (vmem v' c) \<and> allocs (vmem v') (xs @ c # ys) = allocs (vmem v) bs)"
    by blast
  then show ?thesis
  proof (elim disjE exE conjE, goal_cases)
    case 1
    then show ?case unfolding l g by simp
  next
    case (2 c xs ys)
    then show ?case
      unfolding l g by (intro disjI2 exI[of _ c] exI[of _ xs] exI[of _ ys] exI[of _ v']) simp
  qed
qed

interpretation vs: growing_heap vmalloc_loop "vmheap_inv F" vmem vmheap_current_top first_free
    KERNEL_VIRTUAL_START "2 ^ 36 + 2 ^ 10" for F
  by unfold_locales (fact vmheap_invD(1) vmalloc_loop_hit vmalloc_loop_miss vmalloc_loop_top)+

section \<open>\<open>vmfree\<close>\<close>

lemma vmfree_ok:
  assumes inv: "vmheap_inv F v bs" and b: "(b, s) \<in> allocs (vmem v) bs"
  shows "\<exists>v' bs'. vmfree (b + sizeof_block_info) v = Some v' \<and> vmheap_inv F v' bs' \<and>
    allocs (vmem v') bs' = allocs (vmem v) bs - {(b, s)}"
proof -
  note hi = vmheap_invD[OF inv]
  have bs: "b \<in> set bs" "is_mmapped (vmem v b)" "s = blk_size (vmem v b)"
    using b by (auto simp: allocs_def)
  note bnd = heap_inv_bounds[OF hi(1) bs(1)]
  have lim: "vmheap_current_top v < 2 ^ 64" using hi(1) by (simp add: heap_inv_def)
  have w: "w64_sub (b + sizeof_block_info) sizeof_block_info = b"
    "w64 (b + sizeof_block_info + s) = blk_end (vmem v) b"
    using bnd bs(3) lim by (simp_all add: blk_end_def)
  have mx: "(if vmheap_size v < VMHEAP_MAX_BLOCK_SIZE then vmheap_size v else VMHEAP_MAX_BLOCK_SIZE)
      = vmheap_current_top v - KERNEL_VIRTUAL_START"
    using hi(2,3) by (simp add: VMHEAP_MAX_BLOCK_SIZE_def) linarith
  obtain m' ff' bs' where
    f: "heap_free b (blk_end (vmem v) b) (vmheap_current_top v) (vmheap_current_top v - KERNEL_VIRTUAL_START)
          (vmem v) (first_free v) = Some (m', ff')"
    and h: "heap_inv m' KERNEL_VIRTUAL_START (vmheap_current_top v) ff' bs'"
      "allocs m' bs' = allocs (vmem v) bs - {(b, s)}"
    using heap_free_correct[OF hi(1) bs(1,2) order_refl] bs(3) by auto
  have sum: "vmheap_current_size v = s + (\<Sum>(b, s)\<in>allocs m' bs'. s)"
    using h(2) b hi(4) sum.remove[OF allocs_finite b, of "\<lambda>(b, s). s"] by simp
  moreover have "vmheap_current_size v < 2 ^ 64" using allocs_sum_le[OF hi(1)] hi(4) lim by simp
  ultimately have d: "w64_sub (vmheap_current_size v) s = (\<Sum>(b, s)\<in>allocs m' bs'. s)" by simp
  let ?v = "v\<lparr>vmem := m', first_free := ff', vmheap_current_size := (\<Sum>(b, s)\<in>allocs m' bs'. s),
      free_count := w64 (free_count v + 1), alloc_count := w64_sub (alloc_count v) 1\<rparr>"
  have "vmfree (b + sizeof_block_info) v = Some ?v"
    using f bs(2) unfolding vmfree_def Let_def w(1) bs(3)[symmetric] w(2) mx d by simp
  moreover have "vmheap_inv F ?v bs'" using h inv by (simp add: vmheap_inv_def)
  ultimately show ?thesis using h(2) by (intro exI[of _ ?v] exI[of _ bs']) simp
qed

section \<open>The allocator contract\<close>

lemma vmheap_alloc_rep:
  assumes rep: "vmheap_rep F v L" and n: "n < 2 ^ 36"
  shows "\<exists>p v'. vmalloc n v = Some (p, v') \<and>
    (p = 0 \<and> vmheap_rep F v' L \<or> p \<noteq> 0 \<and> p \<notin> fst ` L \<and> (\<exists>k\<ge>n. vmheap_rep F v' (insert (p, k) L)))"
proof -
  obtain bs where inv: "vmheap_inv F v bs" and L: "L = user_view (allocs (vmem v) bs)"
    using rep by (auto simp: vmheap_rep_def user_rep_def)
  define want where "want = n + sizeof_block_info * 3"
  have w: "w64 (n + sizeof_block_info * 3) = want" "want < 2 ^ 36 + 2 ^ 10" "n \<le> want"
    using n by (simp_all add: want_def sizeof_block_info_def)
  have "vmalloc n v = vmalloc_loop want (first_free v) (first_free v) True v"
    using n w(1) by (simp add: vmalloc_def vmheap_consts sizeof_block_info_def)
  then show ?thesis
    using alloc_result_user[OF vs.search_result[OF inv w(2)] w(3) L] unfolding vmheap_rep_def by simp
qed

lemma vmheap_dealloc_rep:
  assumes rep: "vmheap_rep F v L" and p: "(p, k) \<in> L"
  shows "\<exists>v'. vmfree p v = Some v' \<and> vmheap_rep F v' (L - {(p, k)})"
proof -
  obtain bs where inv: "vmheap_inv F v bs" and L: "L = user_view (allocs (vmem v) bs)"
    using rep by (auto simp: vmheap_rep_def user_rep_def)
  have "\<And>b. p = b + sizeof_block_info \<Longrightarrow> (b, k) \<in> allocs (vmem v) bs \<Longrightarrow>
      \<exists>v' bs'. vmfree p v = Some v' \<and> vmheap_inv F v' bs' \<and> allocs (vmem v') bs' = allocs (vmem v) bs - {(b, k)}"
    using vmfree_ok[OF inv] by simp
  from dealloc_user[OF this L p] show ?thesis unfolding vmheap_rep_def .
qed

lemma vmheap_rep_facts:
  assumes rep: "vmheap_rep F v L" and p: "(p, k) \<in> L"
  shows "KERNEL_VIRTUAL_START + sizeof_block_info \<le> p" "p + k \<le> vmheap_current_top v" "0 < p"
    "(q, l) \<in> L \<Longrightarrow> (p, k) \<noteq> (q, l) \<Longrightarrow> p + k < q \<or> q + l < p"
proof -
  note r = rep[unfolded vmheap_rep_def]
  have h: "\<And>bs. vmheap_inv F v bs \<Longrightarrow>
      heap_inv (vmem v) KERNEL_VIRTUAL_START (vmheap_current_top v) (first_free v) bs" by (rule vmheap_invD(1))
  note f = user_rep_facts[where gmem = vmem and gtop = vmheap_current_top and gff = first_free, OF h r p]
  from f(1-3) show "KERNEL_VIRTUAL_START + sizeof_block_info \<le> p" "p + k \<le> vmheap_current_top v" "0 < p"
    by simp_all
  show "(q, l) \<in> L \<Longrightarrow> (p, k) \<noteq> (q, l) \<Longrightarrow> p + k < q \<or> q + l < p" using f(4) by simp
qed

interpretation vh: allocator vmalloc vmfree "vmheap_rep F" "2 ^ 36" for F
  by unfold_locales (simp, (fact vmheap_alloc_rep vmheap_dealloc_rep vmheap_rep_facts(3,4))+)

interpretation vq: fifo "mtx_queue_enqueue vmalloc" "mtx_queue_dequeue vmfree" "\<lambda>q. Some (mtx_queue_empty q)"
    "mtx_queue_rep (vmheap_rep F) G" "alloc_room vmalloc" for F G
  by unfold_locales
     (use vh.mtx_queue_enqueue_rep vh.mtx_queue_dequeue_none vh.mtx_queue_dequeue_some vh.mtx_queue_empty_rep in blast)+

section \<open>\<open>init_vmheap\<close>\<close>

lemma init_vmheap_map_ok:
  "\<lbrakk>pm_wf F (vpm v); vmheap_size v + n * 0x1000 < 2 ^ 64\<rbrakk> \<Longrightarrow>
     \<exists>ok p'. pm_wf F p' \<and>
       (\<exists>k. init_vmheap_map n v = Some (ok, v\<lparr>vpm := p', vmheap_size := k\<rparr>) \<and>
        (ok \<longrightarrow> k = vmheap_size v + n * 0x1000))"
proof (induction n arbitrary: v)
  case 0
  then show ?case by (intro exI[of _ True] exI[of _ "vpm v"]) (simp add: exI[of _ "vmheap_size v"])
next
  case (Suc n)
  obtain a p1 where p1: "pmm_calloc (vpm v) = Some (a, p1)" "pm_wf F p1" using pmm_calloc_wf[OF Suc.prems(1)] by blast
  obtain r p2 where p2: "vmm_set_page 0 (w64 (vmheap_start v + vmheap_size v)) a (PAGE_PRESENT OR PAGE_WRITE) p1 = Some (r, p2)"
    "pm_wf F p2" using vmm_set_page_wf[OF p1(2)] by blast
  show ?case
  proof (cases "a = 0")
    case True
    then show ?thesis
      using p1 by (intro exI[of _ False] exI[of _ p1] conjI exI[of _ "vmheap_size v"]) simp_all
  next
    case False
    let ?v = "v\<lparr>vpm := p2, vmheap_size := vmheap_size v + 0x1000\<rparr>"
    have "pm_wf F (vpm ?v)" "vmheap_size ?v + n * 0x1000 < 2 ^ 64" using p2(2) Suc.prems(2) by simp_all
    from Suc.IH[OF this] show ?thesis using False p1(1) p2(1) Suc.prems(2) by (simp add: add.assoc)
  qed
qed

lemma init_vmheap_ok:
  assumes "pm_wf F (vpm v)" "vmheap_size v = 0" "vmheap_current_size v = 0"
  shows "\<exists>r v'. init_vmheap v = Some (r, v') \<and> (r = 0 \<and> vmheap_rep F v' {} \<or> r = 1 \<and> pm_wf F (vpm v'))"
proof -
  let ?v0 = "v\<lparr>vmheap_start := KERNEL_VIRTUAL_START, first_free := KERNEL_VIRTUAL_START\<rparr>"
  obtain ok p' k where m: "init_vmheap_map 256 ?v0 = Some (ok, ?v0\<lparr>vpm := p', vmheap_size := k\<rparr>)"
    and p': "pm_wf F p'" and k: "ok \<Longrightarrow> k = 0x100000"
    using init_vmheap_map_ok[of F ?v0 256] assms by auto
  show ?thesis
  proof (cases ok)
    case True
    let ?m = "(vmem v)(KERNEL_VIRTUAL_START := (vmem v KERNEL_VIRTUAL_START)\<lparr>previous_chunk := 0, is_mmapped := False,
       non_arena := False, present := False, blk_size := 0x100000 - 24, next_free := KERNEL_VIRTUAL_START + 0x100000\<rparr>)"
    let ?v = "?v0\<lparr>vpm := p', vmheap_size := 0x100000, vmheap_current_top := KERNEL_VIRTUAL_START + 0x100000, vmem := ?m\<rparr>"
    have "init_vmheap v = Some (0, ?v)"
      using m k True by (simp add: init_vmheap_def Let_def vmheap_consts sizeof_block_info_def u60_def)
    moreover have "vmheap_inv F ?v [KERNEL_VIRTUAL_START]"
      using p' assms(3) by (simp add: vmheap_inv_def heap_inv_def blk_end_def free_blocks_def allocs_def vmheap_consts sizeof_block_info_def)
    then have "vmheap_rep F ?v {}"
      unfolding vmheap_rep_def by (rule user_repI) (simp add: user_view_def allocs_def)
    ultimately show ?thesis by blast
  next
    case False
    then show ?thesis using m p' by (simp add: init_vmheap_def)
  qed
qed

section \<open>Properties\<close>

text \<open>A virtual heap as \<open>init_vmheap\<close> leaves it.\<close>

definition vmheap_fresh :: "pm \<Rightarrow> vmheap" where
  "vmheap_fresh p = \<lparr>vpm = p,
     vmem = (\<lambda>_. blank_block)(KERNEL_VIRTUAL_START := blank_block\<lparr>blk_size := 0x100000 - 24,
               next_free := KERNEL_VIRTUAL_START + 0x100000\<rparr>),
     vmheap_start = KERNEL_VIRTUAL_START, vmheap_current_top = KERNEL_VIRTUAL_START + 0x100000,
     first_free = KERNEL_VIRTUAL_START, vmheap_size = 0x100000, vmheap_current_size = 0,
     alloc_count = 0, free_count = 0\<rparr>"

lemma vmheap_fresh_rep: "pm_wf F p \<Longrightarrow> vmheap_rep F (vmheap_fresh p) {}"
  unfolding vmheap_rep_def
  by (rule user_repI[of _ _ "[KERNEL_VIRTUAL_START]"])
     (simp_all add: vmheap_fresh_def blank_block_def vmheap_inv_def heap_inv_def blk_end_def free_blocks_def
       allocs_def user_view_def vmheap_consts sizeof_block_info_def)



lemma user_view_sum: "(\<Sum>(p, k)\<in>user_view A. k) = (\<Sum>(b, k)\<in>A. k)"
proof -
  have "inj_on (\<lambda>(b, s). (b + sizeof_block_info, s :: nat)) A" by (auto simp: inj_on_def)
  then show ?thesis by (simp add: user_view_def sum.reindex case_prod_beta')
qed

lemma vmheap_rep_size: "vmheap_rep F v L \<Longrightarrow> vmheap_current_size v = (\<Sum>(p, k)\<in>L. k)"
  by (auto simp: vmheap_rep_def user_rep_def user_view_sum vmheap_inv_def)

text \<open>
  C19. Freeing a region of the virtual heap terminates, gives back exactly that region, and
  takes its size off the count of used bytes.
\<close>

theorem vmfree_spec:
  assumes "vmheap_rep F v L" and "(p, k) \<in> L"
  shows "\<exists>v'. vmfree p v = Some v' \<and> vmheap_rep F v' (L - {(p, k)}) \<and>
    vmheap_current_size v' + k = vmheap_current_size v"
proof -
  obtain v' where v': "vmfree p v = Some v'" "vmheap_rep F v' (L - {(p, k)})" using vh.dealloc_rep[OF assms] by blast
  have "finite L" using assms(1) by (auto simp: vmheap_rep_def user_rep_def user_view_def)
  from sum.remove[OF this assms(2), of "\<lambda>(p, k). k"] have "vmheap_current_size v' + k = vmheap_current_size v"
    using vmheap_rep_size[OF v'(2)] vmheap_rep_size[OF assms(1)] by simp
  then show ?thesis using v' by blast
qed

text \<open>A virtual heap of one page and one free block, with a block of 88 bytes at its end in use.\<close>

definition vmheap_one :: "pm \<Rightarrow> vmheap" where
  "vmheap_one p = \<lparr>vpm = p,
     vmem = (\<lambda>_. blank_block)(
       KERNEL_VIRTUAL_START := blank_block\<lparr>blk_size := 3960, next_free := KERNEL_VIRTUAL_START + 4096\<rparr>,
       KERNEL_VIRTUAL_START + 3984 := blank_block\<lparr>is_mmapped := True, present := True, blk_size := 88,
         previous_chunk := KERNEL_VIRTUAL_START\<rparr>),
     vmheap_start = KERNEL_VIRTUAL_START, vmheap_current_top = KERNEL_VIRTUAL_START + 4096,
     first_free = KERNEL_VIRTUAL_START, vmheap_size = 4096, vmheap_current_size = 88,
     alloc_count = 1, free_count = 0\<rparr>"

lemma vmheap_one_rep:
  assumes "pm_wf F p"
  shows "vmheap_rep F (vmheap_one p) {(KERNEL_VIRTUAL_START + 4008, 88)}"
proof -
  let ?bs = "[KERNEL_VIRTUAL_START, KERNEL_VIRTUAL_START + 3984]"
  have a: "allocs (vmem (vmheap_one p)) ?bs = {(KERNEL_VIRTUAL_START + 3984, 88)}"
    by (force simp: vmheap_one_def blank_block_def allocs_def)
  have "vmheap_inv F (vmheap_one p) ?bs"
    unfolding vmheap_inv_def a
    using assms by (simp add: vmheap_one_def blank_block_def heap_inv_def blk_end_def free_blocks_def
        vmheap_consts sizeof_block_info_def)
  then show ?thesis
    unfolding vmheap_rep_def by (rule user_repI) (simp add: a user_view_def sizeof_block_info_def)
qed

theorem vmfree_spec_witness:
  "\<exists>v'. vmfree (KERNEL_VIRTUAL_START + 4008) (vmheap_one (pm_boot kqueue_one)) = Some v' \<and>
     vmheap_rep {} v' {} \<and> vmheap_current_size v' = 0"
  using vmfree_spec[OF vmheap_one_rep[OF pmm_rep_wf[OF pm_boot_one(1)]], of "KERNEL_VIRTUAL_START + 4008" 88]
  by (auto simp: vmheap_one_def)

text \<open>
  C30. Booting the virtual heap terminates. When it reports success the heap
  is well formed and empty, and a block that is allocated from it and
  freed again leaves it empty; when a page is missing it reports 1.
\<close>

theorem init_vmheap_spec:
  assumes "pm_wf F (vpm v)" "vmheap_size v = 0" "vmheap_current_size v = 0"
  shows "\<exists>r v'. init_vmheap v = Some (r, v') \<and> (r = 1 \<or> r = 0 \<and> vmheap_rep F v' {} \<and>
    (\<forall>n<2 ^ 36. \<exists>p v1. vmalloc n v' = Some (p, v1) \<and>
       (p = 0 \<or> (\<exists>v2. vmfree p v1 = Some v2 \<and> vmheap_rep F v2 {} \<and> vmheap_current_size v2 = 0))))"
proof -
  have rt: "\<exists>p v1. vmalloc n v' = Some (p, v1) \<and>
      (p = 0 \<or> (\<exists>v2. vmfree p v1 = Some v2 \<and> vmheap_rep F v2 {} \<and> vmheap_current_size v2 = 0))"
    if rep: "vmheap_rep F v' {}" and n: "n < 2 ^ 36" for n v'
  proof -
    obtain p v1 where p: "vmalloc n v' = Some (p, v1)" "p = 0 \<or> (\<exists>k. vmheap_rep F v1 {(p, k)})"
      using vh.alloc_rep[OF rep n] by auto
    have "\<exists>v2. vmfree p v1 = Some v2 \<and> vmheap_rep F v2 {}" if "vmheap_rep F v1 {(p, k)}" for k
      using vh.dealloc_rep[OF that, of p k] by simp
    then show ?thesis using p vmheap_rep_size by fastforce
  qed
  from init_vmheap_ok[OF assms] show ?thesis using rt by blast
qed

theorem init_vmheap_spec_witness:
  "\<exists>r v'. init_vmheap ((vmheap_fresh (pm_boot kqueue_one))\<lparr>vmheap_size := 0\<rparr>) = Some (r, v') \<and>
     (r = 1 \<or> r = 0 \<and> vmheap_rep {} v' {})"
proof -
  let ?v = "(vmheap_fresh (pm_boot kqueue_one))\<lparr>vmheap_size := 0\<rparr>"
  have "pm_wf {} (vpm ?v)" "vmheap_size ?v = 0" "vmheap_current_size ?v = 0"
    using pmm_rep_wf[OF pm_boot_one(1)] by (simp_all add: vmheap_fresh_def)
  from init_vmheap_spec[OF this] show ?thesis by auto
qed

end
