(* ===== verification/Cstring.thy ===== *)
theory Cstring
  imports Prelude "HOL-Library.Word"
begin

text \<open>
  The memory and string routines of \<open>src/shared/string\<close> and \<open>src/shared/stdlib/atoi.c\<close>, over a
  memory of bytes. A loop \<open>for(i = 0; i < n; i++)\<close> without an early exit is a fold
  over \<open>[0..<n]\<close>; a loop that searches for the terminating zero is a partial
  function, because nothing bounds it when there is no zero.
\<close>

section \<open>Memory\<close>

type_synonym bytes = "ptr \<Rightarrow> 8 word"

definition copy_byte :: "ptr \<Rightarrow> ptr \<Rightarrow> nat \<Rightarrow> bytes \<Rightarrow> bytes" where
  "copy_byte dst src i m = m(dst + i := m (src + i))"

definition memcpy :: "ptr \<Rightarrow> ptr \<Rightarrow> nat \<Rightarrow> bytes \<Rightarrow> ptr \<times> bytes" where
  "memcpy dst src sz m = (dst, fold (copy_byte dst src) [0..<sz] m)"

definition memmove :: "ptr \<Rightarrow> ptr \<Rightarrow> nat \<Rightarrow> bytes \<Rightarrow> ptr \<times> bytes" where
  "memmove dst src sz m =
     (if dst < src then (dst, fold (copy_byte dst src) [0..<sz] m)
      else (dst, fold (copy_byte dst src) (rev [0..<sz]) m))"

definition set_byte :: "ptr \<Rightarrow> int \<Rightarrow> nat \<Rightarrow> bytes \<Rightarrow> bytes" where
  "set_byte p v i m = m(p + i := word_of_int v)"

definition memset :: "ptr \<Rightarrow> int \<Rightarrow> nat \<Rightarrow> bytes \<Rightarrow> ptr \<times> bytes" where
  "memset p v count m = (p, fold (set_byte p v) [0..<count] m)"

function memcmp_loop :: "bytes \<Rightarrow> ptr \<Rightarrow> ptr \<Rightarrow> nat \<Rightarrow> nat \<Rightarrow> int" where
  "memcmp_loop m p q n i =
     (if i < n then
        if m (p + i) < m (q + i) then - 1
        else if m (p + i) > m (q + i) then 1
        else memcmp_loop m p q n (i + 1)
      else 0)"
  by pat_completeness auto
termination by (relation "measure (\<lambda>(m, p, q, n, i). n - i)") auto

declare memcmp_loop.simps [simp del]

definition memcmp :: "ptr \<Rightarrow> ptr \<Rightarrow> nat \<Rightarrow> bytes \<Rightarrow> int" where
  "memcmp p q n m = memcmp_loop m p q n 0"

section \<open>Strings\<close>

partial_function (option) strlen_from :: "bytes \<Rightarrow> ptr \<Rightarrow> nat \<Rightarrow> nat option" where
  "strlen_from m s k = (if m (s + k) \<noteq> 0 then strlen_from m s (k + 1) else Some k)"

definition strlen :: "ptr \<Rightarrow> bytes \<Rightarrow> nat option" where
  "strlen s m = strlen_from m s 0"

definition strcmp :: "ptr \<Rightarrow> ptr \<Rightarrow> bytes \<Rightarrow> int option" where
  "strcmp p q m = do {
     len1 \<leftarrow> strlen p m;
     len2 \<leftarrow> strlen q m;
     Some (if len1 = len2 then memcmp p q len1 m else - 1)
   }"

definition strcpy :: "ptr \<Rightarrow> ptr \<Rightarrow> bytes \<Rightarrow> (ptr \<times> bytes) option" where
  "strcpy dst src m = do {
     len \<leftarrow> strlen src m;
     Some (0, snd (memcpy dst src len m))
   }"

text \<open>The inner loop of \<open>strstr\<close>: whether it reaches its \<open>return\<close>.\<close>

function strstr_inner :: "bytes \<Rightarrow> ptr \<Rightarrow> ptr \<Rightarrow> nat \<Rightarrow> nat \<Rightarrow> bool" where
  "strstr_inner m p q subLength j =
     (if j < subLength then
        if m (p + j) \<noteq> m (q + j) then False
        else if j = subLength - 1 then True
        else strstr_inner m p q subLength (j + 1)
      else False)"
  by pat_completeness auto
termination by (relation "measure (\<lambda>(m, p, q, n, i). n - i)") auto

declare strstr_inner.simps [simp del]

function strstr_loop :: "bytes \<Rightarrow> ptr \<Rightarrow> ptr \<Rightarrow> nat \<Rightarrow> nat \<Rightarrow> nat \<Rightarrow> ptr" where
  "strstr_loop m p q fullLength subLength i =
     (if i < fullLength then
        if m (p + i) = m q \<and> strstr_inner m (p + i) q subLength 0 then p + i
        else strstr_loop m p q fullLength subLength (i + 1)
      else 0)"
  by pat_completeness auto
termination by (relation "measure (\<lambda>(m, p, q, n, k, i). n - i)") auto

declare strstr_loop.simps [simp del]

definition strstr :: "ptr \<Rightarrow> ptr \<Rightarrow> bytes \<Rightarrow> ptr option" where
  "strstr fullString substring m = do {
     fullLength \<leftarrow> strlen fullString m;
     subLength \<leftarrow> strlen substring m;
     Some (if fullLength < subLength then 0
           else strstr_loop m fullString substring fullLength subLength 0)
   }"

partial_function (option) strspn_from :: "bytes \<Rightarrow> ptr \<Rightarrow> 8 word \<Rightarrow> nat \<Rightarrow> nat option" where
  "strspn_from m s delim k =
     (if m (s + k) = delim \<and> m (s + k) \<noteq> 0 then strspn_from m s delim (k + 1) else Some k)"

definition strspn :: "ptr \<Rightarrow> 8 word \<Rightarrow> bytes \<Rightarrow> nat option" where
  "strspn s delim m = strspn_from m s delim 0"

partial_function (option) strcspn_from :: "bytes \<Rightarrow> ptr \<Rightarrow> 8 word \<Rightarrow> nat \<Rightarrow> nat option" where
  "strcspn_from m s delim k =
     (if m (s + k) \<noteq> delim \<and> m (s + k) \<noteq> 0 then strcspn_from m s delim (k + 1) else Some k)"

definition strcspn :: "ptr \<Rightarrow> 8 word \<Rightarrow> bytes \<Rightarrow> nat option" where
  "strcspn s delim m = strcspn_from m s delim 0"

text \<open>The static variable \<open>current_ptr\<close> is passed along; the result is the token,
  the new \<open>current_ptr\<close> and the memory.\<close>

definition strtok :: "ptr \<Rightarrow> 8 word \<Rightarrow> ptr \<times> bytes \<Rightarrow> (ptr \<times> ptr \<times> bytes) option" where
  "strtok str delim st =
     (case st of (current_ptr, m) \<Rightarrow>
      let str = (if str = 0 then current_ptr else str)
      in if m str = 0 then Some (0, str, m)
         else do {
           n \<leftarrow> strspn str delim m;
           let str = str + n;
           if m str = 0 then Some (0, str, m)
           else do {
             k \<leftarrow> strcspn str delim m;
             let end = str + k;
             if m end = 0 then Some (str, end, m)
             else Some (str, end + 1, m(end := 0))
           }
         })"

text \<open>\<open>int\<close> arithmetic is on 32 bit words; a \<open>char\<close> is signed.\<close>

partial_function (option) atoi_loop :: "bytes \<Rightarrow> ptr \<Rightarrow> nat \<Rightarrow> u32 \<Rightarrow> u32 option" where
  "atoi_loop m s i result =
     (if m (s + i) \<noteq> 0 then atoi_loop m s (i + 1) (result * 10 + scast (m (s + i)) - 48) else Some result)"

definition atoi :: "ptr \<Rightarrow> bytes \<Rightarrow> int option" where
  "atoi s m =
     (let neg = (m s = 45); sign = (if neg then - 1 else 1); i = (if neg then 1 else 0)
      in do { result \<leftarrow> atoi_loop m s i 0; Some (sint (result * sign)) })"

section \<open>What the memory routines do\<close>

lemma copy_byte_at: "copy_byte d s i m a = (if a = d + i then m (s + i) else m a)"
  by (simp add: copy_byte_def)

lemma copy_up:
  assumes "d \<le> s \<or> s + n \<le> d"
  shows "fold (copy_byte d s) [0..<n] m a = (if d \<le> a \<and> a < d + n then m (s + (a - d)) else m a)"
  using assms
proof (induction n arbitrary: a)
  case (Suc n)
  define F where "F = fold (copy_byte d s) [0..<n] m"
  have "d \<le> s \<or> s + n \<le> d" using Suc.prems by auto
  note IH = Suc.IH[OF this, folded F_def]
  have "fold (copy_byte d s) [0..<Suc n] m a = copy_byte d s n F a" by (simp add: F_def)
  also have "\<dots> = (if a = d + n then F (s + n) else F a)" by (rule copy_byte_at)
  finally show ?case using Suc.prems by (simp only: IH) auto
qed auto

lemma copy_down:
  assumes "s \<le> d \<or> d + n \<le> s"
  shows "fold (copy_byte d s) (rev [0..<n]) m a = (if d \<le> a \<and> a < d + n then m (s + (a - d)) else m a)"
  using assms
proof (induction n arbitrary: a m)
  case (Suc n)
  have "s \<le> d \<or> d + n \<le> s" using Suc.prems by auto
  note IH = Suc.IH[OF this]
  have "fold (copy_byte d s) (rev [0..<Suc n]) m a = fold (copy_byte d s) (rev [0..<n]) (copy_byte d s n m) a" by simp
  also have "\<dots> = (if d \<le> a \<and> a < d + n then copy_byte d s n m (s + (a - d)) else copy_byte d s n m a)" by (rule IH)
  also have "\<dots> = (if d \<le> a \<and> a < d + Suc n then m (s + (a - d)) else m a)"
    using Suc.prems by (auto simp: copy_byte_at)
  finally show ?case .
qed auto

lemma memmove_eq:
  "memmove d s n m = (d, \<lambda>a. if d \<le> a \<and> a < d + n then m (s + (a - d)) else m a)"
  unfolding memmove_def using copy_up[of d s n m] copy_down[of s d n m] by (auto intro!: ext)

lemma memcpy_eq:
  "d \<le> s \<or> s + n \<le> d \<Longrightarrow> memcpy d s n m = (d, \<lambda>a. if d \<le> a \<and> a < d + n then m (s + (a - d)) else m a)"
  unfolding memcpy_def by (auto intro!: ext simp: copy_up)

lemma memset_eq:
  "memset p v n m = (p, \<lambda>a. if p \<le> a \<and> a < p + n then word_of_int v else m a)"
proof -
  have "fold (set_byte p v) [0..<n] m a = (if p \<le> a \<and> a < p + n then word_of_int v else m a)" for a
    by (induction n) (auto simp: less_Suc_eq set_byte_def)
  then show ?thesis by (auto simp: memset_def)
qed

text \<open>\<open>cstr m p xs\<close>: at \<open>p\<close> there is the string \<open>xs\<close> with its terminating zero.\<close>

definition region :: "bytes \<Rightarrow> ptr \<Rightarrow> nat \<Rightarrow> 8 word list" where
  "region m p n = map (\<lambda>i. m (p + i)) [0..<n]"

definition cstr :: "bytes \<Rightarrow> ptr \<Rightarrow> 8 word list \<Rightarrow> bool" where
  "cstr m p xs \<longleftrightarrow> region m p (length xs) = xs \<and> 0 \<notin> set xs \<and> m (p + length xs) = 0"

lemma length_region [simp]: "length (region m p n) = n"
  by (simp add: region_def)

lemma nth_region [simp]: "i < n \<Longrightarrow> region m p n ! i = m (p + i)"
  by (simp add: region_def)

lemma region_Suc: "region m p (Suc n) = m p # region m (p + 1) n"
  unfolding region_def by (subst upt_conv_Cons) (auto simp: map_Suc_upt[symmetric] simp del: upt_Suc)

lemma cstr_nth: "cstr m p xs \<Longrightarrow> i < length xs \<Longrightarrow> m (p + i) = xs ! i"
  unfolding cstr_def by (metis nth_region)

lemma cstr_nonzero: "cstr m p xs \<Longrightarrow> i < length xs \<Longrightarrow> m (p + i) \<noteq> 0"
  using cstr_nth[of m p xs i] by (auto simp: cstr_def) (metis nth_mem)

lemma cstr_end: "cstr m p xs \<Longrightarrow> m (p + length xs) = 0"
  by (simp add: cstr_def)

lemma cstr_iff: "cstr m p xs \<longleftrightarrow> (\<forall>i<length xs. m (p + i) = xs ! i \<and> xs ! i \<noteq> 0) \<and> m (p + length xs) = 0"
  by (auto simp: cstr_def list_eq_iff_nth_eq in_set_conv_nth)

lemma cstr_Nil [simp]: "cstr m p [] \<longleftrightarrow> m p = 0"
  by (simp add: cstr_def region_def)

lemma cstr_Cons [simp]: "cstr m p (x # xs) \<longleftrightarrow> m p = x \<and> x \<noteq> 0 \<and> cstr m (p + 1) xs"
  by (auto simp: cstr_def region_Suc)

lemma cstr_drop: "cstr m p xs \<Longrightarrow> k \<le> length xs \<Longrightarrow> cstr m (p + k) (drop k xs)"
  by (auto simp: cstr_iff add.assoc)

lemma cstr_unique: "cstr m p xs \<Longrightarrow> cstr m p ys \<Longrightarrow> xs = ys"
proof (induction xs arbitrary: p ys)
  case Nil
  then show ?case by (cases ys) auto
next
  case (Cons x xs)
  then show ?case by (cases ys) auto
qed

text \<open>A loop that counts the bytes with \<open>P\<close> up to the terminating zero.\<close>

lemma scan_ok:
  assumes s: "cstr m p xs" and k: "k \<le> length (takeWhile P xs)"
    and g: "\<And>k. g k = (if P (m (p + k)) \<and> m (p + k) \<noteq> 0 then g (k + 1) else Some k)"
  shows "g k = Some (length (takeWhile P xs))"
  using k
proof (induction "length (takeWhile P xs) - k" arbitrary: k)
  case 0
  let ?n = "length (takeWhile P xs)"
  have k: "k = ?n" using 0 by simp
  have "\<not> (P (m (p + ?n)) \<and> m (p + ?n) \<noteq> 0)"
  proof (cases "?n < length xs")
    case True
    then show ?thesis using nth_length_takeWhile[OF True] cstr_nth[OF s True] by simp
  next
    case False
    then have "?n = length xs" using length_takeWhile_le[of P xs] by simp
    then show ?thesis using cstr_end[OF s] by simp
  qed
  then show ?case unfolding k by (subst g) auto
next
  case (Suc n)
  then have k: "k < length (takeWhile P xs)" by simp
  then have l: "k < length xs" using length_takeWhile_le[of P xs] by simp
  have "P (takeWhile P xs ! k)" using nth_mem[OF k] set_takeWhileD by fast
  then have "P (m (p + k))" using cstr_nth[OF s l] takeWhile_nth[OF k] by simp
  then have "g k = g (k + 1)" using cstr_nonzero[OF s l] by (subst g) simp
  then show ?case using Suc.hyps(1)[of "k + 1"] Suc.hyps(2) k by simp
qed

lemma strlen_ok:
  assumes "cstr m p xs"
  shows "strlen p m = Some (length xs)"
proof -
  have "strlen_from m p 0 = Some (length (takeWhile (\<lambda>_. True) xs))"
    by (rule scan_ok[OF assms]) (simp, subst strlen_from.simps, simp)
  then show ?thesis by (simp add: strlen_def takeWhile_eq_all_conv[THEN iffD2])
qed

section \<open>Comparison\<close>

text \<open>The sign of the first difference.\<close>

fun lex_cmp :: "u8 list \<Rightarrow> u8 list \<Rightarrow> int" where
  "lex_cmp (x # xs) (y # ys) = (if x < y then - 1 else if y < x then 1 else lex_cmp xs ys)"
| "lex_cmp _ _ = 0"

lemma memcmp_loop_eq:
  "i \<le> n \<Longrightarrow> memcmp_loop m p q n i = lex_cmp (region m (p + i) (n - i)) (region m (q + i) (n - i))"
proof (induction "n - i" arbitrary: i)
  case 0
  then show ?case by (subst memcmp_loop.simps) (simp add: region_def)
next
  case (Suc d)
  then have "n - i = Suc (n - (i + 1))" "i < n" by simp_all
  then show ?case using Suc.hyps(1)[of "i + 1"] Suc.hyps(2)
    by (subst memcmp_loop.simps) (simp add: region_Suc)
qed

lemma memcmp_eq: "memcmp p q n m = lex_cmp (region m p n) (region m q n)"
  by (simp add: memcmp_def memcmp_loop_eq)

lemma lex_cmp_0: "length xs = length ys \<Longrightarrow> lex_cmp xs ys = 0 \<longleftrightarrow> xs = ys"
  by (induction xs ys rule: list_induct2) auto

lemma lex_cmp_less:
  "length xs = length ys \<Longrightarrow>
     lex_cmp xs ys = - 1 \<longleftrightarrow> (\<exists>i<length xs. take i xs = take i ys \<and> xs ! i < ys ! i)"
proof (induction xs ys rule: list_induct2)
  case (Cons x xs y ys)
  have "(\<exists>i<length (x # xs). take i (x # xs) = take i (y # ys) \<and> (x # xs) ! i < (y # ys) ! i) \<longleftrightarrow>
      x < y \<or> x = y \<and> (\<exists>i<length xs. take i xs = take i ys \<and> xs ! i < ys ! i)"
    by (auto simp: Ex_less_Suc2)
  then show ?case using Cons.IH by auto
qed simp

lemma lex_cmp_swap: "length xs = length ys \<Longrightarrow> lex_cmp ys xs = - lex_cmp xs ys"
  by (induction xs ys rule: list_induct2) auto

lemma strcmp_eq:
  "cstr m p xs \<Longrightarrow> cstr m q ys \<Longrightarrow>
     strcmp p q m = Some (if length xs = length ys then lex_cmp xs ys else - 1)"
  by (auto simp: strcmp_def strlen_ok memcmp_eq cstr_def)

section \<open>Search\<close>

lemma region_eq_iff: "region m p n = region m q n \<longleftrightarrow> (\<forall>i<n. m (p + i) = m (q + i))"
  by (auto simp: list_eq_iff_nth_eq)

lemma strstr_inner_iff:
  "j < n \<Longrightarrow> strstr_inner m p q n j \<longleftrightarrow> (\<forall>i. j \<le> i \<and> i < n \<longrightarrow> m (p + i) = m (q + i))"
proof (induction "n - j" arbitrary: j)
  case (Suc d)
  show ?case
  proof (cases "j = n - 1")
    case True
    then have "j \<le> i \<and> i < n \<longleftrightarrow> i = j" for i using Suc.prems by auto
    then show ?thesis using True Suc.prems by (subst strstr_inner.simps) simp
  next
    case False
    then have "strstr_inner m p q n (j + 1) \<longleftrightarrow> (\<forall>i. j + 1 \<le> i \<and> i < n \<longrightarrow> m (p + i) = m (q + i))"
      using Suc by simp
    moreover have "(\<forall>i. j \<le> i \<and> i < n \<longrightarrow> m (p + i) = m (q + i)) \<longleftrightarrow>
        m (p + j) = m (q + j) \<and> (\<forall>i. j + 1 \<le> i \<and> i < n \<longrightarrow> m (p + i) = m (q + i))"
      using Suc.prems by (metis Suc_eq_plus1 Suc_le_eq le_less)
    ultimately show ?thesis using False Suc.prems by (subst strstr_inner.simps) simp
  qed
qed simp

definition occurs_at :: "u8 list \<Rightarrow> u8 list \<Rightarrow> nat \<Rightarrow> bool" where
  "occurs_at ys xs i \<longleftrightarrow> take (length ys) (drop i xs) = ys"

lemma strstr_test:
  assumes x: "cstr m p xs" and y: "cstr m q ys" and ne: "ys \<noteq> []" and i: "i < length xs"
  shows "m (p + i) = m q \<and> strstr_inner m (p + i) q (length ys) 0 \<longleftrightarrow> occurs_at ys xs i"
proof -
  have n: "0 < length ys" using ne by simp
  have "(m (p + i) = m q \<and> strstr_inner m (p + i) q (length ys) 0) \<longleftrightarrow>
      (\<forall>k<length ys. m (p + i + k) = m (q + k))"
    unfolding strstr_inner_iff[OF n] using n by auto
  also have "\<dots> \<longleftrightarrow> occurs_at ys xs i"
  proof
    assume a: "\<forall>k<length ys. m (p + i + k) = m (q + k)"
    have "i + length ys \<le> length xs"
    proof (rule ccontr)
      assume "\<not> i + length ys \<le> length xs"
      then have k: "length xs - i < length ys" using i by simp
      with a have "m (p + i + (length xs - i)) = m (q + (length xs - i))" by blast
      then show False using cstr_end[OF x] cstr_nonzero[OF y k] i by simp
    qed
    then show "occurs_at ys xs i"
      using a cstr_nth[OF x] cstr_nth[OF y]
      by (auto simp: occurs_at_def list_eq_iff_nth_eq add.assoc)
  next
    assume o: "occurs_at ys xs i"
    then have "length (take (length ys) (drop i xs)) = length ys" by (simp add: occurs_at_def)
    then have l: "i + length ys \<le> length xs" using i by simp
    show "\<forall>k<length ys. m (p + i + k) = m (q + k)"
    proof (intro allI impI)
      fix k assume k: "k < length ys"
      have "ys ! k = xs ! (i + k)" using o k l unfolding occurs_at_def by (metis add.commute le_add2 add_leD1 nth_drop nth_take)
      then show "m (p + i + k) = m (q + k)"
        using cstr_nth[OF x, of "i + k"] cstr_nth[OF y k] k l by (simp add: add.assoc)
    qed
  qed
  finally show ?thesis .
qed

lemma strstr_loop_ok:
  assumes x: "cstr m p xs" and y: "cstr m q ys" and ne: "ys \<noteq> []" and i: "i \<le> length xs"
    and before: "\<forall>j<i. \<not> occurs_at ys xs j"
  shows "strstr_loop m p q (length xs) (length ys) i =
     (if \<exists>j<length xs. occurs_at ys xs j then p + (LEAST j. occurs_at ys xs j) else 0)"
  using i before
proof (induction "length xs - i" arbitrary: i)
  case 0
  then show ?case by (subst strstr_loop.simps) auto
next
  case (Suc d)
  then have i: "i < length xs" by simp
  show ?case
  proof (cases "occurs_at ys xs i")
    case True
    then have "(LEAST j. occurs_at ys xs j) = i"
      using Suc.prems(2) by (intro Least_equality) (auto simp: not_less[symmetric])
    then show ?thesis using True i strstr_test[OF x y ne i] by (subst strstr_loop.simps) auto
  next
    case False
    then have "\<forall>j<i + 1. \<not> occurs_at ys xs j" using Suc.prems(2) by (auto simp: less_Suc_eq)
    moreover have "d = length xs - (i + 1)" "i + 1 \<le> length xs" using Suc.hyps(2) by simp_all
    moreover have "strstr_loop m p q (length xs) (length ys) i = strstr_loop m p q (length xs) (length ys) (i + 1)"
      using False i strstr_test[OF x y ne i] by (subst strstr_loop.simps) auto
    ultimately show ?thesis using Suc.hyps(1)[of "i + 1"] by simp
  qed
qed

lemma occurs_at_split: "occurs_at ys xs i \<Longrightarrow> ys \<noteq> [] \<Longrightarrow> i < length xs \<and> xs = take i xs @ ys @ drop (i + length ys) xs"
  unfolding occurs_at_def
  by (metis append_take_drop_id drop_drop add.commute drop_eq_Nil not_le take_Nil)

lemma strstr_ok:
  assumes x: "cstr m p xs" and y: "cstr m q ys" and ne: "ys \<noteq> []"
  shows "strstr p q m = Some (if \<exists>j. occurs_at ys xs j then p + (LEAST j. occurs_at ys xs j) else 0)"
proof -
  have "(\<exists>j<length xs. occurs_at ys xs j) \<longleftrightarrow> (\<exists>j. occurs_at ys xs j)" using occurs_at_split ne by blast
  moreover have "length xs < length ys \<Longrightarrow> \<not> occurs_at ys xs j" for j
    by (auto simp: occurs_at_def)
  ultimately show ?thesis
    using strstr_loop_ok[OF x y ne, of 0] by (auto simp: strstr_def strlen_ok[OF x] strlen_ok[OF y])
qed

section \<open>Tokens\<close>

lemma drop_dropWhile_shorter:
  assumes "dropWhile P xs = y # ys"
  shows "length (drop 1 (dropWhile Q (y # ys))) < length xs"
proof -
  have "length (dropWhile Q (y # ys)) \<le> length (y # ys)" by (rule length_dropWhile_le)
  moreover have "length (y # ys) \<le> length xs" using length_dropWhile_le[of P xs] assms by simp
  ultimately show ?thesis by (simp del: dropWhile.simps)
qed

text \<open>The maximal runs of bytes other than \<open>d\<close>.\<close>

function tokens :: "u8 \<Rightarrow> u8 list \<Rightarrow> u8 list list" where
  "tokens d xs =
     (case dropWhile (\<lambda>x. x = d) xs of [] \<Rightarrow> []
      | y # ys \<Rightarrow> takeWhile (\<lambda>x. x \<noteq> d) (y # ys) # tokens d (drop 1 (dropWhile (\<lambda>x. x \<noteq> d) (y # ys))))"
  by pat_completeness auto

termination
proof (relation "measure (\<lambda>(d, xs). length xs)", goal_cases)
  case (2 d xs y ys)
  then show ?case by (simp only: in_measure prod.case) (rule drop_dropWhile_shorter)
qed simp

declare tokens.simps [simp del]

lemma strspn_ok: "cstr m p xs \<Longrightarrow> strspn p d m = Some (length (takeWhile (\<lambda>x. x = d) xs))"
  unfolding strspn_def by (rule scan_ok) (assumption, simp, rule strspn_from.simps)

lemma strcspn_ok: "cstr m p xs \<Longrightarrow> strcspn p d m = Some (length (takeWhile (\<lambda>x. x \<noteq> d) xs))"
  unfolding strcspn_def by (rule scan_ok) (assumption, simp, rule strcspn_from.simps)

lemma drop_length_takeWhile: "drop (length (takeWhile P xs)) xs = dropWhile P xs"
  by (simp add: dropWhile_eq_drop)

lemma cstr_upd: "cstr m p xs \<Longrightarrow> a < p \<or> p + length xs < a \<Longrightarrow> cstr (m(a := v)) p xs"
  by (auto simp: cstr_iff)

lemma cstr_cut:
  assumes "cstr m p (xs @ ys)"
  shows "cstr (m(p + length xs := 0)) p xs"
  using assms unfolding cstr_iff by (auto simp: nth_append) (metis trans_less_add1)

text \<open>One call, on a string \<open>xs\<close> at \<open>s\<close>.\<close>

lemma strtok_none:
  assumes s: "cstr m s xs" and none: "dropWhile (\<lambda>x. x = d) xs = []" and str: "s = (if str = 0 then cp else str)"
  shows "strtok str d (cp, m) = Some (0, s + length xs, m)"
proof -
  have n: "length (takeWhile (\<lambda>x. x = d) xs) = length xs"
    using none by (metis drop_length_takeWhile drop_eq_Nil length_takeWhile_le le_antisym)
  show ?thesis
  proof (cases "xs = []")
    case True
    then show ?thesis using s str[symmetric] by (simp add: strtok_def Let_def)
  next
    case False
    then have "m s \<noteq> 0" using cstr_nonzero[OF s, of 0] by simp
    then show ?thesis
      using str[symmetric] strspn_ok[OF s, of d] n cstr_end[OF s] by (simp add: strtok_def Let_def)
  qed
qed

lemma strtok_some:
  assumes s: "cstr m s xs" and some: "dropWhile (\<lambda>x. x = d) xs = y # ys" and str: "s = (if str = 0 then cp else str)"
    and t: "t = takeWhile (\<lambda>x. x \<noteq> d) (y # ys)" and r: "r = drop 1 (dropWhile (\<lambda>x. x \<noteq> d) (y # ys))"
    and n: "n = length (takeWhile (\<lambda>x. x = d) xs)"
  shows "\<exists>c m'. strtok str d (cp, m) = Some (s + n, c, m') \<and> cstr m' (s + n) t \<and> cstr m' c r \<and>
    s + n + length t \<le> c \<and> c + length r = s + length xs \<and> (\<forall>a. a < s \<or> s + length xs \<le> a \<longrightarrow> m' a = m a)"
proof -
  have nl: "n \<le> length xs" unfolding n by (rule length_takeWhile_le)
  have at: "cstr m (s + n) (y # ys)" using cstr_drop[OF s nl] some unfolding n drop_length_takeWhile by simp
  have len: "length xs = n + length (y # ys)"
    using some unfolding n by (metis length_append takeWhile_dropWhile_id)
  have "xs \<noteq> []" using some by auto
  then have ne: "m s \<noteq> 0" using cstr_nonzero[OF s, of 0] by simp
  have y: "m (s + n) \<noteq> 0" using at by simp
  have sp: "strspn s d m = Some n" using strspn_ok[OF s, of d] by (simp add: n)
  have cs: "strcspn (s + n) d m = Some (length t)"
    using strcspn_ok[OF at, of d] unfolding t .
  have parts: "y # ys = t @ dropWhile (\<lambda>x. x \<noteq> d) (y # ys)" unfolding t by (rule takeWhile_dropWhile_id[symmetric])
  show ?thesis
  proof (cases "dropWhile (\<lambda>x. x \<noteq> d) (y # ys)")
    case Nil
    have ty: "t = y # ys" using parts Nil by (metis append_Nil2)
    have r0: "r = []" unfolding r Nil by simp
    have "m (s + n + length t) = 0" using cstr_end[OF at] unfolding ty .
    then have "strtok str d (cp, m) = Some (s + n, s + n + length t, m)"
      using str[symmetric] ne y sp cs by (simp add: strtok_def Let_def)
    then show ?thesis using at ty r0 cstr_end[OF at] len
      by (intro exI[of _ "s + n + length t"] exI[of _ m]) (simp del: cstr_Cons)
  next
    case (Cons z zs)
    have "r = zs" unfolding r Cons by simp
    then have p: "y # ys = t @ z # r" using parts Cons by metis
    have at': "cstr m (s + n) (t @ z # r)" using at p by simp
    have tl: "length t < length (t @ z # r)" by simp
    have "m (s + n + length t) \<noteq> 0" using cstr_nonzero[OF at' tl] .
    then have st: "strtok str d (cp, m) = Some (s + n, s + n + length t + 1, m(s + n + length t := 0))"
      using str[symmetric] ne y sp cs by (simp add: strtok_def Let_def)
    have "cstr m (s + n + (length t + 1)) (drop (length t + 1) (t @ z # r))" by (rule cstr_drop[OF at']) simp
    then have "cstr m (s + n + length t + 1) r" by (simp add: add.assoc)
    then have "cstr (m(s + n + length t := 0)) (s + n + length t + 1) r" by (rule cstr_upd) simp
    moreover have "cstr (m(s + n + length t := 0)) (s + n) t" by (rule cstr_cut[OF at'])
    moreover have "s + length xs = s + n + length t + 1 + length r" using len p by simp
    ultimately show ?thesis
      unfolding st by (intro exI[of _ "s + n + length t + 1"] exI[of _ "m(s + n + length t := 0)"]) auto
  qed
qed

text \<open>How callers use it: the first call passes the string, the others \<open>NULL\<close>, until
  the result is \<open>NULL\<close>; at most \<open>n\<close> calls.\<close>

fun strtok_all :: "nat \<Rightarrow> ptr \<Rightarrow> u8 \<Rightarrow> ptr \<times> bytes \<Rightarrow> (ptr list \<times> bytes) option" where
  "strtok_all 0 str d st = None"
| "strtok_all (Suc n) str d st = do {
     (t, c, m) \<leftarrow> strtok str d st;
     if t = 0 then Some ([], m)
     else do { (ts, m') \<leftarrow> strtok_all n 0 d (c, m); Some (t # ts, m') }
   }"

lemma cstr_cong: "cstr m p xs \<Longrightarrow> (\<And>a. p \<le> a \<Longrightarrow> a \<le> p + length xs \<Longrightarrow> m' a = m a) \<Longrightarrow> cstr m' p xs"
  by (auto simp: cstr_iff)

lemma strtok_all_ok:
  "\<lbrakk>cstr m s xs; 0 < s; s = (if str = 0 then cp else str); length xs < n\<rbrakk> \<Longrightarrow>
     \<exists>ts m'. strtok_all n str d (cp, m) = Some (ts, m') \<and> list_all2 (cstr m') ts (tokens d xs) \<and>
       (\<forall>a. a < s \<or> s + length xs \<le> a \<longrightarrow> m' a = m a)"
proof (induction n arbitrary: m s xs str cp)
  case (Suc n)
  note s = Suc.prems(1)
  show ?case
  proof (cases "dropWhile (\<lambda>x. x = d) xs")
    case Nil
    then have "strtok_all (Suc n) str d (cp, m) = Some ([], m)"
      using strtok_none[OF s Nil Suc.prems(3)] by simp
    moreover have "tokens d xs = []" by (subst tokens.simps) (simp only: Nil list.case)
    ultimately show ?thesis by simp
  next
    case (Cons y ys)
    define t where "t = takeWhile (\<lambda>x. x \<noteq> d) (y # ys)"
    define r where "r = drop 1 (dropWhile (\<lambda>x. x \<noteq> d) (y # ys))"
    define k where "k = length (takeWhile (\<lambda>x. x = d) xs)"
    have tk: "tokens d xs = t # tokens d r" unfolding t_def r_def by (subst tokens.simps) (simp only: Cons list.case)
    obtain c m1 where st: "strtok str d (cp, m) = Some (s + k, c, m1)" and t1: "cstr m1 (s + k) t"
      and c1: "cstr m1 c r" "s + k + length t \<le> c" "c + length r = s + length xs"
      and fr: "\<forall>a. a < s \<or> s + length xs \<le> a \<longrightarrow> m1 a = m a"
      using strtok_some[OF s Cons Suc.prems(3) t_def r_def k_def] by blast
    have "t \<noteq> []" using Cons unfolding t_def by (metis hd_dropWhile list.distinct(1) list.sel(1) takeWhile.simps(2))
    then have cpos: "0 < c" "s + k < c" using c1(2) by (cases t; simp)+
    have "length r < length xs" unfolding r_def by (rule drop_dropWhile_shorter[OF Cons])
    then have lr: "length r < n" using Suc.prems(4) by simp
    obtain ts m' where IH: "strtok_all n 0 d (c, m1) = Some (ts, m')" "list_all2 (cstr m') ts (tokens d r)"
      "\<forall>a. a < c \<or> c + length r \<le> a \<longrightarrow> m' a = m1 a"
      using Suc.IH[OF c1(1) cpos(1) _ lr, of 0 c] by auto
    have all: "strtok_all (Suc n) str d (cp, m) = Some ((s + k) # ts, m')"
      using st IH(1) Suc.prems(2) by simp
    have "cstr m' (s + k) t"
    proof (rule cstr_cong[OF t1])
      fix a assume "s + k \<le> a" "a \<le> s + k + length t"
      then have "a < c \<or> a = c \<and> c = s + k + length t" using c1(2) by auto
      then show "m' a = m1 a"
      proof
        assume a: "a = c \<and> c = s + k + length t"
        then have "m1 c = 0" using cstr_end[OF t1] by simp
        then have "r = []" using c1(1) by (cases r) auto
        then show ?thesis using IH(3) a by simp
      qed (use IH(3) in blast)
    qed
    moreover have "\<forall>a. a < s \<or> s + length xs \<le> a \<longrightarrow> m' a = m a" using IH(3) fr c1(3) cpos(2) by auto
    ultimately show ?thesis using all IH(2) tk by simp
  qed
qed simp

section \<open>Numbers\<close>

definition digit :: "u8 \<Rightarrow> bool" where "digit c \<longleftrightarrow> 48 \<le> c \<and> c \<le> 57"

definition dec_value :: "u8 list \<Rightarrow> nat" where
  "dec_value xs = foldl (\<lambda>v c. v * 10 + (unat c - 48)) 0 xs"

lemma atoi_loop_ok:
  "cstr m p xs \<Longrightarrow> i \<le> length xs \<Longrightarrow>
     atoi_loop m p i acc = Some (foldl (\<lambda>v c. v * 10 + scast c - 48) acc (drop i xs))"
proof (induction "length xs - i" arbitrary: i acc)
  case 0
  then show ?case using cstr_end[of m p xs] by (subst atoi_loop.simps) simp
next
  case (Suc n)
  then have i: "i < length xs" by simp
  then show ?case
    using Suc cstr_nonzero[OF Suc.prems(1) i] cstr_nth[OF Suc.prems(1) i]
    by (subst atoi_loop.simps) (simp add: Cons_nth_drop_Suc[symmetric])
qed

lemma digit_scast:
  assumes "digit c"
  shows "(scast c :: u32) - 48 = of_nat (unat c - 48)"
proof -
  have c: "unat c < 128" "48 \<le> unat c" using assms by (auto simp: digit_def word_le_nat_alt)
  have u: "int (unat c) = uint c" by simp
  then have "uint c < 128" "- 128 \<le> uint c" using c(1) by linarith+
  then have "sint c = int (unat c)" by (simp add: sint_uint signed_take_bit_int_eq_self)
  then have "(scast c :: u32) = word_of_nat (unat c)" by (metis of_int_of_nat_eq of_int_sint scast_eq)
  then show ?thesis using c(2) by (simp add: of_nat_diff)
qed

lemma foldl_digits:
  "\<forall>c\<in>set xs. digit c \<Longrightarrow>
     foldl (\<lambda>v c. v * 10 + scast c - 48) (of_nat a) xs = (of_nat (foldl (\<lambda>v c. v * 10 + (unat c - 48)) a xs) :: u32)"
proof (induction xs arbitrary: a)
  case (Cons c xs)
  have "of_nat a * 10 + scast c - 48 = (of_nat (a * 10 + (unat c - 48)) :: u32)"
    using digit_scast[of c] Cons.prems by (simp add: algebra_simps)
  then show ?case using Cons by (simp del: of_nat_add of_nat_mult)
qed simp

lemma sint_small: "- (2 ^ 31) \<le> k \<Longrightarrow> k < 2 ^ 31 \<Longrightarrow> sint (word_of_int k :: u32) = k"
  by (simp add: signed_of_int signed_take_bit_int_eq_self)

lemma atoi_digits:
  assumes s: "cstr m p xs" and d: "\<forall>c\<in>set xs. digit c" and v: "dec_value xs < 2 ^ 31"
  shows "atoi p m = Some (int (dec_value xs))"
proof -
  have "m p \<noteq> 45" using s d by (cases xs) (auto simp: digit_def)
  moreover have "sint (word_of_nat (dec_value xs) :: u32) = int (dec_value xs)"
    using sint_small[of "int (dec_value xs)"] v by simp
  ultimately show ?thesis
    using atoi_loop_ok[OF s, of 0 0] foldl_digits[OF d, of 0] by (simp add: atoi_def dec_value_def)
qed

lemma atoi_negative:
  assumes s: "cstr m p (45 # xs)" and d: "\<forall>c\<in>set xs. digit c" and v: "dec_value xs \<le> 2 ^ 31"
  shows "atoi p m = Some (- int (dec_value xs))"
proof -
  have "(word_of_nat (dec_value xs) :: u32) * - 1 = word_of_int (- int (dec_value xs))" by simp
  then have "sint ((word_of_nat (dec_value xs) :: u32) * - 1) = - int (dec_value xs)"
    using sint_small[of "- int (dec_value xs)"] v by simp
  then show ?thesis
    using atoi_loop_ok[OF s, of 1 0] foldl_digits[OF d, of 0] s by (simp add: atoi_def dec_value_def)
qed

section \<open>Properties\<close>

text \<open>A memory with \<open>"ab"\<close> at 1, \<open>"b"\<close> at 4 and \<open>"--12"\<close> at 8.\<close>

definition mem_ex :: bytes where
  "mem_ex = (\<lambda>_. 0)(1 := 97, 2 := 98, 4 := 98, 8 := 45, 9 := 45, 10 := 49, 11 := 50)"

lemma mem_ex_strings: "cstr mem_ex 1 [97, 98]" "cstr mem_ex 4 [98]" "cstr mem_ex 8 [45, 45, 49, 50]" "cstr mem_ex 9 [45, 49, 50]"
  by (simp_all add: mem_ex_def)

text \<open>
  C31. \<open>memmove\<close> copies correctly whether or not the two regions overlap, in either direction, and
  touches nothing outside the destination.
\<close>

theorem memmove_spec:
  "\<exists>m'. memmove dst src n m = (dst, m') \<and> region m' dst n = region m src n \<and>
     (\<forall>a. a < dst \<or> dst + n \<le> a \<longrightarrow> m' a = m a)"
  by (auto simp: memmove_eq list_eq_iff_nth_eq)

theorem memmove_spec_witness: "\<exists>m'. memmove 2 1 2 mem_ex = (2, m') \<and> region m' 2 2 = [97, 98] \<and> m' 8 = 45"
  using memmove_spec[of 2 1 2 mem_ex] by (auto simp: region_def mem_ex_def upt_rec)

text \<open>
  C32. Two strings are equal exactly when \<open>strcmp\<close> returns 0, and strings of the same length are ordered by
  their first difference; but strings of different lengths give \<open>-1\<close> whichever comes
  first, so the result is not an order.
\<close>

theorem strcmp_spec:
  assumes "cstr m p xs" and "cstr m q ys"
  shows "\<exists>r. strcmp p q m = Some r \<and> (r = 0 \<longleftrightarrow> xs = ys) \<and>
    (length xs = length ys \<longrightarrow> strcmp q p m = Some (- r) \<and>
       (r = - 1 \<longleftrightarrow> (\<exists>i<length xs. take i xs = take i ys \<and> xs ! i < ys ! i))) \<and>
    (length xs \<noteq> length ys \<longrightarrow> r = - 1 \<and> strcmp q p m = Some (- 1))"
  using strcmp_eq[OF assms] strcmp_eq[OF assms(2,1)] lex_cmp_0[of xs ys] lex_cmp_less[of xs ys] lex_cmp_swap[of xs ys]
  by auto

theorem strcmp_spec_witness: "strcmp 1 4 mem_ex = Some (- 1) \<and> strcmp 4 1 mem_ex = Some (- 1)"
  using strcmp_spec[OF mem_ex_strings(1,2)] by auto



text \<open>
  C23. Calling \<open>strtok\<close> until it returns \<open>NULL\<close> splits a string into exactly its maximal runs of bytes other than the
  delimiter, in order: every pointer returned is the start of a zero terminated token, and
  no byte outside the string is written. The loop ends after at most one call per
  byte and one more.
\<close>

theorem strtok_spec:
  assumes "cstr m s xs" and "0 < s"
  shows "\<exists>ts m'. strtok_all (length xs + 1) s d (cp, m) = Some (ts, m') \<and>
    list_all2 (cstr m') ts (tokens d xs) \<and> (\<forall>a. a < s \<or> s + length xs \<le> a \<longrightarrow> m' a = m a)"
  using strtok_all_ok[OF assms, of s cp "length xs + 1" d] assms(2) by simp

theorem strtok_spec_witness:
  "\<exists>ts m'. strtok_all 5 8 45 (0, mem_ex) = Some (ts, m') \<and> list_all2 (cstr m') ts [[49, 50]]"
proof -
  have "tokens 45 [] = []" by (subst tokens.simps) simp
  then have "tokens 45 [45, 45, 49, 50] = [[49, 50]]" by (subst tokens.simps) simp
  moreover have "length [45, 45, 49, 50 :: u8] + 1 = 5" by simp
  ultimately show ?thesis using strtok_spec[OF mem_ex_strings(3), of 45 0] by (metis zero_less_numeral)
qed

text \<open>
  \<open>atoi\<close> reads every decimal number of the range of \<open>int\<close>, with its sign, although the
  intermediate sums wrap.
\<close>

theorem atoi_spec:
  assumes "\<forall>c\<in>set xs. digit c"
  shows "(cstr m p xs \<and> dec_value xs < 2 ^ 31 \<longrightarrow> atoi p m = Some (int (dec_value xs))) \<and>
    (cstr m p (45 # xs) \<and> dec_value xs \<le> 2 ^ 31 \<longrightarrow> atoi p m = Some (- int (dec_value xs)))"
  using atoi_digits[of m p xs] atoi_negative[of m p xs] assms by blast

theorem atoi_spec_witness: "atoi 9 mem_ex = Some (- 12) \<and> atoi 10 mem_ex = Some 12"
proof -
  have d: "\<forall>c\<in>set [49, 50]. digit c" and v: "dec_value [49, 50] = 12"
    by (simp_all add: digit_def dec_value_def)
  have "cstr mem_ex 10 [49, 50]" by (simp add: mem_ex_def)
  then show ?thesis using atoi_spec[OF d, of mem_ex 10] atoi_spec[OF d, of mem_ex 9] mem_ex_strings(4) v by simp
qed

end
