(* ===== verification/Strdup.thy ===== *)
theory Strdup
  imports Vmheap Cstring
begin

text \<open>
  \<open>strdup\<close>, which the kernel (\<open>src/klib/string/strdup.c\<close>) runs over \<open>vmalloc\<close> and the C library
  (\<open>src/libc/string/strdup.c\<close>) over \<open>malloc\<close>. Both take the allocator as a parameter here;
  the state is the memory and the allocator's.
\<close>

definition strdup ::
    "(nat \<Rightarrow> 's \<Rightarrow> (ptr \<times> 's) option) \<Rightarrow> ptr \<Rightarrow> bytes \<times> 's \<Rightarrow> (ptr \<times> bytes \<times> 's) option" where
  "strdup alloc str st = (case st of (m, s) \<Rightarrow> do {
     len \<leftarrow> strlen str m;
     (ret, s') \<leftarrow> alloc (w64 (len + 1)) s;
     if ret = 0 then Some (0, m, s')
     else Some (ret, (snd (memcpy ret str (len + 1) m))(ret + len := 0), s')
   })"

text \<open>The version of the C library does not look at the result of \<open>malloc\<close>.\<close>

definition libc_strdup ::
    "(nat \<Rightarrow> 's \<Rightarrow> (ptr \<times> 's) option) \<Rightarrow> ptr \<Rightarrow> bytes \<times> 's \<Rightarrow> (ptr \<times> bytes \<times> 's) option" where
  "libc_strdup alloc str st = (case st of (m, s) \<Rightarrow> do {
     len \<leftarrow> strlen str m;
     (ret, s') \<leftarrow> alloc (w64 (len + 1)) s;
     Some (ret, (snd (memcpy ret str len m))(ret + len := 0), s')
   })"

lemma copy_string:
  assumes s: "cstr m p xs" and sep: "r + length xs < p \<or> p + length xs < r" and n: "n = length xs \<or> n = length xs + 1"
  shows "(snd (memcpy r p n m))(r + length xs := 0) = (\<lambda>a. if r \<le> a \<and> a \<le> r + length xs then m (p + (a - r)) else m a)"
proof -
  have "r \<le> p \<or> p + n \<le> r" using sep n by auto
  note c = memcpy_eq[OF this]
  show ?thesis unfolding c using n cstr_end[OF s] by (auto simp: fun_eq_iff)
qed

lemma copy_cstr:
  assumes s: "cstr m p xs" and m': "m' = (\<lambda>a. if r \<le> a \<and> a \<le> r + length xs then m (p + (a - r)) else m a)"
  shows "cstr m' r xs"
  using s by (auto simp: cstr_iff m')

text \<open>The two versions do the same when the allocation succeeds.\<close>

lemma strdup_same:
  assumes s: "cstr m p xs" and a: "alloc (w64 (length xs + 1)) s = Some (r, s')" "r \<noteq> 0"
    and sep: "r + length xs < p \<or> p + length xs < r"
  shows "strdup alloc p (m, s) = libc_strdup alloc p (m, s)"
  using copy_string[OF s sep, of "length xs"] copy_string[OF s sep, of "length xs + 1"] a
  by (simp add: strdup_def libc_strdup_def strlen_ok[OF s])

context allocator
begin

lemma strdup_ok:
  assumes rep: "rep s L" and str: "cstr m p xs" and own: "(q, k) \<in> L" "q \<le> p" "p + length xs < q + k"
    and small: "length xs + 1 < max_req" "length xs + 1 < 2 ^ 64"
  shows "\<exists>r m' s'. strdup alloc p (m, s) = Some (r, m', s') \<and>
    (r = 0 \<and> m' = m \<and> rep s' L \<or>
     r \<noteq> 0 \<and> cstr m' r xs \<and> cstr m' p xs \<and> (\<forall>a. a < r \<or> r + length xs < a \<longrightarrow> m' a = m a) \<and>
       (\<exists>j>length xs. rep s' (insert (r, j) L)))"
proof -
  obtain r s' where a: "alloc (length xs + 1) s = Some (r, s')"
    and c: "r = 0 \<and> rep s' L \<or> r \<noteq> 0 \<and> r \<notin> fst ` L \<and> (\<exists>j\<ge>length xs + 1. rep s' (insert (r, j) L))"
    using alloc_rep[OF rep small(1)] by blast
  show ?thesis
  proof (cases "r = 0")
    case True
    then show ?thesis using a c small(2) by (simp add: strdup_def strlen_ok[OF str])
  next
    case False
    then obtain j where j': "length xs + 1 \<le> j" and j: "rep s' (insert (r, j) L)" "r \<notin> fst ` L" using c by blast
    then have "(r, j) \<noteq> (q, k)" using own(1) by force
    then have "r + j < q \<or> q + k < r" using rep_disjoint[OF j(1), of r j q k] own(1) by simp
    then have sep: "r + length xs < p \<or> p + length xs < r" using j' own(2,3) by auto
    define m' where "m' = (\<lambda>a. if r \<le> a \<and> a \<le> r + length xs then m (p + (a - r)) else m a)"
    have "strdup alloc p (m, s) = Some (r, m', s')"
      using a False small(2) copy_string[OF str sep, of "length xs + 1"]
      by (simp add: strdup_def strlen_ok[OF str] m'_def)
    moreover have "cstr m' r xs" by (rule copy_cstr[OF str m'_def])
    moreover have "cstr m' p xs" using sep by (intro cstr_cong[OF str]) (auto simp: m'_def)
    moreover have "\<exists>j>length xs. rep s' (insert (r, j) L)" using j(1) j' by (intro exI[of _ j]) simp
    moreover have "\<forall>a. a < r \<or> r + length xs < a \<longrightarrow> m' a = m a" by (auto simp: m'_def)
    ultimately show ?thesis using False by blast
  qed
qed

end

section \<open>Properties\<close>

text \<open>
  C33. Duplicating a string that lies in a block of the virtual heap returns \<open>NULL\<close> and changes no memory, or returns a
  new block that holds the same string; the original string, every other byte
  and every other block stay as they are.
\<close>

theorem strdup_spec:
  assumes "vmheap_rep F v L" and "cstr m p xs" and "(q, k) \<in> L" "q \<le> p" "p + length xs < q + k"
    and "length xs + 1 < 2 ^ 36"
  shows "\<exists>r m' v'. strdup vmalloc p (m, v) = Some (r, m', v') \<and>
    (r = 0 \<and> m' = m \<and> vmheap_rep F v' L \<or>
     r \<noteq> 0 \<and> cstr m' r xs \<and> cstr m' p xs \<and> (\<forall>a. a < r \<or> r + length xs < a \<longrightarrow> m' a = m a) \<and>
       (\<exists>j>length xs. vmheap_rep F v' (insert (r, j) L)))"
proof -
  have "length xs + 1 < 2 ^ 64" using assms(6) by simp
  from vh.strdup_ok[OF assms this] show ?thesis .
qed

definition mem_a :: bytes where "mem_a = (\<lambda>_. 0)(KERNEL_VIRTUAL_START + 4008 := 97)"

theorem strdup_spec_witness:
  "\<exists>r m' v'. strdup vmalloc (KERNEL_VIRTUAL_START + 4008) (mem_a, vmheap_one (pm_boot kqueue_one)) = Some (r, m', v') \<and>
    (r \<noteq> 0 \<longrightarrow> cstr m' r [97] \<and> cstr m' (KERNEL_VIRTUAL_START + 4008) [97])"
proof -
  have "cstr mem_a (KERNEL_VIRTUAL_START + 4008) [97]" by (simp add: mem_a_def)
  from strdup_spec[OF vmheap_one_rep[OF pmm_rep_wf[OF pm_boot_one(1)]] this, of "KERNEL_VIRTUAL_START + 4008" 88]
  show ?thesis by auto
qed

text \<open>
  The \<open>strdup\<close> of the C library agrees with the kernel's whenever the allocation succeeds; when \<open>malloc\<close> returns
  \<open>NULL\<close> it copies the string over the bytes from address 0 on, and returns \<open>NULL\<close>.
\<close>

theorem libc_strdup_spec:
  assumes "cstr m p xs" and "alloc (w64 (length xs + 1)) s = Some (r, s')"
    and "r + length xs < p \<or> p + length xs < r"
  shows "(r \<noteq> 0 \<longrightarrow> libc_strdup alloc p (m, s) = strdup alloc p (m, s)) \<and>
    (r = 0 \<longrightarrow> (\<exists>m'. libc_strdup alloc p (m, s) = Some (0, m', s') \<and> cstr m' 0 xs))"
proof -
  have c: "(snd (memcpy r p (length xs) m))(r + length xs := 0) = (\<lambda>a. if r \<le> a \<and> a \<le> r + length xs then m (p + (a - r)) else m a)"
    using copy_string[OF assms(1,3)] by simp
  have "libc_strdup alloc p (m, s) = Some (r, (\<lambda>a. if r \<le> a \<and> a \<le> r + length xs then m (p + (a - r)) else m a), s')"
    using assms(2) unfolding libc_strdup_def by (simp add: strlen_ok[OF assms(1)] c)
  then show ?thesis using strdup_same[where alloc = alloc, OF assms(1,2) _ assms(3)] copy_cstr[OF assms(1) refl, of r] by auto
qed

theorem libc_strdup_spec_witness:
  "\<exists>m'. libc_strdup (\<lambda>_ _. Some (0, ())) 4 (mem_ex, ()) = Some (0, m', ()) \<and> cstr m' 0 [98]"
  using libc_strdup_spec[OF mem_ex_strings(2), of "\<lambda>_ _. Some (0, ())" "()" 0 "()"] by simp

end
