(* ===== verification/Encoding.thy ===== *)
theory Encoding
  imports Prelude
begin

text \<open>
  Byte order and the text form of identifiers: \<open>src/shared/endian/byteorder.c\<close> and
  \<open>src/shared/uuid/uuid.c\<close>.
\<close>

unbundle bit_operations_syntax

section \<open>Bytes of a word\<close>

text \<open>The bytes of a word, the least significant one first: its layout in the memory of a
  little endian machine.\<close>

definition word_bytes :: "'a::len word \<Rightarrow> u8 list" where
  "word_bytes w = map (\<lambda>i. ucast (drop_bit (8 * i) w)) [0..<LENGTH('a) div 8]"

fun bytes_word :: "u8 list \<Rightarrow> 'a::len word" where
  "bytes_word [] = 0"
| "bytes_word (b # bs) = ucast b OR push_bit 8 (bytes_word bs)"

text \<open>The compiler's \<open>__builtin_bswap\<close>.\<close>

definition bswap :: "'a::len word \<Rightarrow> 'a word" where
  "bswap w = bytes_word (rev (word_bytes w))"

section \<open>\<open>byteorder.c\<close>\<close>

text \<open>The kernel is compiled for a little endian machine: \<open>TO_BIG\<close> swaps, \<open>TO_LITTLE\<close> does not.\<close>

definition TO_BIG :: "'a::len word \<Rightarrow> 'a word" where "TO_BIG v = bswap v"
definition TO_LITTLE :: "'a::len word \<Rightarrow> 'a word" where "TO_LITTLE v = v"

definition htobe16 :: "u16 \<Rightarrow> u16" where "htobe16 host = TO_BIG host"
definition htobe32 :: "u32 \<Rightarrow> u32" where "htobe32 host = TO_BIG host"
definition htobe64 :: "u64 \<Rightarrow> u64" where "htobe64 host = TO_BIG host"
definition htole16 :: "u16 \<Rightarrow> u16" where "htole16 host = TO_LITTLE host"
definition htole32 :: "u32 \<Rightarrow> u32" where "htole32 host = TO_LITTLE host"
definition htole64 :: "u64 \<Rightarrow> u64" where "htole64 host = TO_LITTLE host"
definition be16toh :: "u16 \<Rightarrow> u16" where "be16toh big = TO_BIG big"
definition be32toh :: "u32 \<Rightarrow> u32" where "be32toh big = TO_BIG big"
definition be64toh :: "u64 \<Rightarrow> u64" where "be64toh big = TO_BIG big"
definition le16toh :: "u16 \<Rightarrow> u16" where "le16toh little = TO_LITTLE little"
definition le32toh :: "u32 \<Rightarrow> u32" where "le32toh little = TO_LITTLE little"
definition le64toh :: "u64 \<Rightarrow> u64" where "le64toh little = TO_LITTLE little"
definition htons :: "u16 \<Rightarrow> u16" where "htons host = TO_BIG host"
definition htonl :: "u32 \<Rightarrow> u32" where "htonl host = TO_BIG host"
definition ntohs :: "u16 \<Rightarrow> u16" where "ntohs net = TO_BIG net"
definition ntohl :: "u32 \<Rightarrow> u32" where "ntohl net = TO_BIG net"

lemmas byteorder_defs = htobe16_def htobe32_def htobe64_def htole16_def htole32_def htole64_def
  be16toh_def be32toh_def be64toh_def le16toh_def le32toh_def le64toh_def
  htons_def htonl_def ntohs_def ntohl_def TO_BIG_def TO_LITTLE_def

lemma bit_bytes_word:
  "8 * length bs \<le> LENGTH('a) \<Longrightarrow>
     bit (bytes_word bs :: 'a::len word) k \<longleftrightarrow> k < 8 * length bs \<and> bit (bs ! (k div 8)) (k mod 8)"
proof (induction bs arbitrary: k)
  case (Cons b bs)
  note IH = Cons.IH[of "k - 8"]
  show ?case
  proof (cases "k < 8")
    case True
    then show ?thesis using Cons.prems by (auto simp: bit_or_iff bit_push_bit_iff bit_ucast_iff)
  next
    case False
    then have "\<not> bit b k" using bit_imp_le_length[of b k] by auto
    moreover have "k div 8 = Suc ((k - 8) div 8)" "(k - 8) mod 8 = k mod 8" using False
      by (simp_all add: le_div_geq le_mod_geq)
    ultimately show ?thesis using IH False Cons.prems bit_imp_le_length[of "bytes_word (b # bs)::'a word" k]
      by (auto simp: bit_or_iff bit_push_bit_iff bit_ucast_iff)
  qed
qed simp

lemma word_bytes_bytes_word:
  assumes "8 * length bs = LENGTH('a)"
  shows "word_bytes (bytes_word bs :: 'a::len word) = bs"
proof (rule nth_equalityI)
  have n: "LENGTH('a) div 8 = length bs" using assms by simp
  then show "length (word_bytes (bytes_word bs :: 'a word)) = length bs" by (simp add: word_bytes_def)
  fix i assume "i < length (word_bytes (bytes_word bs :: 'a word))"
  then have i: "i < length bs" using n by (simp add: word_bytes_def)
  show "word_bytes (bytes_word bs :: 'a word) ! i = bs ! i"
  proof (rule bit_word_eqI)
    fix k assume "k < LENGTH(8)"
    then have k: "k < 8" by simp
    have "(8 * i + k) div 8 = i" "(8 * i + k) mod 8 = k" "8 * i + k < 8 * length bs" using k i by auto
    moreover have "8 * length bs \<le> LENGTH('a)" using assms by simp
    from bit_bytes_word[OF this, of "8 * i + k"]
    have "bit (bytes_word bs :: 'a word) (8 * i + k) \<longleftrightarrow> 8 * i + k < 8 * length bs \<and> bit (bs ! ((8 * i + k) div 8)) ((8 * i + k) mod 8)" .
    ultimately show "bit (word_bytes (bytes_word bs :: 'a word) ! i) k = bit (bs ! i) k"
      using i n k assms by (simp add: word_bytes_def bit_ucast_iff bit_drop_bit_eq)
  qed
qed

lemma bytes_word_word_bytes:
  assumes "8 dvd LENGTH('a)"
  shows "bytes_word (word_bytes w) = (w :: 'a::len word)"
proof (rule bit_word_eqI)
  fix k assume k: "k < LENGTH('a)"
  have len: "8 * length (word_bytes w) = LENGTH('a)" using assms by (simp add: word_bytes_def)
  then have b: "bit (bytes_word (word_bytes w) :: 'a word) k \<longleftrightarrow>
      k < 8 * length (word_bytes w) \<and> bit (word_bytes w ! (k div 8)) (k mod 8)"
    by (intro bit_bytes_word) simp
  have "k div 8 < LENGTH('a) div 8" using k assms by (simp add: less_mult_imp_div_less dvd_div_mult_self)
  then have "bit (word_bytes w ! (k div 8)) (k mod 8) = bit w (8 * (k div 8) + k mod 8)"
    by (simp add: word_bytes_def bit_ucast_iff bit_drop_bit_eq)
  then show "bit (bytes_word (word_bytes w) :: 'a word) k = bit w k" using b k len by simp
qed

lemma length_word_bytes [simp]: "length (word_bytes (w :: 'a::len word)) = LENGTH('a) div 8"
  by (simp add: word_bytes_def)

lemma word_bytes_bswap: "8 dvd LENGTH('a) \<Longrightarrow> word_bytes (bswap (w :: 'a::len word)) = rev (word_bytes w)"
  by (simp add: bswap_def word_bytes_bytes_word)

lemma bswap_bswap: "8 dvd LENGTH('a) \<Longrightarrow> bswap (bswap (w :: 'a::len word)) = w"
  by (simp add: bswap_def word_bytes_bytes_word bytes_word_word_bytes)

section \<open>\<open>uuid.c\<close>\<close>

definition gpt_uuid_order :: "nat list" where
  "gpt_uuid_order = [3, 2, 1, 0, 5, 4, 7, 6, 8, 9, 10, 11, 12, 13, 14, 15]"

definition UUID_LEN :: nat where "UUID_LEN = 16"

definition uuid_hex :: "u8 list" where
  "uuid_hex = [48, 49, 50, 51, 52, 53, 54, 55, 56, 57, 65, 66, 67, 68, 69, 70]"

definition uuid_hex_value :: "u8 \<Rightarrow> int" where
  "uuid_hex_value c =
     (if 48 \<le> c \<and> c \<le> 57 then uint c - 48
      else if 97 \<le> c \<and> c \<le> 102 then uint c - 97 + 10
      else if 65 \<le> c \<and> c \<le> 70 then uint c - 65 + 10
      else - 1)"

text \<open>The characters written to \<open>out\<close>, in order.\<close>

definition uuid_dash :: "nat \<Rightarrow> bool" where "uuid_dash i \<longleftrightarrow> i = 4 \<or> i = 6 \<or> i = 8 \<or> i = 10"

definition uuid_to_str :: "u8 list \<Rightarrow> u8 list" where
  "uuid_to_str uuid =
     concat (map (\<lambda>i. let byte = uuid ! (gpt_uuid_order ! i)
                      in (if uuid_dash i then [45] else []) @
                         [uuid_hex ! unat (drop_bit 4 byte), uuid_hex ! unat (byte AND 0x0F)]) [0..<UUID_LEN])
     @ [0]"

text \<open>The loop reads the text at \<open>t\<close> and fills the buffer as it goes; \<open>None\<close> in place
  of the position is the early \<open>return -1\<close>.\<close>

fun str_to_uuid_step :: "(nat \<Rightarrow> u8) \<Rightarrow> nat \<Rightarrow> nat option \<times> u8 list \<Rightarrow> nat option \<times> u8 list" where
  "str_to_uuid_step src i (None, uuid) = (None, uuid)"
| "str_to_uuid_step src i (Some t, uuid) =
     (if uuid_dash i \<and> src t \<noteq> 45 then (None, uuid)
      else let t = (if uuid_dash i then t + 1 else t);
               high = uuid_hex_value (src t);
               low = uuid_hex_value (src (t + 1))
           in if high < 0 \<or> low < 0 then (None, uuid)
              else (Some (t + 2), uuid[gpt_uuid_order ! i := word_of_int (push_bit 4 high OR low)]))"

definition str_to_uuid :: "u8 list \<Rightarrow> (nat \<Rightarrow> u8) \<Rightarrow> int \<times> u8 list" where
  "str_to_uuid uuid src =
     (case fold (str_to_uuid_step src) [0..<UUID_LEN] (Some 0, uuid) of
        (None, uuid') \<Rightarrow> (- 1, uuid')
      | (Some t, uuid') \<Rightarrow> (if src t = 0 then 0 else - 1, uuid'))"

abbreviation hi :: "u8 \<Rightarrow> u8" where "hi b \<equiv> uuid_hex ! unat (drop_bit 4 b)"
abbreviation lo :: "u8 \<Rightarrow> u8" where "lo b \<equiv> uuid_hex ! unat (b AND 0x0F)"

lemma uuid_hex_value_nth:
  assumes "n < 16"
  shows "uuid_hex_value (uuid_hex ! n) = int n"
proof -
  have "map uuid_hex_value uuid_hex = [0, 1, 2, 3, 4, 5, 6, 7, 8, 9, 10, 11, 12, 13, 14, 15]"
    by (simp add: uuid_hex_def uuid_hex_value_def)
  also have "\<dots> = map int [0..<16]" by (simp add: upt_rec)
  finally have "map uuid_hex_value uuid_hex ! n = map int [0..<16] ! n" by simp
  moreover have "n < length uuid_hex" using assms by (simp add: uuid_hex_def)
  ultimately show ?thesis using assms by simp
qed

lemma nibbles:
  fixes b :: u8
  shows "unat (drop_bit 4 b) < 16" "unat (b AND 0x0F) < 16"
    "word_of_int (push_bit 4 (uint (drop_bit 4 b)) OR uint (b AND 0x0F)) = b"
proof -
  have "unat (drop_bit 4 b) = unat b div 16" by (subst unat_drop_bit_eq) (simp add: drop_bit_eq_div)
  then show "unat (drop_bit 4 b) < 16" using unsigned_less[of b, where 'a = nat] by simp
  have m: "b AND 0x0F = take_bit 4 b" by (simp add: take_bit_eq_mask mask_eq_exp_minus_1)
  show "unat (b AND 0x0F) < 16" unfolding m by (subst unsigned_take_bit_eq) (simp add: take_bit_eq_mod)
  have "word_of_int (push_bit 4 (uint (drop_bit 4 b)) OR uint (b AND 0x0F))
      = push_bit 4 (drop_bit 4 b) OR take_bit 4 b"
    unfolding m by (rule bit_word_eqI) (auto simp: bit_simps)
  also have "\<dots> = b" by (rule bit_word_eqI) (auto simp: bit_or_iff bit_push_bit_iff bit_drop_bit_eq bit_take_bit_iff)
  finally show "word_of_int (push_bit 4 (uint (drop_bit 4 b)) OR uint (b AND 0x0F)) = b" .
qed

lemma str_to_uuid_step_ok:
  assumes "src t' = hi b" "src (t' + 1) = lo b" "if uuid_dash i then src t = 45 \<and> t' = t + 1 else t' = t"
  shows "str_to_uuid_step src i (Some t, u) = (Some (t' + 2), u[gpt_uuid_order ! i := b])"
proof -
  note v = uuid_hex_value_nth[OF nibbles(1), of b] uuid_hex_value_nth[OF nibbles(2), of b] nibbles(3)[of b]
  show ?thesis using assms by (cases "uuid_dash i") (simp_all add: v Let_def)
qed

lemma uuid_to_str_eq:
  "uuid_to_str [b0, b1, b2, b3, b4, b5, b6, b7, b8, b9, b10, b11, b12, b13, b14, b15] =
    [hi b3, lo b3, hi b2, lo b2, hi b1, lo b1, hi b0, lo b0, 45, hi b5, lo b5, hi b4, lo b4, 45, hi b7, lo b7, hi b6, lo b6, 45, hi b8, lo b8, hi b9, lo b9, 45, hi b10, lo b10, hi b11, lo b11, hi b12, lo b12, hi b13, lo b13, hi b14, lo b14, hi b15, lo b15, 0]"
  by (simp add: uuid_to_str_def UUID_LEN_def upt_rec uuid_dash_def gpt_uuid_order_def Let_def)

lemma list16:
  assumes "length xs = 16"
  obtains b0 b1 b2 b3 b4 b5 b6 b7 b8 b9 b10 b11 b12 b13 b14 b15 where "xs = [b0, b1, b2, b3, b4, b5, b6, b7, b8, b9, b10, b11, b12, b13, b14, b15]"
  using assms by (auto simp: numeral_eq_Suc length_Suc_conv)

text \<open>The position in the text before byte \<open>i\<close> of the loop.\<close>

definition uuid_pos :: "nat \<Rightarrow> nat" where
  "uuid_pos i = 2 * i + length (filter (\<lambda>d. d < i) [4, 6, 8, 10])"

lemma uuid_text:
  assumes "length uuid = 16" "i < 16"
  shows "(if uuid_dash i then uuid_to_str uuid ! uuid_pos i = 45 else True) \<and>
    uuid_to_str uuid ! (uuid_pos (i + 1) - 2) = hi (uuid ! (gpt_uuid_order ! i)) \<and>
    uuid_to_str uuid ! (uuid_pos (i + 1) - 1) = lo (uuid ! (gpt_uuid_order ! i))"
proof -
  have "i \<in> set [0..<16]" using assms(2) by simp
  then show ?thesis
    using assms(1)
    by (elim list16) (auto simp: upt_rec uuid_to_str_eq uuid_pos_def uuid_dash_def gpt_uuid_order_def)
qed

lemma uuid_pos_Suc: "uuid_pos (i + 1) = uuid_pos i + (if uuid_dash i then 3 else 2)"
  by (auto simp: uuid_pos_def uuid_dash_def)

lemma uuid_fold:
  assumes len: "length uuid = 16" and src: "\<forall>t<36. src t = uuid_to_str uuid ! t" and i: "i \<le> 16"
  shows "fold (str_to_uuid_step src) [0..<i] (Some 0, u) =
    (Some (uuid_pos i), fold (\<lambda>j u. u[gpt_uuid_order ! j := uuid ! (gpt_uuid_order ! j)]) [0..<i] u)"
  using i
proof (induction i)
  case 0
  then show ?case by (simp add: uuid_pos_def)
next
  case (Suc i)
  let ?u = "fold (\<lambda>j u. u[gpt_uuid_order ! j := uuid ! (gpt_uuid_order ! j)]) [0..<i] u"
  let ?b = "uuid ! (gpt_uuid_order ! i)"
  have i: "i < 16" using Suc.prems by simp
  have p: "uuid_pos (i + 1) \<le> 36" using Suc.prems by (simp add: uuid_pos_def)
  have g: "2 \<le> uuid_pos (i + 1)" by (simp add: uuid_pos_def)
  note x = uuid_text[OF len i]
  have "str_to_uuid_step src i (Some (uuid_pos i), ?u) = (Some (uuid_pos (i + 1) - 2 + 2), ?u[gpt_uuid_order ! i := ?b])"
  proof (rule str_to_uuid_step_ok)
    show "src (uuid_pos (i + 1) - 2) = hi ?b" using x src p g by auto
    have "uuid_pos (i + 1) - 2 + 1 = uuid_pos (i + 1) - 1" using g by simp
    then show "src (uuid_pos (i + 1) - 2 + 1) = lo ?b" using x src p g by auto
    show "if uuid_dash i then src (uuid_pos i) = 45 \<and> uuid_pos (i + 1) - 2 = uuid_pos i + 1
      else uuid_pos (i + 1) - 2 = uuid_pos i"
      using x src p uuid_pos_Suc[of i] by auto
  qed
  then show ?case using Suc g by simp
qed

lemma uuid_fill:
  assumes "length uuid = 16" "length u = 16"
  shows "fold (\<lambda>j u. u[gpt_uuid_order ! j := uuid ! (gpt_uuid_order ! j)]) [0..<16] u = uuid"
  using assms by (elim list16) (simp add: upt_rec gpt_uuid_order_def)

section \<open>Properties\<close>

text \<open>
  Converting a value to another byte order and back is the identity for every width; big endian (network) conversion
  reverses the bytes of the value in memory, little endian conversion leaves them.
\<close>

theorem byteorder_roundtrip:
  "be16toh (htobe16 a) = a \<and> be32toh (htobe32 b) = b \<and> be64toh (htobe64 c) = c \<and>
   le16toh (htole16 a) = a \<and> le32toh (htole32 b) = b \<and> le64toh (htole64 c) = c \<and>
   ntohs (htons a) = a \<and> ntohl (htonl b) = b \<and>
   word_bytes (htobe16 a) = rev (word_bytes a) \<and> word_bytes (htobe32 b) = rev (word_bytes b) \<and>
   word_bytes (htobe64 c) = rev (word_bytes c) \<and> htonl b = htobe32 b \<and> htons a = htobe16 a"
  unfolding byteorder_defs by (simp add: bswap_bswap word_bytes_bswap)

text \<open>
  C34. The text of an identifier is 36 characters and a zero byte, and reading it back gives the identifier, whatever
  the buffer held before.
\<close>

theorem uuid_roundtrip:
  assumes "length uuid = 16" and "length buf = 16" and "\<forall>t<37. src t = uuid_to_str uuid ! t"
  shows "length (uuid_to_str uuid) = 37 \<and> str_to_uuid buf src = (0, uuid)"
proof -
  have "length (uuid_to_str uuid) = 37" "uuid_to_str uuid ! 36 = 0"
    using assms(1) by (elim list16, simp add: uuid_to_str_eq)+
  moreover have "fold (str_to_uuid_step src) [0..<UUID_LEN] (Some 0, buf) = (Some 36, uuid)"
    using uuid_fold[OF assms(1), of src 16 buf] assms(3) uuid_fill[OF assms(1,2)]
    by (simp add: UUID_LEN_def uuid_pos_def)
  ultimately show ?thesis using assms(3) by (simp add: str_to_uuid_def)
qed

theorem uuid_roundtrip_witness:
  "str_to_uuid (replicate 16 0) (\<lambda>t. uuid_to_str (replicate 16 7) ! t) = (0, replicate 16 7)"
  using uuid_roundtrip[of "replicate 16 7" "replicate 16 0" "\<lambda>t. uuid_to_str (replicate 16 7) ! t"] by simp

end
