(* ===== verification/Malloc.thy ===== *)
theory Malloc
  imports Heap_Grow Vmm
begin

text \<open>
  The heap of a process: \<open>malloc\<close> and \<open>free\<close> of \<open>src/libc/stdlib/malloc.c\<close>, which ask the kernel for
  pages with \<open>brk\<close>, and the system call behind it,
  \<open>src/kernel/syscall/process_management/sys_brk.c\<close>.
\<close>

section \<open>\<open>sys_brk\<close>\<close>

definition PROCESS_HEAP_START :: nat where "PROCESS_HEAP_START = 0x000055c0603d3000"
definition PROCESS_HEAP_END :: nat where "PROCESS_HEAP_END = 0x00007ffd0d812000"

definition EFAULT :: int where "EFAULT = 14"
definition ENOMEM :: int where "ENOMEM = 12"

definition user_ptr_ok :: "nat \<Rightarrow> bool" where
  "user_ptr_ok p \<longleftrightarrow> p \<noteq> 0 \<and> p < KERNEL_MAP_BASE"

text \<open>What the call uses of the running process and the kernel.\<close>

record brk_proc =
  bpm :: pm
  bPML4T :: nat
  proc_brk :: nat
  error_no :: int

text \<open>The loop over the new pages; \<open>requested\<close> is below \<open>PROCESS_HEAP_END\<close>, so \<open>new_page\<close> does not wrap.\<close>

function sys_brk_map :: "nat \<Rightarrow> nat \<Rightarrow> nat \<Rightarrow> pm \<Rightarrow> (bool \<times> pm) option" where
  "sys_brk_map PML4T requested new_page p =
     (if new_page < requested then do {
        (phys, p1) \<leftarrow> pmm_calloc p;
        if phys = 0 then Some (False, p1)
        else do {
          (r, p2) \<leftarrow> vmm_set_page PML4T new_page phys (PAGE_USER OR PAGE_PRESENT OR PAGE_WRITE) p1;
          sys_brk_map PML4T requested (new_page + PAGE_SIZE) p2
        }
      } else Some (True, p))"
  by pat_completeness auto
termination by (relation "measure (\<lambda>(PML4T, requested, new_page, p). requested - new_page)") (auto simp: PAGE_SIZE_def)

declare sys_brk_map.simps [simp del]

definition sys_brk :: "nat \<Rightarrow> brk_proc \<Rightarrow> (int \<times> brk_proc) option" where
  "sys_brk rdi c =
     (let requested = PAGE_ALIGN_UP rdi in
      if \<not> user_ptr_ok requested \<or> requested > PROCESS_HEAP_END then Some (- 1, c\<lparr>error_no := EFAULT\<rparr>)
      else if requested \<le> proc_brk c then Some (0, c)
      else do {
        (ok, p) \<leftarrow> sys_brk_map (bPML4T c) requested (proc_brk c) (bpm c);
        if \<not> ok then Some (- 1, c\<lparr>bpm := p, error_no := ENOMEM\<rparr>)
        else Some (0, c\<lparr>bpm := p, proc_brk := requested\<rparr>)
      })"

section \<open>\<open>malloc\<close> and \<open>free\<close>\<close>

definition MALLOC_MAX_BLOCK_SIZE :: nat where
  "MALLOC_MAX_BLOCK_SIZE = PROCESS_HEAP_END - PROCESS_HEAP_START"

text \<open>The variables of the file, the headers in the process's memory, and the state \<open>kern\<close> that \<open>brk\<close> works on.\<close>

record 'k uheap =
  umem :: bmem
  heap_top :: ptr
  ufirst_free :: ptr
  kern :: 'k

partial_function (option) malloc_loop ::
    "(nat \<Rightarrow> 'k \<Rightarrow> (int \<times> 'k) option) \<Rightarrow> nat \<Rightarrow> ptr \<Rightarrow> ptr \<Rightarrow> bool \<Rightarrow> 'k uheap \<Rightarrow> (ptr \<times> 'k uheap) option" where
  "malloc_loop brk sz current_block prev_block first_block u =
     (if current_block < heap_top u \<and> current_block \<ge> PROCESS_HEAP_START then
        case heap_alloc sz current_block prev_block (heap_top u) first_block (umem u) (ufirst_free u) of
          (m', ff', ret) \<Rightarrow>
            let u' = u\<lparr>umem := m', ufirst_free := ff'\<rparr>
            in if ret \<noteq> 0 then Some (ret, u')
               else malloc_loop brk sz (next_free (m' current_block)) current_block False u'
      else if current_block \<ge> PROCESS_HEAP_END then Some (0, u)
      else let pages = grow_pages (umem u) PROCESS_HEAP_START (heap_top u) prev_block sz
           in do {
             (brk_res, k') \<leftarrow> brk (w64 (heap_top u + pages * 0x1000)) (kern u);
             if brk_res < 0 then Some (0, u\<lparr>kern := k'\<rparr>)
             else case grow_headers PROCESS_HEAP_START (heap_top u) prev_block pages (umem u) (ufirst_free u) of
               (m', ff', c) \<Rightarrow>
                 malloc_loop brk sz c prev_block False
                   (u\<lparr>kern := k', umem := m', ufirst_free := ff', heap_top := w64 (heap_top u + pages * 0x1000)\<rparr>)
           })"

text \<open>The first call makes a block of the page that every process starts with.\<close>

definition malloc_start :: "'k uheap \<Rightarrow> 'k uheap" where
  "malloc_start u =
     (if ufirst_free u = 0
      then u\<lparr>umem := (umem u)(PROCESS_HEAP_START := (umem u PROCESS_HEAP_START)\<lparr>next_free := heap_top u,
                  previous_chunk := 0, is_mmapped := False, present := False,
                  blk_size := 0x1000 - sizeof_block_info\<rparr>),
             ufirst_free := PROCESS_HEAP_START\<rparr>
      else u)"

definition malloc ::
    "(nat \<Rightarrow> 'k \<Rightarrow> (int \<times> 'k) option) \<Rightarrow> nat \<Rightarrow> 'k uheap \<Rightarrow> (ptr \<times> 'k uheap) option" where
  "malloc brk sz u =
     (if sz > w64_sub MALLOC_MAX_BLOCK_SIZE (sizeof_block_info * 3) then Some (0, u)
      else let sz' = w64 (sz + sizeof_block_info * 3);
               u' = malloc_start u
           in malloc_loop brk sz' (ufirst_free u') (ufirst_free u') True u')"

text \<open>A double \<open>free\<close> ends the process: no state comes back.\<close>

definition libc_free :: "ptr \<Rightarrow> 'k uheap \<Rightarrow> 'k uheap option" where
  "libc_free p u =
     (let block = w64_sub p sizeof_block_info;
          next_block = w64 (p + blk_size (umem u block))
      in if \<not> is_mmapped (umem u block) then None
         else do {
           (m', ff') \<leftarrow> heap_free block next_block (heap_top u) (w64_sub (heap_top u) PROCESS_HEAP_START)
                           (umem u) (ufirst_free u);
           Some (u\<lparr>umem := m', ufirst_free := ff'\<rparr>)
         })"

section \<open>What \<open>malloc\<close> needs of \<open>brk\<close>\<close>

text \<open>\<open>brk\<close> returns, and reports success only for an address inside the heap's window.\<close>

locale brk_provider =
  fixes brk_call :: "nat \<Rightarrow> 'k \<Rightarrow> (int \<times> 'k) option" and binv :: "'k \<Rightarrow> bool"
  assumes brk_ok: "binv k \<Longrightarrow> a < 2 ^ 60 \<Longrightarrow>
    \<exists>r k'. brk_call a k = Some (r, k') \<and> binv k' \<and> (0 \<le> r \<longrightarrow> a \<le> PROCESS_HEAP_END)"

lemmas uheap_consts = PROCESS_HEAP_START_def PROCESS_HEAP_END_def MALLOC_MAX_BLOCK_SIZE_def

definition uheap_inv :: "('k \<Rightarrow> bool) \<Rightarrow> 'k uheap \<Rightarrow> ptr list \<Rightarrow> bool" where
  "uheap_inv binv u bs \<longleftrightarrow> heap_top u \<le> PROCESS_HEAP_END \<and> binv (kern u) \<and>
     heap_inv (umem u) PROCESS_HEAP_START (heap_top u) (ufirst_free u) bs"

context brk_provider
begin

lemma malloc_loop_hit:
  assumes inv: "uheap_inv binv u bs" and c: "c \<in> set bs"
    and a: "heap_alloc sz c prev (heap_top u) first (umem u) (ufirst_free u) = (m', ff', n + sizeof_block_info)"
    and h: "heap_inv m' PROCESS_HEAP_START (heap_top u) ff' bs'"
    and n: "n \<notin> fst ` allocs (umem u) bs" "allocs m' bs' = insert (n, j) (allocs (umem u) bs)"
  shows "\<exists>u'. malloc_loop brk_call sz c prev first u = Some (n + sizeof_block_info, u') \<and> uheap_inv binv u' bs' \<and> umem u' = m'"
proof -
  have hi: "heap_inv (umem u) PROCESS_HEAP_START (heap_top u) (ufirst_free u) bs" using inv by (simp add: uheap_inv_def)
  have cb: "c < heap_top u" "PROCESS_HEAP_START \<le> c" using heap_inv_bounds[OF hi c] by auto
  have "malloc_loop brk_call sz c prev first u = Some (n + sizeof_block_info, u\<lparr>umem := m', ufirst_free := ff'\<rparr>)"
    using cb a sizeof_block_info_pos by (subst malloc_loop.simps) (simp add: Let_def)
  then show ?thesis using inv h by (simp add: uheap_inv_def)
qed

lemma malloc_loop_miss:
  assumes inv: "uheap_inv binv u bs" and c: "c \<in> set bs" and small: "blk_size (umem u c) < sz"
  shows "malloc_loop brk_call sz c prev first u = malloc_loop brk_call sz (next_free (umem u c)) c False u"
proof -
  have hi: "heap_inv (umem u) PROCESS_HEAP_START (heap_top u) (ufirst_free u) bs" using inv by (simp add: uheap_inv_def)
  show ?thesis using heap_inv_bounds[OF hi c] small by (subst malloc_loop.simps) (simp add: heap_alloc_small)
qed

lemma malloc_loop_top:
  assumes inv: "uheap_inv binv u bs"
    and at: "at_top (umem u) PROCESS_HEAP_START (heap_top u) bs prev sz" and sz: "sz < 2 ^ 50"
  shows "(\<exists>u'. malloc_loop brk_call sz (heap_top u) prev first u = Some (0, u') \<and> uheap_inv binv u' bs \<and> umem u' = umem u) \<or>
    (\<exists>c xs ys u'. malloc_loop brk_call sz (heap_top u) prev first u = malloc_loop brk_call sz c prev False u' \<and>
       uheap_inv binv u' (xs @ c # ys) \<and> free_in (umem u') c \<and> sz + sizeof_block_info < blk_size (umem u' c) \<and>
       allocs (umem u') (xs @ c # ys) = allocs (umem u) bs)"
proof (cases "heap_top u \<ge> PROCESS_HEAP_END")
  case True
  then have "malloc_loop brk_call sz (heap_top u) prev first u = Some (0, u)"
    by (subst malloc_loop.simps) simp
  then show ?thesis using inv by simp
next
  case False
  let ?top = "heap_top u"
  have hi: "heap_inv (umem u) PROCESS_HEAP_START ?top (ufirst_free u) bs"
    and top: "?top \<le> PROCESS_HEAP_END" and bi: "binv (kern u)" using inv by (simp_all add: uheap_inv_def)
  define pages where "pages = grow_pages (umem u) PROCESS_HEAP_START ?top prev sz"
  have small: "pages * 0x1000 \<le> sz + sizeof_block_info * 2 + 0x1000"
    using grow_pages_le[OF hi at] sz unfolding pages_def by simp
  have k: "?top + pages * 0x1000 < 2 ^ 60"
    using small top sz by (simp add: uheap_consts sizeof_block_info_def)
  have k1: "?top + pages * 0x1000 < 2 ^ 64" and k2: "?top + pages * 0x1000 < PROCESS_HEAP_START + 2 ^ 60"
    using k by (simp_all add: uheap_consts)
  have w: "w64 (?top + pages * 0x1000) = ?top + pages * 0x1000" using k1 by simp
  obtain r k' where br: "brk_call (?top + pages * 0x1000) (kern u) = Some (r, k')" "binv k'"
    and ok: "0 \<le> r \<Longrightarrow> ?top + pages * 0x1000 \<le> PROCESS_HEAP_END" using brk_ok[OF bi k] by blast
  obtain m' ff' c xs ys where
    g: "grow_headers PROCESS_HEAP_START ?top prev pages (umem u) (ufirst_free u) = (m', ff', c)"
    and h: "heap_inv m' PROCESS_HEAP_START (?top + pages * 0x1000) ff' (xs @ c # ys)" "free_in m' c"
      "sz + sizeof_block_info < blk_size (m' c)" "allocs m' (xs @ c # ys) = allocs (umem u) bs"
    using grow_headers_ok[OF hi at pages_def _ k1 k2] sz by auto
  let ?u = "u\<lparr>kern := k', umem := m', ufirst_free := ff', heap_top := ?top + pages * 0x1000\<rparr>"
  have l: "malloc_loop brk_call sz ?top prev first u =
      (if r < 0 then Some (0, u\<lparr>kern := k'\<rparr>) else malloc_loop brk_call sz c prev False ?u)"
    using False br(1) g by (subst malloc_loop.simps) (simp add: pages_def[symmetric] w Let_def)
  show ?thesis
  proof (cases "r < 0")
    case True
    then show ?thesis unfolding l using inv br(2) by (simp add: uheap_inv_def)
  next
    case False
    then have "uheap_inv binv ?u (xs @ c # ys)" using h(1) br(2) ok by (simp add: uheap_inv_def)
    then show ?thesis unfolding l
      using False h(2-4) by (intro disjI2 exI[of _ c] exI[of _ xs] exI[of _ ys] exI[of _ ?u]) simp
  qed
qed

end

sublocale brk_provider \<subseteq> mh: growing_heap "malloc_loop brk_call" "uheap_inv binv" umem heap_top ufirst_free
    PROCESS_HEAP_START "2 ^ 50"
proof unfold_locales
  show "heap_inv (umem s) PROCESS_HEAP_START (heap_top s) (ufirst_free s) bs" if "uheap_inv binv s bs" for s bs
    using that by (simp add: uheap_inv_def)
qed (fact malloc_loop_hit malloc_loop_miss malloc_loop_top)+

section \<open>The allocator contract\<close>

text \<open>Before the first call there is no block yet, only the first page.\<close>

definition uheap_rep :: "('k \<Rightarrow> bool) \<Rightarrow> 'k uheap \<Rightarrow> (ptr \<times> nat) set \<Rightarrow> bool" where
  "uheap_rep binv u L \<longleftrightarrow>
     ufirst_free u = 0 \<and> heap_top u = PROCESS_HEAP_START + 0x1000 \<and> binv (kern u) \<and> L = {} \<or>
     user_rep (uheap_inv binv) umem u L"

lemma uheap_inv_first_free:
  assumes "uheap_inv binv u bs"
  shows "ufirst_free u \<noteq> 0"
proof -
  have hi: "heap_inv (umem u) PROCESS_HEAP_START (heap_top u) (ufirst_free u) bs"
    using assms by (simp add: uheap_inv_def)
  then have ch: "ufirst_free u = hd (free_blocks (umem u) bs @ [heap_top u])"
    using chain_hd by (auto simp: heap_inv_def)
  have top: "PROCESS_HEAP_START \<le> heap_top u"
    using hi blocks_le[of "umem u" "(PROCESS_HEAP_START, False, 0)" bs] by (simp add: heap_inv_def)
  show ?thesis
  proof (cases "free_blocks (umem u) bs")
    case Nil
    then show ?thesis using ch top by (simp add: uheap_consts)
  next
    case (Cons f fs)
    then have "f \<in> set bs" by (metis list.set_intros(1) mem_Collect_eq set_free_blocks)
    then show ?thesis using ch Cons heap_inv_bounds(1)[OF hi] by (force simp: uheap_consts)
  qed
qed

lemma malloc_start_ok:
  assumes "uheap_rep binv u L"
  shows "\<exists>bs. uheap_inv binv (malloc_start u) bs \<and> L = user_view (allocs (umem (malloc_start u)) bs)"
  using assms unfolding uheap_rep_def
proof (elim disjE conjE)
  assume "ufirst_free u = 0" "heap_top u = PROCESS_HEAP_START + 0x1000" "binv (kern u)" "L = {}"
  then show ?thesis
    by (intro exI[of _ "[PROCESS_HEAP_START]"])
       (simp add: malloc_start_def uheap_inv_def heap_inv_def blk_end_def free_blocks_def allocs_def user_view_def
         uheap_consts sizeof_block_info_def)
next
  assume "user_rep (uheap_inv binv) umem u L"
  then obtain bs where bs: "uheap_inv binv u bs" "L = user_view (allocs (umem u) bs)" by (auto simp: user_rep_def)
  have "malloc_start u = u" using uheap_inv_first_free[OF bs(1)] by (simp add: malloc_start_def)
  then show ?thesis using bs by auto
qed

lemma libc_free_ok:
  assumes inv: "uheap_inv binv u bs" and b: "(b, s) \<in> allocs (umem u) bs"
  shows "\<exists>u' bs'. libc_free (b + sizeof_block_info) u = Some u' \<and> uheap_inv binv u' bs' \<and>
    allocs (umem u') bs' = allocs (umem u) bs - {(b, s)}"
proof -
  have hi: "heap_inv (umem u) PROCESS_HEAP_START (heap_top u) (ufirst_free u) bs"
    using inv by (simp add: uheap_inv_def)
  have bs: "b \<in> set bs" "is_mmapped (umem u b)" "s = blk_size (umem u b)" using b by (auto simp: allocs_def)
  note bnd = heap_inv_bounds[OF hi bs(1)]
  have lim: "heap_top u < 2 ^ 64" using hi by (simp add: heap_inv_def)
  have w: "w64_sub (b + sizeof_block_info) sizeof_block_info = b"
    "w64 (b + sizeof_block_info + s) = blk_end (umem u) b"
    "w64_sub (heap_top u) PROCESS_HEAP_START = heap_top u - PROCESS_HEAP_START"
    using bnd bs(3) lim by (simp_all add: blk_end_def)
  obtain m' ff' bs' where
    f: "heap_free b (blk_end (umem u) b) (heap_top u) (heap_top u - PROCESS_HEAP_START) (umem u) (ufirst_free u)
        = Some (m', ff')"
    and h: "heap_inv m' PROCESS_HEAP_START (heap_top u) ff' bs'" "allocs m' bs' = allocs (umem u) bs - {(b, s)}"
    using heap_free_correct[OF hi bs(1,2) order_refl] bs(3) by auto
  have "libc_free (b + sizeof_block_info) u = Some (u\<lparr>umem := m', ufirst_free := ff'\<rparr>)"
    unfolding libc_free_def Let_def w bs(3)[symmetric] using bs(2) f by simp
  then show ?thesis using inv h by (auto simp: uheap_inv_def)
qed

lemma uheap_rep_facts:
  assumes rep: "uheap_rep binv u L" and p: "(p, k) \<in> L"
  shows "PROCESS_HEAP_START + sizeof_block_info \<le> p" "p + k \<le> heap_top u" "heap_top u \<le> PROCESS_HEAP_END" "0 < p"
    "(q, l) \<in> L \<Longrightarrow> (p, k) \<noteq> (q, l) \<Longrightarrow> p + k < q \<or> q + l < p"
proof -
  have r: "user_rep (uheap_inv binv) umem u L" using rep p by (auto simp: uheap_rep_def)
  then show "heap_top u \<le> PROCESS_HEAP_END" by (auto simp: user_rep_def uheap_inv_def)
  have h: "\<And>bs. uheap_inv binv u bs \<Longrightarrow> heap_inv (umem u) PROCESS_HEAP_START (heap_top u) (ufirst_free u) bs"
    by (simp add: uheap_inv_def)
  note f = user_rep_facts[where gmem = umem and gtop = heap_top and gff = ufirst_free, OF h r p]
  from f(1-3) show "PROCESS_HEAP_START + sizeof_block_info \<le> p" "p + k \<le> heap_top u" "0 < p" by simp_all
  show "(q, l) \<in> L \<Longrightarrow> (p, k) \<noteq> (q, l) \<Longrightarrow> p + k < q \<or> q + l < p" using f(4) by simp
qed

lemma libc_free_rep:
  assumes rep: "uheap_rep binv u L" and p: "(p, k) \<in> L"
  shows "\<exists>u'. libc_free p u = Some u' \<and> uheap_rep binv u' (L - {(p, k)})"
proof -
  obtain bs where inv: "uheap_inv binv u bs" and L: "L = user_view (allocs (umem u) bs)"
    using rep p by (auto simp: uheap_rep_def user_rep_def)
  have "\<And>b. p = b + sizeof_block_info \<Longrightarrow> (b, k) \<in> allocs (umem u) bs \<Longrightarrow>
      \<exists>u' bs'. libc_free p u = Some u' \<and> uheap_inv binv u' bs' \<and> allocs (umem u') bs' = allocs (umem u) bs - {(b, k)}"
    using libc_free_ok[OF inv] by simp
  from dealloc_user[OF this L p] show ?thesis unfolding uheap_rep_def by blast
qed

context brk_provider
begin

lemma malloc_rep:
  assumes rep: "uheap_rep binv u L" and n: "n < 2 ^ 64"
  shows "\<exists>p u'. malloc brk_call n u = Some (p, u') \<and>
    (p = 0 \<and> uheap_rep binv u' L \<or> p \<noteq> 0 \<and> p \<notin> fst ` L \<and> (\<exists>k\<ge>n. uheap_rep binv u' (insert (p, k) L)))"
proof (cases "n > w64_sub MALLOC_MAX_BLOCK_SIZE (sizeof_block_info * 3)")
  case True
  then show ?thesis using rep by (simp add: malloc_def)
next
  case False
  then have n': "n < 2 ^ 49" by (simp add: uheap_consts sizeof_block_info_def)
  obtain bs where inv: "uheap_inv binv (malloc_start u) bs" and L: "L = user_view (allocs (umem (malloc_start u)) bs)"
    using malloc_start_ok[OF rep] by blast
  define want where "want = n + sizeof_block_info * 3"
  have w: "w64 (n + sizeof_block_info * 3) = want" "want < 2 ^ 50" "n \<le> want"
    using n' by (simp_all add: want_def sizeof_block_info_def)
  have "malloc brk_call n u = malloc_loop brk_call want (ufirst_free (malloc_start u)) (ufirst_free (malloc_start u)) True (malloc_start u)"
    using False w(1) by (simp add: malloc_def Let_def)
  then show ?thesis
    using alloc_result_user[OF mh.search_result[OF inv w(2)] w(3) L] unfolding uheap_rep_def by auto
qed

end

sublocale brk_provider \<subseteq> ma: allocator "malloc brk_call" libc_free "uheap_rep binv" "2 ^ 64"
  by unfold_locales (simp, (fact malloc_rep libc_free_rep uheap_rep_facts(4,5))+)

section \<open>\<open>sys_brk\<close> is such a provider\<close>

lemma sys_brk_map_wf: "pm_wf F p \<Longrightarrow> \<exists>ok p'. sys_brk_map t req a p = Some (ok, p') \<and> pm_wf F p'"
proof (induction t req a p rule: sys_brk_map.induct)
  case (1 t req a p)
  show ?case
  proof (cases "a < req")
    case True
    obtain x p1 where p1: "pmm_calloc p = Some (x, p1)" "pm_wf F p1" using pmm_calloc_wf[OF 1(2)] by blast
    obtain r p2 where p2: "vmm_set_page t a x (PAGE_USER OR PAGE_PRESENT OR PAGE_WRITE) p1 = Some (r, p2)" "pm_wf F p2"
      using vmm_set_page_wf[OF p1(2)] by blast
    show ?thesis
      using 1(1)[OF True p1(1) refl _ p2(1) refl p2(2)] True p1 p2(1)
      by (subst sys_brk_map.simps) (cases "x = 0", auto)
  qed (use 1(2) in \<open>auto simp: sys_brk_map.simps\<close>)
qed

lemma sys_brk_cases:
  assumes "pm_wf F (bpm c)" and req: "req = PAGE_ALIGN_UP a"
  shows "\<exists>r c'. sys_brk a c = Some (r, c') \<and> pm_wf F (bpm c') \<and> bPML4T c' = bPML4T c \<and>
    (if req = 0 \<or> req > PROCESS_HEAP_END then r = - 1 \<and> c' = c\<lparr>error_no := EFAULT\<rparr>
     else if req \<le> proc_brk c then r = 0 \<and> c' = c
     else r = 0 \<and> proc_brk c' = req \<and> error_no c' = error_no c \<or>
          r = - 1 \<and> proc_brk c' = proc_brk c \<and> error_no c' = ENOMEM)"
proof -
  obtain ok p' where m: "sys_brk_map (bPML4T c) req (proc_brk c) (bpm c) = Some (ok, p')" "pm_wf F p'"
    using sys_brk_map_wf[OF assms(1)] by blast
  have u: "user_ptr_ok req \<longleftrightarrow> req \<noteq> 0" if "\<not> req > PROCESS_HEAP_END"
    using that by (simp add: user_ptr_ok_def uheap_consts KERNEL_MAP_BASE_def)
  show ?thesis
    using m u assms(1) unfolding sys_brk_def Let_def req[symmetric] by (cases ok) auto
qed

interpretation sb: brk_provider sys_brk "\<lambda>c. pm_wf F (bpm c)" for F
proof unfold_locales
  fix c :: brk_proc and a :: nat assume wf: "pm_wf F (bpm c)" and a: "a < 2 ^ 60"
  have "a \<le> PAGE_ALIGN_UP a" using a by (intro PAGE_ALIGN_UP_ge) (simp add: PAGE_SIZE_def)
  then show "\<exists>r c'. sys_brk a c = Some (r, c') \<and> pm_wf F (bpm c') \<and> (0 \<le> r \<longrightarrow> a \<le> PROCESS_HEAP_END)"
    using sys_brk_cases[OF wf refl, of a] by (fastforce split: if_splits)
qed

section \<open>\<open>sys_brk\<close> and the address space\<close>

text \<open>A page that the allocator hands out is not a table: clearing it changes no translation.\<close>

lemma walk_data_page:
  assumes inv: "vm_inv p root U" and a: "a \<notin> U" and p': "pmem p' = (pmem p)(a := \<lambda>_. 0)" and js: "length js \<le> 3"
  shows "walk p' root js = walk p root js"
  using js
proof (induction js rule: rev_induct)
  case (snoc i js)
  then have IH: "walk p' root js = walk p root js" by simp
  have "t \<noteq> a" if "walk p root js = Some t" for t
    using vm_inv_in[OF inv _ that] snoc.prems a by auto
  then show ?case using IH p' by (cases "walk p root js") (auto simp: walk_append)
qed simp

lemma calloc_grown:
  assumes rep: "pmm_rep F p U" and inv: "vm_inv p root U" and c: "pmm_calloc p = Some (a, p')" and a: "a \<noteq> 0"
  shows "vm_grown F root p U p' (insert a U)"
proof -
  have n: "a \<notin> U" "pmm_rep F p' (insert a U)" using pmm_calloc_rep[OF rep] c a by auto
  have m: "pmem p' = (pmem p)(a := \<lambda>_. 0)" "kernel_PML4T p' = kernel_PML4T p" using pmm_calloc_pmem[OF rep c a] by auto
  note w = walk_data_page[OF inv n(1) m(1)]
  have "vm_inv p' root (insert a U)" using inv w unfolding vm_inv_def by (metis insertCI)
  moreover have "lookup_entry p' root va = lookup_entry p root va" for va
  proof -
    have "t \<noteq> a" if "walk p root (indices va) = Some t" for t
      using vm_inv_in[OF inv _ that] n(1) by auto
    then show ?thesis using w[of "indices va"] m(1) by (auto simp: lookup_entry_def split: option.splits)
  qed
  ultimately show ?thesis using n(2) m(2) unfolding vm_grown_def by blast
qed

lemma calloc_none_grown:
  assumes rep: "pmm_rep F p U" and inv: "vm_inv p root U" and c: "pmm_calloc p = Some (0, p')"
  shows "vm_grown F root p U p' U"
proof -
  have r: "pmm_rep F p' U" using pmm_calloc_rep[OF rep] c by auto
  have m: "pmem p' = pmem p" "kernel_PML4T p' = kernel_PML4T p" using pmm_calloc_none_pmem[OF c] by simp_all
  show ?thesis using r inv m lookup_pmem[OF m(1)] vm_inv_pmem[OF m(1)] by (simp add: vm_grown_def)
qed

definition outside :: "nat \<Rightarrow> nat \<Rightarrow> nat \<Rightarrow> bool" where
  "outside a b va \<longleftrightarrow> (\<forall>pg. a \<le> pg \<and> pg < b \<longrightarrow> \<not> same_page pg va)"

definition brk_frame :: "ptr set \<Rightarrow> nat \<Rightarrow> nat \<Rightarrow> nat \<Rightarrow> pm \<Rightarrow> nat set \<Rightarrow> pm \<Rightarrow> nat set \<Rightarrow> bool" where
  "brk_frame F root a b p U p' U' \<longleftrightarrow> U \<subseteq> U' \<and> pmm_rep F p' U' \<and> vm_inv p' root U' \<and>
     kernel_PML4T p' = kernel_PML4T p \<and> (\<forall>va. outside a b va \<longrightarrow> lookup_entry p' root va = lookup_entry p root va)"

lemma brk_frame_trans:
  assumes "brk_frame F root a b p U p1 U1" "brk_frame F root a' b p1 U1 p2 U2" "a \<le> a'"
  shows "brk_frame F root a b p U p2 U2"
proof -
  have "outside a' b va" if "outside a b va" for va using that assms(3) by (auto simp: outside_def)
  then show ?thesis using assms(1,2) unfolding brk_frame_def by auto
qed

lemma grown_frame: "vm_grown F root p U p' U' \<Longrightarrow> brk_frame F root a b p U p' U'"
  by (auto simp: vm_grown_def brk_frame_def)

lemma sys_brk_map_frame:
  "\<lbrakk>pmm_rep F p U; vm_inv p root U; pml4_or_kernel t p = root; req < 2 ^ 64\<rbrakk> \<Longrightarrow>
     \<exists>ok p' U'. sys_brk_map t req a p = Some (ok, p') \<and> brk_frame F root a req p U p' U'"
proof (induction t req a p arbitrary: U rule: sys_brk_map.induct)
  case (1 t req a p)
  note rep = 1(2) and inv = 1(3)
  show ?case
  proof (cases "a < req")
    case False
    then have "sys_brk_map t req a p = Some (True, p)" by (simp add: sys_brk_map.simps)
    then show ?thesis using grown_frame[OF vm_grown_refl[OF rep inv]] by blast
  next
    case True
    obtain x p1 where p1: "pmm_calloc p = Some (x, p1)" using pmm_calloc_rep[OF rep] by blast
    show ?thesis
    proof (cases "x = 0")
      case z: True
      then have "sys_brk_map t req a p = Some (False, p1)" using True p1 by (subst sys_brk_map.simps) simp
      then show ?thesis using grown_frame[OF calloc_none_grown[OF rep inv]] p1 z by blast
    next
      case False
      note g = calloc_grown[OF rep inv p1 False]
      have g1: "pmm_rep F p1 (insert x U)" "vm_inv p1 root (insert x U)" and r1: "pml4_or_kernel t p1 = root"
        using g 1(4) by (auto simp: vm_grown_def pml4_or_kernel_def)
      have va: "a < 2 ^ 64" using True 1(5) by simp
      obtain r p2 U2 where s: "vmm_set_page t a x (PAGE_USER OR PAGE_PRESENT OR PAGE_WRITE) p1 = Some (r, p2)"
        and p2: "insert x U \<subseteq> U2" "pmm_rep F p2 U2" "vm_inv p2 root U2" "kernel_PML4T p2 = kernel_PML4T p1"
        and l: "r = 0 \<and> (\<forall>vb. lookup_entry p2 root vb = lookup_entry p1 root vb) \<or>
          r = ADD_FLAGS x (stored_flags a (PAGE_USER OR PAGE_PRESENT OR PAGE_WRITE)) \<and>
          (\<forall>vb. lookup_entry p2 root vb = (if same_page a vb then r else lookup_entry p1 root vb))"
        using vmm_set_page_ok[OF g1 va r1, of x "PAGE_USER OR PAGE_PRESENT OR PAGE_WRITE"] by blast
      have "\<not> same_page a vb" if "outside a req vb" for vb using that True by (auto simp: outside_def)
      then have "brk_frame F root a req p1 (insert x U) p2 U2" using p2 l unfolding brk_frame_def by auto
      from brk_frame_trans[OF grown_frame[OF g] this order_refl]
      have f2: "brk_frame F root a req p U p2 U2" .
      have r2: "pml4_or_kernel t p2 = root" using r1 p2(4) by (auto simp: pml4_or_kernel_def)
      obtain ok p3 U3 where m: "sys_brk_map t req (a + PAGE_SIZE) p2 = Some (ok, p3)"
        and f3: "brk_frame F root (a + PAGE_SIZE) req p2 U2 p3 U3"
        using 1(1)[OF True p1 refl False s refl p2(2,3) r2 1(5)] by blast
      have "sys_brk_map t req a p = Some (ok, p3)" using True False p1 s m by (subst sys_brk_map.simps) simp
      moreover have "brk_frame F root a req p U p3 U3" by (rule brk_frame_trans[OF f2 f3]) simp
      ultimately show ?thesis by blast
    qed
  qed
qed

section \<open>Properties\<close>

text \<open>
  C9. \<open>malloc\<close> over \<open>sys_brk\<close>, for every request size: the call returns, also when the kernel has no page left.
  It returns \<open>NULL\<close> and every block stays allocated, or a new block of at least the
  size asked for, inside the heap's window and disjoint from all others; \<open>free\<close> gives back
  exactly that block.
\<close>

theorem malloc_spec:
  assumes "uheap_rep (\<lambda>c. pm_wf F (bpm c)) u L" and "n < 2 ^ 64"
  shows "\<exists>p u'. malloc sys_brk n u = Some (p, u') \<and>
    (p = 0 \<and> uheap_rep (\<lambda>c. pm_wf F (bpm c)) u' L \<or>
     (\<exists>k\<ge>n. uheap_rep (\<lambda>c. pm_wf F (bpm c)) u' (insert (p, k) L) \<and>
        PROCESS_HEAP_START < p \<and> p + k \<le> PROCESS_HEAP_END \<and> (\<forall>(q, l) \<in> L. p + k < q \<or> q + l < p) \<and>
        (\<exists>u''. libc_free p u' = Some u'' \<and> uheap_rep (\<lambda>c. pm_wf F (bpm c)) u'' L)))"
proof -
  let ?rep = "uheap_rep (\<lambda>c. pm_wf F (bpm c))"
  from sb.malloc_rep[OF assms] obtain p u' where r: "malloc sys_brk n u = Some (p, u')"
    and c: "p = 0 \<and> ?rep u' L \<or> p \<noteq> 0 \<and> p \<notin> fst ` L \<and> (\<exists>k\<ge>n. ?rep u' (insert (p, k) L))" by blast
  have "PROCESS_HEAP_START < p \<and> p + k \<le> PROCESS_HEAP_END \<and> (\<forall>(q, l) \<in> L. p + k < q \<or> q + l < p) \<and>
      (\<exists>u''. libc_free p u' = Some u'' \<and> ?rep u'' L)"
    (is "?Q k") if rep: "?rep u' (insert (p, k) L)" and new: "p \<notin> fst ` L" for k
  proof -
    note f = uheap_rep_facts[OF rep, of p k, simplified]
    have "p + k < q \<or> q + l < p" if "(q, l) \<in> L" for q l using f(5)[of q l] that new by force
    moreover have "insert (p, k) L - {(p, k)} = L" using new by force
    then have "\<exists>u''. libc_free p u' = Some u'' \<and> ?rep u'' L" using libc_free_rep[OF rep, of p k] by simp
    ultimately show ?thesis using f(1-3) sizeof_block_info_pos by auto
  qed
  note Q = this
  from c show ?thesis
  proof (elim disjE conjE exE)
    assume "p = 0" "?rep u' L"
    then show ?thesis using r by (intro exI[of _ p] exI[of _ u']) simp
  next
    fix k assume "p \<notin> fst ` L" "n \<le> k" "?rep u' (insert (p, k) L)"
    then show ?thesis using r Q[of k]
      by - (rule exI[of _ p], rule exI[of _ u'], rule conjI[OF _ disjI2], simp, rule exI[of _ k], simp)
  qed
qed

text \<open>A process that has not allocated yet.\<close>

definition brk_proc_ex :: brk_proc where
  "brk_proc_ex = \<lparr>bpm = pm_boot kqueue_one, bPML4T = 0x1000, proc_brk = PROCESS_HEAP_START + 0x1000, error_no = 0\<rparr>"

definition uheap_ex :: "brk_proc uheap" where
  "uheap_ex = \<lparr>umem = (\<lambda>_. blank_block), heap_top = PROCESS_HEAP_START + 0x1000, ufirst_free = 0, kern = brk_proc_ex\<rparr>"

lemma uheap_ex_rep: "uheap_rep (\<lambda>c. pm_wf {} (bpm c)) uheap_ex {}"
  using pmm_rep_wf[OF pm_boot_one(1)] by (simp add: uheap_rep_def uheap_ex_def brk_proc_ex_def)

theorem malloc_spec_witness:
  "\<exists>p u'. malloc sys_brk 5000 uheap_ex = Some (p, u') \<and>
    (p = 0 \<or> PROCESS_HEAP_START < p \<and> p + 5000 \<le> PROCESS_HEAP_END)"
proof -
  have "(5000 :: nat) < 2 ^ 64" by simp
  from malloc_spec[OF uheap_ex_rep this] show ?thesis by fastforce
qed



end
