(* ===== verification/Posix.thy ===== *)
theory Posix
  imports Malloc Queue
begin

text \<open>
  The user space mutex, \<open>src/posix/mutex/pthread_mutex.c\<close>, with its wait queue,
  \<open>src/posix/plib/unsafe_queue.c\<close>, over \<open>malloc\<close> and \<open>free\<close> of the C library. Both are shown to
  implement their kernel counterparts: the queue does the same as
  \<open>mtx_queue.c\<close>, and the mutex, whose waiters are linked nodes on the heap, refines
  \<open>kmutex.c\<close>, whose model keeps them as a list.
\<close>

section \<open>The queue\<close>

record uqueue_t =
  uhead :: ptr
  utail :: ptr

record 's uqstate =
  uque :: uqueue_t
  unodes :: "ptr \<rightharpoonup> queue_node"
  uraw :: "ptr \<Rightarrow> queue_node"
  uqheap :: 's

definition sizeof_uqueue_node :: nat where "sizeof_uqueue_node = 16"

definition uqueue_init :: "'s uqstate \<Rightarrow> 's uqstate" where
  "uqueue_init q = q\<lparr>uque := (uque q)\<lparr>uhead := 0, utail := 0\<rparr>\<rparr>"

definition uqueue_enqueue ::
    "(nat \<Rightarrow> 's \<Rightarrow> (ptr \<times> 's) option) \<Rightarrow> nat \<Rightarrow> 's uqstate \<Rightarrow> 's uqstate option" where
  "uqueue_enqueue alloc value q = do {
     (node, h) \<leftarrow> alloc sizeof_uqueue_node (uqheap q);
     if node = 0 then None
     else do {
       let N = (unodes q)(node \<mapsto> (uraw q node)\<lparr>qvalue := value, qnext := 0\<rparr>);
       if uhead (uque q) = 0
       then Some (q\<lparr>uqheap := h, unodes := N, uque := \<lparr>uhead = node, utail = node\<rparr>\<rparr>)
       else do {
         t \<leftarrow> N (utail (uque q));
         Some (q\<lparr>uqheap := h, unodes := N(utail (uque q) \<mapsto> t\<lparr>qnext := node\<rparr>),
                 uque := (uque q)\<lparr>utail := node\<rparr>\<rparr>)
       }
     }
   }"

definition uqueue_dequeue ::
    "(ptr \<Rightarrow> 's \<Rightarrow> 's option) \<Rightarrow> 's uqstate \<Rightarrow> (nat option \<times> 's uqstate) option" where
  "uqueue_dequeue dealloc q =
     (if uhead (uque q) = 0 then Some (None, q)
      else do {
        let tmp = uhead (uque q);
        t \<leftarrow> unodes q tmp;
        h \<leftarrow> dealloc tmp (uqheap q);
        Some (Some (qvalue t), q\<lparr>uque := (uque q)\<lparr>uhead := qnext t\<rparr>,
                                 unodes := (unodes q)(tmp := None), uqheap := h\<rparr>)
      })"

definition uqueue_remove ::
    "(ptr \<Rightarrow> 's \<Rightarrow> 's option) \<Rightarrow> 's uqstate \<Rightarrow> (nat \<times> 's uqstate) option" where
  "uqueue_remove dealloc q = do {
     (r, q') \<leftarrow> uqueue_dequeue dealloc q;
     Some (case r of None \<Rightarrow> 0 | Some v \<Rightarrow> v, q')
   }"

definition uqueue_empty :: "'s uqstate \<Rightarrow> bool" where
  "uqueue_empty q \<longleftrightarrow> \<not> uhead (uque q) \<noteq> 0"

text \<open>The state seen as one of the kernel's queue, with any locks.\<close>

definition to_kqueue :: "kmutex \<Rightarrow> 's uqstate \<Rightarrow> 's qstate" where
  "to_kqueue l q =
     \<lparr>que = \<lparr>head = uhead (uque q), tail = utail (uque q), head_lock = l, tail_lock = l\<rparr>,
      qnodes = unodes q, qraw = uraw q, qheap = uqheap q\<rparr>"

lemma uqueue_enqueue_sim:
  "mtx_queue_enqueue alloc v (to_kqueue l q) = map_option (to_kqueue l) (uqueue_enqueue alloc v q)"
  by (cases "alloc 16 (uqheap q)")
     (auto simp: mtx_queue_enqueue_def uqueue_enqueue_def to_kqueue_def sizeof_queue_node_def sizeof_uqueue_node_def
       Let_def split: option.splits Option.bind_splits)

lemma uqueue_dequeue_sim:
  "mtx_queue_dequeue dealloc (to_kqueue l q) = map_option (map_prod id (to_kqueue l)) (uqueue_dequeue dealloc q)"
  by (auto simp: mtx_queue_dequeue_def uqueue_dequeue_def to_kqueue_def Let_def split: Option.bind_splits)

lemma uqueue_empty_sim: "mtx_queue_empty (to_kqueue l q) = uqueue_empty q"
  by (simp add: mtx_queue_empty_def uqueue_empty_def to_kqueue_def)

definition free_kmutex :: kmutex where
  "free_kmutex = \<lparr>lock = 0, flag = 0, pad = 0, count = 0, wait_queue = []\<rparr>"

definition uqueue_rep ::
    "('s \<Rightarrow> (ptr \<times> nat) set \<Rightarrow> bool) \<Rightarrow> ptr set \<Rightarrow> 's uqstate \<Rightarrow> nat list \<Rightarrow> bool" where
  "uqueue_rep rep F q xs \<longleftrightarrow> mtx_queue_rep rep F (to_kqueue free_kmutex q) xs"

definition ualloc_room :: "(nat \<Rightarrow> 's \<Rightarrow> (ptr \<times> 's) option) \<Rightarrow> 's uqstate \<Rightarrow> bool" where
  "ualloc_room alloc q \<longleftrightarrow> (\<exists>p s'. alloc sizeof_uqueue_node (uqheap q) = Some (p, s') \<and> p \<noteq> 0)"

lemma ualloc_room_sim: "alloc_room alloc (to_kqueue l q) = ualloc_room alloc q"
  by (auto simp: alloc_room_def ualloc_room_def to_kqueue_def sizeof_queue_node_def sizeof_uqueue_node_def)

context allocator
begin

lemma uqueue_enqueue_rep:
  "uqueue_rep rep F q xs \<Longrightarrow> ualloc_room alloc q \<Longrightarrow>
     \<exists>q'. uqueue_enqueue alloc v q = Some q' \<and> uqueue_rep rep F q' (xs @ [v])"
  using mtx_queue_enqueue_rep[of F "to_kqueue free_kmutex q" xs v]
  by (auto simp: uqueue_rep_def ualloc_room_sim uqueue_enqueue_sim)

lemma uqueue_dequeue_none:
  "uqueue_rep rep F q [] \<Longrightarrow> \<exists>q'. uqueue_dequeue dealloc q = Some (None, q') \<and> uqueue_rep rep F q' []"
  using mtx_queue_dequeue_none[of F "to_kqueue free_kmutex q"]
  by (auto simp: uqueue_rep_def uqueue_dequeue_sim)

lemma uqueue_dequeue_some:
  "uqueue_rep rep F q (x # xs) \<Longrightarrow> \<exists>q'. uqueue_dequeue dealloc q = Some (Some x, q') \<and> uqueue_rep rep F q' xs"
  using mtx_queue_dequeue_some[of F "to_kqueue free_kmutex q" x xs]
  by (auto simp: uqueue_rep_def uqueue_dequeue_sim)

lemma uqueue_empty_rep: "uqueue_rep rep F q xs \<Longrightarrow> Some (uqueue_empty q) = Some (xs = [])"
  using mtx_queue_empty_rep[of F "to_kqueue free_kmutex q" xs]
  by (simp add: uqueue_rep_def uqueue_empty_sim)

end

interpretation uq: fifo "uqueue_enqueue (malloc sys_brk)" "uqueue_dequeue libc_free" "\<lambda>q. Some (uqueue_empty q)"
    "uqueue_rep (uheap_rep (\<lambda>c :: brk_proc. pm_wf K (bpm c))) F" "ualloc_room (malloc sys_brk)" for K F
  by unfold_locales
     (fact sb.ma.uqueue_enqueue_rep sb.ma.uqueue_dequeue_none sb.ma.uqueue_dequeue_some sb.ma.uqueue_empty_rep)+

section \<open>The mutex\<close>

record 's pthread_mutex =
  plock :: nat
  pflag :: nat
  ppad :: nat
  pcount :: nat
  pwait_queue :: "'s uqstate"

text \<open>The exchange instruction on the 64 bits at the address of \<open>plock\<close>.\<close>

definition pxchg :: "nat \<Rightarrow> 's pthread_mutex \<Rightarrow> nat \<times> 's pthread_mutex" where
  "pxchg new_val k =
     (plock k + 2 ^ 32 * pflag k + 2 ^ 40 * ppad k,
      k\<lparr>plock := new_val mod 2 ^ 32, pflag := new_val div 2 ^ 32 mod 2 ^ 8, ppad := new_val div 2 ^ 40 mod 2 ^ 24\<rparr>)"

definition pthread_mutex_init :: "'s pthread_mutex \<Rightarrow> int \<times> 's pthread_mutex" where
  "pthread_mutex_init k = (0, k\<lparr>plock := 0, pflag := 0, pcount := 0, pwait_queue := uqueue_init (pwait_queue k)\<rparr>)"

text \<open>A caller that runs alone: \<open>None\<close> when it spins, parks or faults.\<close>

definition pthread_mutex_lock :: "'s pthread_mutex \<Rightarrow> (int \<times> 's pthread_mutex) option" where
  "pthread_mutex_lock k =
     (case pxchg 1 k of (old, k1) \<Rightarrow>
        if old \<noteq> 0 then None
        else if pflag k1 = 0 then Some (0, snd (pxchg 0 (k1\<lparr>pflag := 1\<rparr>)))
        else None)"

definition pthread_mutex_unlock ::
    "(ptr \<Rightarrow> 's \<Rightarrow> 's option) \<Rightarrow> 's pthread_mutex \<Rightarrow> (int \<times> 's pthread_mutex \<times> nat list) option" where
  "pthread_mutex_unlock dealloc k =
     (case pxchg 1 k of (old, k1) \<Rightarrow>
        if old \<noteq> 0 then None
        else if uqueue_empty (pwait_queue k1) then Some (0, snd (pxchg 0 (k1\<lparr>pflag := 0\<rparr>)), [])
        else do {
          (pid, q) \<leftarrow> uqueue_remove dealloc (pwait_queue k1);
          Some (0, snd (pxchg 0 (k1\<lparr>pwait_queue := q\<rparr>)), [pid])
        })"

text \<open>The mutex with the list of its waiters.\<close>

definition to_kmutex :: "'s pthread_mutex \<Rightarrow> nat list \<Rightarrow> kmutex" where
  "to_kmutex k xs = \<lparr>lock = plock k, flag = pflag k, pad = ppad k, count = pcount k, wait_queue = xs\<rparr>"

lemma pxchg_sim: "xchg v (to_kmutex k xs) = (fst (pxchg v k), to_kmutex (snd (pxchg v k)) xs)"
  by (simp add: xchg_def pxchg_def to_kmutex_def word64_def)

lemma pthread_lock_sim:
  "kmutex_lock (to_kmutex k xs) = map_option (\<lambda>(r, k'). to_kmutex k' xs) (pthread_mutex_lock k)"
  by (auto simp: kmutex_lock_def pthread_mutex_lock_def pxchg_def xchg_def to_kmutex_def word64_def)

context allocator
begin

lemma pthread_unlock_sim:
  assumes rep: "uqueue_rep rep F (pwait_queue k) xs"
  shows "case pthread_mutex_unlock dealloc k of
      None \<Rightarrow> kmutex_unlock (to_kmutex k xs) = None
    | Some (r, k', woken) \<Rightarrow> r = 0 \<and> (\<exists>xs'. uqueue_rep rep F (pwait_queue k') xs' \<and>
        kmutex_unlock (to_kmutex k xs) = Some (to_kmutex k' xs', woken))"
proof (cases xs)
  case Nil
  then have "uqueue_empty (pwait_queue k)" using uqueue_empty_rep[OF rep] by simp
  then show ?thesis
    using Nil rep by (auto simp: pthread_mutex_unlock_def kmutex_unlock_def pxchg_def xchg_def to_kmutex_def word64_def)
next
  case (Cons x ys)
  then have ne: "\<not> uqueue_empty (pwait_queue k)" using uqueue_empty_rep[OF rep] by simp
  obtain q' where d: "uqueue_dequeue dealloc (pwait_queue k) = Some (Some x, q')" "uqueue_rep rep F q' ys"
    using uqueue_dequeue_some rep Cons by blast
  show ?thesis
    using Cons ne d
    by (auto simp: pthread_mutex_unlock_def kmutex_unlock_def pxchg_def xchg_def to_kmutex_def word64_def uqueue_remove_def)
qed

end

section \<open>Properties\<close>



definition pthread_ex :: "brk_proc uheap pthread_mutex" where
  "pthread_ex = \<lparr>plock = 0, pflag = 0, ppad = 0, pcount = 0,
     pwait_queue = \<lparr>uque = \<lparr>uhead = 0, utail = 0\<rparr>, unodes = (\<lambda>_. None), uraw = (\<lambda>_. \<lparr>qvalue = 0, qnext = 0\<rparr>),
                   uqheap = uheap_ex\<rparr>\<rparr>"

lemma pthread_ex_rep: "uqueue_rep (uheap_rep (\<lambda>c. pm_wf {} (bpm c))) {} (pwait_queue pthread_ex) []"
  using uheap_ex_rep
  by (auto simp: uqueue_rep_def mtx_queue_rep_def pthread_ex_def to_kqueue_def qvalues_def holds_def)


end
