(* ===== verification/Print.thy ===== *)
theory Print
  imports Cstring
begin

text \<open>
  Formatted output of the kernel, \<open>src/klib/io/kprint.c\<close>: the conversion of numbers and \<open>ksprint\<close>, which renders a
  format into a buffer of a given size. Format, string arguments and buffer are
  in one memory; the variable arguments are the 64 bit slots that \<open>va_arg\<close> reads in
  order, and reading one that was not passed is undefined (\<open>None\<close>).
\<close>

section \<open>Numbers\<close>

definition INT_MAX :: nat where "INT_MAX = 0x7fffffff"

definition digit_chars :: "u8 list" where
  "digit_chars = [48, 49, 50, 51, 52, 53, 54, 55, 56, 57, 97, 98, 99, 100, 101, 102]"

text \<open>The characters pushed into \<open>buffer\<close>, the last digit first. Without a base of at least 2 the loop
  does not end.\<close>

partial_function (option) int_digits :: "nat \<Rightarrow> nat \<Rightarrow> u8 list option" where
  "int_digits base val =
     (if val \<noteq> 0 then do { ds \<leftarrow> int_digits base (val div base); Some (digit_chars ! (val mod base) # ds) }
      else Some [])"

text \<open>\<open>str\<close> is the caller's buffer; the result is its size without the terminating
  zero. The negation is on \<open>int\<close>, the result of it is extended to 64 bits again.\<close>

definition int_to_string :: "u64 \<Rightarrow> nat \<Rightarrow> (nat \<Rightarrow> u8) \<Rightarrow> bool \<Rightarrow> (nat \<times> (nat \<Rightarrow> u8)) option" where
  "int_to_string val base str isSigned =
     (let neg = (isSigned \<and> unat val > INT_MAX);
          str1 = (if neg then str(0 := 45) else str);
          size1 = (if neg then 1 else 0);
          val1 = (if neg then scast (- (ucast val :: u32)) else val)
      in do {
        buffer \<leftarrow> int_digits base (unat val1);
        let str2 = (if val1 = 0 then str1(0 := 48) else str1);
        let size2 = (if val1 = 0 then size1 + 1 else size1);
        let str3 = fold (\<lambda>i s. s(size2 + i := rev buffer ! i)) [0..<length buffer] str2;
        let size3 = size2 + length buffer;
        Some (size3, str3(size3 := 0))
      })"

section \<open>Rendering into a buffer\<close>

text \<open>A source of characters may lie in memory or in a local variable: it is read from the
  memory at the time.\<close>

function sprint_data :: "ptr \<Rightarrow> nat \<Rightarrow> (bytes \<Rightarrow> nat \<Rightarrow> u8) \<Rightarrow> nat \<Rightarrow> nat \<Rightarrow> nat \<Rightarrow> bytes \<Rightarrow> nat \<times> bytes" where
  "sprint_data out pos str sz maxsize i m =
     (if i < sz \<and> pos + 1 < maxsize
      then sprint_data out (pos + 1) str sz maxsize (i + 1) (m(out + pos := str m i))
      else (pos, m))"
  by pat_completeness auto
termination by (relation "measure (\<lambda>(out, pos, str, sz, maxsize, i, m). sz - i)") auto

declare sprint_data.simps [simp del]

text \<open>The inner loop over plain text: by how much \<open>index\<close> moves.\<close>

partial_function (option) text_length :: "bytes \<Rightarrow> ptr \<Rightarrow> nat \<Rightarrow> nat option" where
  "text_length m text len =
     (if m (text + len) \<noteq> 37 \<and> m (text + len) \<noteq> 0 then text_length m text (len + 1) else Some len)"

definition va_arg :: "u64 list \<Rightarrow> (u64 \<times> u64 list) option" where
  "va_arg args = (case args of [] \<Rightarrow> None | a # as \<Rightarrow> Some (a, as))"

text \<open>The prefix of a conversion, its number, base and sign.\<close>

definition print_number ::
    "ptr \<Rightarrow> nat \<Rightarrow> nat \<Rightarrow> u8 list \<Rightarrow> u64 \<Rightarrow> nat \<Rightarrow> bool \<Rightarrow> (nat \<Rightarrow> u8) \<Rightarrow> bytes \<Rightarrow> (nat \<times> bytes) option" where
  "print_number out maxsize pos prefix nbr base isSigned tmp_str m = do {
     let (pos1, m1) = sprint_data out pos (\<lambda>_ i. prefix ! i) (length prefix) maxsize 0 m;
     (n, s) \<leftarrow> int_to_string nbr base tmp_str isSigned;
     Some (sprint_data out pos1 (\<lambda>_. s) n maxsize 0 m1)
   }"

text \<open>One conversion: the character behind the percent sign decides. The result says whether
  the character was used up.\<close>

definition print_conv ::
    "ptr \<Rightarrow> nat \<Rightarrow> (nat \<Rightarrow> u8) \<Rightarrow> u8 \<Rightarrow> nat \<Rightarrow> u64 list \<Rightarrow> bytes \<Rightarrow> (bool \<times> nat \<times> u64 list \<times> bytes) option" where
  "print_conv out maxsize tmp_str c pos args m =
     (if c = 98 then do { (a, as) \<leftarrow> va_arg args;
        (p, m') \<leftarrow> print_number out maxsize pos [98] a 2 False tmp_str m; Some (True, p, as, m') }
      else if c = 100 then do { (a, as) \<leftarrow> va_arg args;
        (p, m') \<leftarrow> print_number out maxsize pos [] (scast (ucast a :: u32)) 10 True tmp_str m; Some (True, p, as, m') }
      else if c = 108 then do { (a, as) \<leftarrow> va_arg args;
        (p, m') \<leftarrow> print_number out maxsize pos [] a 10 True tmp_str m; Some (True, p, as, m') }
      else if c = 117 then do { (a, as) \<leftarrow> va_arg args;
        (p, m') \<leftarrow> print_number out maxsize pos [] a 10 False tmp_str m; Some (True, p, as, m') }
      else if c = 120 \<or> c = 112 then do { (a, as) \<leftarrow> va_arg args;
        (p, m') \<leftarrow> print_number out maxsize pos [120] a 16 False tmp_str m; Some (True, p, as, m') }
      else if c = 99 then do { (a, as) \<leftarrow> va_arg args;
        let (p, m') = sprint_data out pos (\<lambda>_ _. ucast a) 1 maxsize 0 m; Some (True, p, as, m') }
      else if c = 115 then do { (a, as) \<leftarrow> va_arg args;
        len \<leftarrow> strlen (unat a) m;
        let (p, m') = sprint_data out pos (\<lambda>m i. m (unat a + i)) len maxsize 0 m; Some (True, p, as, m') }
      else let (p, m') = sprint_data out pos (\<lambda>_ _. 37) 1 maxsize 0 m in Some (False, p, args, m'))"

text \<open>At the head of the loop \<open>base_index\<close> equals \<open>index\<close>.\<close>

partial_function (option) ksprint_loop ::
    "ptr \<Rightarrow> nat \<Rightarrow> ptr \<Rightarrow> (nat \<Rightarrow> u8) \<Rightarrow> nat \<Rightarrow> nat \<Rightarrow> u64 list \<Rightarrow> bytes \<Rightarrow> (nat \<times> bytes) option" where
  "ksprint_loop out maxsize format tmp_str index pos args m =
     (if m (format + index) = 0 then Some (pos, m)
      else if m (format + index) \<noteq> 37 then do {
        len \<leftarrow> text_length m (format + index) 0;
        let (p, m') = sprint_data out pos (\<lambda>m i. m (format + index + i)) len maxsize 0 m;
        ksprint_loop out maxsize format tmp_str (index + len) p args m'
      } else do {
        (used, p, as, m') \<leftarrow> print_conv out maxsize tmp_str (m (format + (index + 1))) pos args m;
        ksprint_loop out maxsize format tmp_str (if used then index + 2 else index + 1) p as m'
      })"

definition ksprint :: "ptr \<Rightarrow> nat \<Rightarrow> ptr \<Rightarrow> u64 list \<Rightarrow> (nat \<Rightarrow> u8) \<Rightarrow> bytes \<Rightarrow> (nat \<times> bytes) option" where
  "ksprint out maxsize format args tmp_str m =
     (if maxsize = 0 then Some (0, m)
      else do {
        (pos, m') \<leftarrow> ksprint_loop out maxsize format tmp_str 0 0 args m;
        Some (pos, m'(out + pos := 0))
      })"

section \<open>The output of processes\<close>

text \<open>
  \<open>printf\<close> of the C library has its own copy of \<open>__int_to_string\<close>, which is the same. Here \<open>out\<close> is what has been
  written to descriptor 0. \<open>written\<close> is an \<open>int\<close>, and \<open>maxsize\<close> the difference of two of them as a
  \<open>size_t\<close>.
\<close>

definition putchar :: "u8 \<Rightarrow> u8 list \<Rightarrow> u8 list" where
  "putchar c out = out @ [c]"

definition print_string :: "u8 list \<Rightarrow> u8 list \<Rightarrow> u8 list" where
  "print_string str out = out @ str"

definition print_data :: "u8 list \<Rightarrow> nat \<Rightarrow> u8 list \<Rightarrow> u8 list" where
  "print_data str maxsize out = (if maxsize < length str then out else print_string str out)"

definition printf_number :: "u64 \<Rightarrow> nat \<Rightarrow> bool \<Rightarrow> (nat \<Rightarrow> u8) \<Rightarrow> nat \<Rightarrow> u8 list \<Rightarrow> (nat \<times> u8 list) option" where
  "printf_number nbr base isSigned str maxsize out = do {
     (n, s) \<leftarrow> int_to_string nbr base str isSigned;
     Some (n, print_data (map s [0..<n]) maxsize out)
   }"

text \<open>One conversion, with whether its character was used up, the length that counts as written, and the
  arguments left.\<close>

definition printf_conv ::
    "(nat \<Rightarrow> u8) \<Rightarrow> nat \<Rightarrow> bytes \<Rightarrow> u8 \<Rightarrow> u64 list \<Rightarrow> u8 list \<Rightarrow> (bool \<times> nat \<times> u64 list \<times> u8 list) option" where
  "printf_conv str maxsize m c args out =
     (if c = 98 then do { (a, as) \<leftarrow> va_arg args;
        (n, out') \<leftarrow> printf_number a 2 False str maxsize (putchar 98 out); Some (True, n, as, out') }
      else if c = 100 then do { (a, as) \<leftarrow> va_arg args;
        (n, out') \<leftarrow> printf_number a 10 True str maxsize out; Some (True, n, as, out') }
      else if c = 117 then do { (a, as) \<leftarrow> va_arg args;
        (n, out') \<leftarrow> printf_number a 10 False str maxsize out; Some (True, n, as, out') }
      else if c = 120 \<or> c = 112 then do { (a, as) \<leftarrow> va_arg args;
        (n, out') \<leftarrow> printf_number a 16 False str maxsize (putchar 120 out); Some (True, n, as, out') }
      else if c = 99 then do { (a, as) \<leftarrow> va_arg args; Some (True, 1, as, print_data [ucast a] maxsize out) }
      else if c = 115 then do { (a, as) \<leftarrow> va_arg args;
        n \<leftarrow> strlen (unat a) m; Some (True, n, as, print_data (region m (unat a) n) maxsize out) }
      else Some (False, 1, args, print_string [37] out))"

definition room :: "u32 \<Rightarrow> nat" where
  "room written = unat (scast (0x7fffffff - written) :: u64)"

partial_function (option) printf_loop ::
    "ptr \<Rightarrow> (nat \<Rightarrow> u8) \<Rightarrow> bytes \<Rightarrow> nat \<Rightarrow> u64 list \<Rightarrow> u32 \<times> u8 list \<Rightarrow> (u32 \<times> u8 list) option" where
  "printf_loop format str m index args s =
     (if m (format + index) = 0 then Some s
      else if m (format + index) \<noteq> 37 then do {
        len \<leftarrow> text_length m (format + index) 0;
        printf_loop format str m (index + len) args
          (fst s + of_nat len, print_data (region m (format + index) len) (room (fst s)) (snd s))
      } else do {
        (used, len, as, out') \<leftarrow> printf_conv str (room (fst s)) m (m (format + (index + 1))) args (snd s);
        printf_loop format str m (if used then index + 2 else index + 1) as (fst s + of_nat len, out')
      })"

definition printf :: "ptr \<Rightarrow> u64 list \<Rightarrow> (nat \<Rightarrow> u8) \<Rightarrow> bytes \<Rightarrow> u8 list \<Rightarrow> (u32 \<times> u8 list) option" where
  "printf format args str m out = printf_loop format str m 0 args (0, out)"

section \<open>Numbers: correctness\<close>

lemma int_digits_ok:
  assumes "2 \<le> base"
  shows "\<exists>ds. int_digits base val = Some ds \<and> (val = 0 \<longleftrightarrow> ds = [])"
proof (induction val rule: less_induct)
  case (less val)
  show ?case
  proof (cases "val = 0")
    case False
    then have "val div base < val" using assms by simp
    then show ?thesis using less[of "val div base"] False by (subst int_digits.simps) auto
  qed (simp add: int_digits.simps)
qed

text \<open>The number that a list of digits stands for, the last digit first.\<close>

definition digit_of :: "u8 \<Rightarrow> nat" where
  "digit_of c = (if 97 \<le> c then unat c - 87 else unat c - 48)"

lemma digit_of_chars:
  assumes "n < 16"
  shows "digit_of (digit_chars ! n) = n"
proof -
  have "map digit_of digit_chars = [0, 1, 2, 3, 4, 5, 6, 7, 8, 9, 10, 11, 12, 13, 14, 15]"
    by (simp add: digit_chars_def digit_of_def)
  also have "\<dots> = [0..<16]" by (simp add: upt_rec)
  finally have "map digit_of digit_chars ! n = [0..<16] ! n" by simp
  moreover have "n < length digit_chars" using assms by (simp add: digit_chars_def)
  ultimately show ?thesis using assms by simp
qed

lemma int_digits_value:
  assumes "2 \<le> base" "base \<le> 16" "int_digits base val = Some ds"
  shows "foldr (\<lambda>c v. v * base + digit_of c) ds 0 = val"
  using assms(3)
proof (induction val arbitrary: ds rule: less_induct)
  case (less val)
  show ?case
  proof (cases "val = 0")
    case True
    then show ?thesis using less.prems by (simp add: int_digits.simps)
  next
    case False
    obtain es where es: "int_digits base (val div base) = Some es"
      using int_digits_ok[OF assms(1)] by blast
    have ds: "ds = digit_chars ! (val mod base) # es"
      using less.prems False es by (subst (asm) int_digits.simps) simp
    have "val div base < val" using False assms(1) by simp
    from less.IH[OF this es] have "foldr (\<lambda>c v. v * base + digit_of c) es 0 = val div base" .
    moreover have "val mod base < 16" using assms(1,2) by (metis order_less_le_trans mod_less_divisor zero_less_numeral)
    then have "digit_of (digit_chars ! (val mod base)) = val mod base" by (rule digit_of_chars)
    ultimately show ?thesis unfolding ds by simp
  qed
qed

section \<open>What a format means\<close>

text \<open>The characters of a conversion.\<close>

definition number_text :: "(nat \<Rightarrow> u8) \<Rightarrow> u64 \<Rightarrow> nat \<Rightarrow> bool \<Rightarrow> u8 list" where
  "number_text raw val base isSigned = (case int_to_string val base raw isSigned of None \<Rightarrow> [] | Some (n, s) \<Rightarrow> map s [0..<n])"

definition string_at :: "bytes \<Rightarrow> ptr \<Rightarrow> u8 list" where
  "string_at m p = (case strlen p m of None \<Rightarrow> [] | Some n \<Rightarrow> region m p n)"

definition conv_char :: "u8 \<Rightarrow> bool" where
  "conv_char c \<longleftrightarrow> c = 98 \<or> c = 100 \<or> c = 108 \<or> c = 117 \<or> c = 120 \<or> c = 112 \<or> c = 99 \<or> c = 115"

definition conv_text :: "(nat \<Rightarrow> u8) \<Rightarrow> bytes \<Rightarrow> u8 \<Rightarrow> u64 \<Rightarrow> u8 list" where
  "conv_text raw m c a =
     (if c = 98 then 98 # number_text raw a 2 False
      else if c = 100 then number_text raw (scast (ucast a :: u32)) 10 True
      else if c = 108 then number_text raw a 10 True
      else if c = 117 then number_text raw a 10 False
      else if c = 120 \<or> c = 112 then 120 # number_text raw a 16 False
      else if c = 99 then [ucast a]
      else string_at m (unat a))"

text \<open>A whole format, for the conversions \<open>cc\<close> with the texts \<open>ct\<close>: \<open>None\<close> when an argument is missing.\<close>

fun render :: "(u8 \<Rightarrow> 'a) \<Rightarrow> (u8 \<Rightarrow> bool) \<Rightarrow> (u8 \<Rightarrow> u64 \<Rightarrow> 'a list) \<Rightarrow> u8 list \<Rightarrow> u64 list \<Rightarrow> 'a list option" where
  "render lit cc ct [] args = Some []"
| "render lit cc ct [x] args = Some [lit x]"
| "render lit cc ct (x # c # cs) args =
     (if x = 37 \<and> cc c then
        (case args of [] \<Rightarrow> None | a # as \<Rightarrow> map_option ((@) (ct c a)) (render lit cc ct cs as))
      else map_option ((#) (lit x)) (render lit cc ct (c # cs) args))"

text \<open>The conversions of a format, with the arguments they read.\<close>

fun convs :: "(u8 \<Rightarrow> bool) \<Rightarrow> u8 list \<Rightarrow> u64 list \<Rightarrow> (u8 \<times> u64) list" where
  "convs cc (x # c # cs) args =
     (if x = 37 \<and> cc c then (case args of [] \<Rightarrow> [] | a # as \<Rightarrow> (c, a) # convs cc cs as)
      else convs cc (c # cs) args)"
| "convs cc _ args = []"

lemma render_Cons_text: "x \<noteq> 37 \<Longrightarrow> render lit cc ct (x # xs) args = map_option ((#) (lit x)) (render lit cc ct xs args)"
  by (cases xs) auto

lemma convs_Cons_text: "x \<noteq> 37 \<Longrightarrow> convs cc (x # xs) args = convs cc xs args"
  by (cases xs) auto

lemma render_text: "37 \<notin> set ts \<Longrightarrow> render lit cc ct (ts @ xs) args = map_option ((@) (map lit ts)) (render lit cc ct xs args)"
proof (induction ts)
  case Nil
  then show ?case by (simp add: option.map_ident_strong)
next
  case (Cons t ts)
  then show ?case by (simp add: render_Cons_text option.map_comp comp_def)
qed

lemma convs_text: "37 \<notin> set ts \<Longrightarrow> convs cc (ts @ xs) args = convs cc xs args"
  by (induction ts) (auto simp: convs_Cons_text)

lemma render_plain: "\<not> (ys \<noteq> [] \<and> cc (hd ys)) \<Longrightarrow> render lit cc ct (37 # ys) args = map_option ((#) (lit 37)) (render lit cc ct ys args)"
  by (cases ys) auto

lemma convs_plain: "\<not> (ys \<noteq> [] \<and> cc (hd ys)) \<Longrightarrow> convs cc (37 # ys) args = convs cc ys args"
  by (cases ys) auto

lemma render_map: "render (\<lambda>x. f (lit x)) cc (\<lambda>c a. map f (ct c a)) xs args = map_option (map f) (render lit cc ct xs args)"
  by (induction xs args rule: convs.induct[of _ cc])
    (auto split: list.splits simp: option.map_comp comp_def intro!: option.map_cong)

lemma render_cong:
  assumes "render lit cd du xs args = Some t" "\<forall>x. cc x \<longrightarrow> cd x"
    and "\<forall>ca\<in>set (convs cd xs args). cc (fst ca) \<and> ct (fst ca) (snd ca) = du (fst ca) (snd ca)"
  shows "render lit cc ct xs args = Some t"
  using assms
proof (induction cd xs args arbitrary: t rule: convs.induct)
  case (1 cd x c cs args)
  show ?case
  proof (cases "x = 37 \<and> cd c")
    case True
    then obtain a as where as: "args = a # as" using 1(3) by (cases args) auto
    have "cc c" "ct c a = du c a" using 1(5) True as by auto
    then show ?thesis using 1(1)[OF True as] 1(3,4,5) True as by auto
  next
    case False
    then show ?thesis using 1(2)[OF False] 1(3,4,5) by auto
  qed
qed auto

lemma convs_cc: "ca \<in> set (convs cc xs args) \<Longrightarrow> cc (fst ca)"
  by (induction cc xs args rule: convs.induct) (auto split: if_splits list.splits)

lemma convs_cong:
  assumes "render lit cd du xs args = Some t" "\<forall>x. cc x \<longrightarrow> cd x" "\<forall>ca\<in>set (convs cd xs args). cc (fst ca)"
  shows "convs cc xs args = convs cd xs args"
  using assms
proof (induction cd xs args arbitrary: t rule: convs.induct)
  case (1 cd x c cs args)
  show ?case
  proof (cases "x = 37 \<and> cd c")
    case True
    then obtain a as where as: "args = a # as" using 1(3) by (cases args) auto
    have "cc c" using 1(5) True as by auto
    then show ?thesis using 1(1)[OF True as] 1(3,4,5) True as by auto
  next
    case False
    then show ?thesis using 1(2)[OF False] 1(3,4,5) by auto
  qed
qed auto

lemma render_count:
  assumes "render lit cc ct xs args = Some t" "\<And>x. \<not> P (lit x)"
    and "\<And>c a. length (filter P (ct c a)) = (if Q c then 1 else 0)"
  shows "length (filter P t) = length (filter (\<lambda>ca. Q (fst ca)) (convs cc xs args))"
  using assms(1)
proof (induction cc xs args arbitrary: t rule: convs.induct)
  case (1 cc x c cs args)
  then show ?case using assms(2,3) by (cases args) (auto split: if_splits)
qed (auto simp: assms(2))

section \<open>The loop over a format\<close>

text \<open>
  \<open>ksprint\<close> and \<open>printf\<close> walk over a format in the same way: runs of plain text are passed on, and the character behind
  a percent sign selects a conversion. The walk renders the format in any state for which text and conversions
  are rendered.
\<close>

lemma text_length_ok: "cstr m p xs \<Longrightarrow> text_length m p 0 = Some (length (takeWhile (\<lambda>x. x \<noteq> 37) xs))"
  by (rule scan_ok) (assumption, simp, rule text_length.simps)

locale format_loop =
  fixes loop :: "nat \<Rightarrow> u64 list \<Rightarrow> 's \<Rightarrow> 's option"
    and mem_of :: "'s \<Rightarrow> bytes"
    and emit_text :: "nat \<Rightarrow> nat \<Rightarrow> 's \<Rightarrow> 's"
    and conv :: "u8 \<Rightarrow> u64 list \<Rightarrow> 's \<Rightarrow> (bool \<times> u64 list \<times> 's) option"
    and fmt :: ptr
    and xs :: "u8 list"
    and lit :: "u8 \<Rightarrow> 'a"
    and cc :: "u8 \<Rightarrow> bool"
    and ct :: "u8 \<Rightarrow> u64 \<Rightarrow> 'a list"
    and arg_ok :: "u8 \<times> u64 \<Rightarrow> bool"
    and rendered :: "'a list \<Rightarrow> 's \<Rightarrow> bool"
  assumes loop_eq: "loop i args s =
      (if mem_of s (fmt + i) = 0 then Some s
       else if mem_of s (fmt + i) \<noteq> 37 then do {
         n \<leftarrow> text_length (mem_of s) (fmt + i) 0;
         loop (i + n) args (emit_text i n s)
       } else do {
         (used, as, s') \<leftarrow> conv (mem_of s (fmt + (i + 1))) args s;
         loop (if used then i + 2 else i + 1) as s'
       })"
    and end_plain: "\<not> cc 0"
    and rendered_format: "rendered acc s \<Longrightarrow> cstr (mem_of s) fmt xs"
    and text_ok: "rendered acc s \<Longrightarrow> i + n \<le> length xs \<Longrightarrow> rendered (acc @ map lit (take n (drop i xs))) (emit_text i n s)"
    and conv_ok: "rendered acc s \<Longrightarrow> cc c \<Longrightarrow> arg_ok (c, a) \<Longrightarrow>
      \<exists>s'. conv c (a # as) s = Some (True, as, s') \<and> rendered (acc @ ct c a) s'"
    and conv_other: "rendered acc s \<Longrightarrow> \<not> cc c \<Longrightarrow>
      \<exists>s'. conv c args s = Some (False, args, s') \<and> rendered (acc @ [lit 37]) s'"
begin

lemma drop_step: "drop i xs = x # ys \<Longrightarrow> i < length xs \<and> drop (i + 1) xs = ys"
  by (metis Cons_nth_drop_Suc Suc_eq_plus1 drop_all linorder_not_le list.distinct(1) list.inject)

lemma step_text:
  assumes r: "rendered acc s" and d: "drop i xs = x # ys" "x \<noteq> 37"
    and t: "render lit cc ct (drop i xs) args = Some t" and ok: "\<forall>ca\<in>set (convs cc (drop i xs) args). arg_ok ca"
  obtains n s' t2 where "0 < n" "i + n \<le> length xs" "loop i args s = loop (i + n) args s'"
    "rendered (acc @ map lit (take n (drop i xs))) s'" "t = map lit (take n (drop i xs)) @ t2"
    "render lit cc ct (drop (i + n) xs) args = Some t2" "\<forall>ca\<in>set (convs cc (drop (i + n) xs) args). arg_ok ca"
proof -
  define ts where "ts = takeWhile (\<lambda>x. x \<noteq> 37) (drop i xs)"
  have lt: "i < length xs" using drop_step[OF d(1)] by simp
  have f: "cstr (mem_of s) (fmt + i) (drop i xs)" using cstr_drop[OF rendered_format[OF r]] lt by simp
  have ts: "take (length ts) (drop i xs) = ts" unfolding ts_def by (metis takeWhile_eq_take)
  have n37: "37 \<notin> set ts" unfolding ts_def by (auto dest: set_takeWhileD)
  have pos: "0 < length ts" using d by (simp add: ts_def)
  have le: "i + length ts \<le> length xs" using length_takeWhile_le[of "\<lambda>x. x \<noteq> 37" "drop i xs"] lt by (simp add: ts_def)
  have sp: "drop i xs = ts @ drop (i + length ts) xs" using append_take_drop_id[of "length ts" "drop i xs"] ts by (simp add: add.commute)
  have l: "loop i args s = loop (i + length ts) args (emit_text i (length ts) s)"
    using f d by (subst loop_eq) (simp add: text_length_ok[OF f] ts_def)
  have "map_option ((@) (map lit ts)) (render lit cc ct (drop (i + length ts) xs) args) = Some t"
    using t render_text[OF n37, of lit cc ct "drop (i + length ts) xs" args] unfolding sp[symmetric] by simp
  then obtain t2 where t2: "render lit cc ct (drop (i + length ts) xs) args = Some t2" "t = map lit ts @ t2" by auto
  have ok2: "\<forall>ca\<in>set (convs cc (drop (i + length ts) xs) args). arg_ok ca"
    using ok convs_text[OF n37, of cc "drop (i + length ts) xs" args] unfolding sp[symmetric] by simp
  show ?thesis
    by (rule that[of "length ts" _ t2]) (use pos le l text_ok[OF r le] t2 ok2 ts in simp_all)
qed

lemma step_conv:
  assumes r: "rendered acc s" and d: "drop i xs = 37 # c # cs" "cc c"
    and t: "render lit cc ct (drop i xs) args = Some t" and ok: "\<forall>ca\<in>set (convs cc (drop i xs) args). arg_ok ca"
  obtains a as s' t2 where "i + 2 \<le> length xs" "loop i args s = loop (i + 2) as s'" "rendered (acc @ ct c a) s'" "t = ct c a @ t2"
    "render lit cc ct (drop (i + 2) xs) as = Some t2" "\<forall>ca\<in>set (convs cc (drop (i + 2) xs) as). arg_ok ca"
proof -
  have f: "cstr (mem_of s) (fmt + i) (37 # c # cs)" using cstr_drop[OF rendered_format[OF r], of i] drop_step[OF d(1)] d(1) by simp
  have le: "i + 2 \<le> length xs" using arg_cong[OF d(1), of length] by simp
  have d2: "drop (i + 2) xs = cs" using drop_step[OF d(1)] drop_step[of "i + 1" c cs] by simp
  obtain a as t2 where as: "args = a # as" "render lit cc ct cs as = Some t2" "t = ct c a @ t2"
    using t d(2) unfolding d(1) by (cases args) auto
  have sa: "arg_ok (c, a)" and ok2: "\<forall>ca\<in>set (convs cc cs as). arg_ok ca" using ok d(2) unfolding d(1) as(1) by auto
  obtain s' where s': "conv c (a # as) s = Some (True, as, s')" "rendered (acc @ ct c a) s'" using conv_ok[OF r d(2) sa] by blast
  have "loop i args s = loop (i + 2) as s'" using f s'(1) as(1) by (subst loop_eq) (simp add: add.assoc)
  then show ?thesis using that le s'(2) as(2,3) ok2 d2 by blast
qed

lemma step_percent:
  assumes r: "rendered acc s" and d: "drop i xs = 37 # ys" "\<not> (ys \<noteq> [] \<and> cc (hd ys))"
    and t: "render lit cc ct (drop i xs) args = Some t" and ok: "\<forall>ca\<in>set (convs cc (drop i xs) args). arg_ok ca"
  obtains s' t2 where "i + 1 \<le> length xs" "loop i args s = loop (i + 1) args s'" "rendered (acc @ [lit 37]) s'" "t = lit 37 # t2"
    "render lit cc ct (drop (i + 1) xs) args = Some t2" "\<forall>ca\<in>set (convs cc (drop (i + 1) xs) args). arg_ok ca"
proof -
  have f: "cstr (mem_of s) (fmt + i) (37 # ys)" using cstr_drop[OF rendered_format[OF r], of i] drop_step[OF d(1)] d(1) by simp
  have le: "i + 1 \<le> length xs" and d1: "drop (i + 1) xs = ys" using drop_step[OF d(1)] by simp_all
  have c: "\<not> cc (mem_of s (fmt + (i + 1)))" using f d(2) end_plain by (cases ys) (auto simp: add.assoc)
  obtain s' where s': "conv (mem_of s (fmt + (i + 1))) args s = Some (False, args, s')" "rendered (acc @ [lit 37]) s'"
    using conv_other[OF r c] by blast
  have l: "loop i args s = loop (i + 1) args s'" using f s'(1) by (subst loop_eq) simp
  obtain t2 where t2: "render lit cc ct ys args = Some t2" "t = lit 37 # t2"
    using t unfolding d(1) render_plain[where cc = cc, OF d(2)] by auto
  have ok2: "\<forall>ca\<in>set (convs cc ys args). arg_ok ca" using ok unfolding d(1) convs_plain[where cc = cc, OF d(2)] .
  show ?thesis using that[OF le l s'(2) t2(2)] t2(1) ok2 d1 by blast
qed

lemma loop_renders:
  "\<lbrakk>i \<le> length xs; rendered acc s; render lit cc ct (drop i xs) args = Some t; \<forall>ca\<in>set (convs cc (drop i xs) args). arg_ok ca\<rbrakk> \<Longrightarrow>
   \<exists>s'. loop i args s = Some s' \<and> rendered (acc @ t) s'"
proof (induction "length xs - i" arbitrary: i args t acc s rule: less_induct)
  case less
  note r = less.prems(2) and t = less.prems(3) and ok = less.prems(4)
  show ?case
  proof (cases "drop i xs")
    case Nil
    have "cstr (mem_of s) (fmt + i) (drop i xs)" using cstr_drop[OF rendered_format[OF r] less.prems(1)] .
    then show ?thesis using r t Nil by (subst loop_eq) simp
  next
    case (Cons x ys)
    consider "x \<noteq> 37" | c cs where "x = 37" "ys = c # cs" "cc c" | "x = 37" "\<not> (ys \<noteq> [] \<and> cc (hd ys))"
      by (cases ys) auto
    then show ?thesis
    proof cases
      case 1
      obtain n s' t2 where q: "0 < n" "i + n \<le> length xs" "loop i args s = loop (i + n) args s'"
        "rendered (acc @ map lit (take n (drop i xs))) s'" "t = map lit (take n (drop i xs)) @ t2"
        "render lit cc ct (drop (i + n) xs) args = Some t2" "\<forall>ca\<in>set (convs cc (drop (i + n) xs) args). arg_ok ca"
        by (rule step_text[OF r Cons 1 t ok])
      have "length xs - (i + n) < length xs - i" using q(1,2) by linarith
      from less.hyps[OF this q(2,4,6,7)] show ?thesis unfolding q(3,5) by simp
    next
      case (2 c cs)
      then have d: "drop i xs = 37 # c # cs" using Cons by simp
      obtain a as s' t2 where q: "i + 2 \<le> length xs" "loop i args s = loop (i + 2) as s'" "rendered (acc @ ct c a) s'"
        "t = ct c a @ t2" "render lit cc ct (drop (i + 2) xs) as = Some t2" "\<forall>ca\<in>set (convs cc (drop (i + 2) xs) as). arg_ok ca"
        by (rule step_conv[OF r d 2(3) t ok])
      have "length xs - (i + 2) < length xs - i" using q(1) by linarith
      from less.hyps[OF this q(1,3,5,6)] show ?thesis unfolding q(2,4) by simp
    next
      case 3
      then have d: "drop i xs = 37 # ys" using Cons by simp
      obtain s' t2 where q: "i + 1 \<le> length xs" "loop i args s = loop (i + 1) args s'" "rendered (acc @ [lit 37]) s'"
        "t = lit 37 # t2" "render lit cc ct (drop (i + 1) xs) args = Some t2" "\<forall>ca\<in>set (convs cc (drop (i + 1) xs) args). arg_ok ca"
        by (rule step_percent[OF r d 3(2) t ok])
      have "length xs - (i + 1) < length xs - i" using q(1) by linarith
      from less.hyps[OF this q(1,3,5,6)] show ?thesis unfolding q(2,4) by simp
    qed
  qed
qed

end

section \<open>The buffer\<close>

text \<open>After rendering \<open>acc\<close>: as much of it as fits is in the buffer, and nothing else was written.\<close>

definition buffered :: "bytes \<Rightarrow> ptr \<Rightarrow> nat \<Rightarrow> u8 list \<Rightarrow> nat \<Rightarrow> bytes \<Rightarrow> bool" where
  "buffered m0 out maxsize acc pos m \<longleftrightarrow>
     pos = min (length acc) (maxsize - 1) \<and> region m out pos = take pos acc \<and>
     (\<forall>a. a < out \<or> out + maxsize \<le> a \<longrightarrow> m a = m0 a)"

definition off_buffer :: "ptr \<Rightarrow> nat \<Rightarrow> ptr \<Rightarrow> nat \<Rightarrow> bool" where
  "off_buffer out maxsize p n \<longleftrightarrow> p + n < out \<or> out + maxsize \<le> p"

lemma region_snoc: "region m p (Suc n) = region m p n @ [m (p + n)]"
  by (simp add: region_def)

lemma region_upd_end: "region (m(p + n := x)) p n = region m p n"
  by (auto simp: region_def)

lemma buffered_push:
  assumes b: "buffered m0 out maxsize acc pos m" and room: "pos + 1 < maxsize"
  shows "buffered m0 out maxsize (acc @ [x]) (pos + 1) (m(out + pos := x))"
proof -
  have pos: "pos = length acc" using b room by (auto simp: buffered_def)
  have "region m out pos = take pos acc" using b unfolding buffered_def by blast
  then have "region (m(out + pos := x)) out (pos + 1) = acc @ [x]"
    using pos by (simp add: region_snoc region_upd_end)
  then show ?thesis using b room pos by (auto simp: buffered_def)
qed

lemma buffered_full:
  assumes b: "buffered m0 out maxsize acc pos m" and full: "\<not> pos + 1 < maxsize"
  shows "buffered m0 out maxsize (acc @ ys) pos m"
proof -
  have "pos = maxsize - 1" "pos \<le> length acc" using b full by (auto simp: buffered_def)
  then show ?thesis using b by (auto simp: buffered_def)
qed

lemma sprint_data_buffered:
  assumes "buffered m0 out maxsize (acc @ take i ys) pos m" "i \<le> length ys"
    and src: "\<And>m' j. (\<forall>a. a < out \<or> out + maxsize \<le> a \<longrightarrow> m' a = m0 a) \<Longrightarrow> j < length ys \<Longrightarrow> src m' j = ys ! j"
  shows "case sprint_data out pos src (length ys) maxsize i m of (p, m') \<Rightarrow> buffered m0 out maxsize (acc @ ys) p m'"
  using assms(1,2)
proof (induction "length ys - i" arbitrary: i pos m)
  case 0
  then show ?case by (subst sprint_data.simps) simp
next
  case (Suc d)
  then have i: "i < length ys" by simp
  note b = Suc.prems(1)
  show ?case
  proof (cases "pos + 1 < maxsize")
    case False
    from buffered_full[OF b False, of "drop i ys"] show ?thesis
      using False by (subst sprint_data.simps) simp
  next
    case True
    have x: "src m i = ys ! i" using src[of m i] b i by (auto simp: buffered_def)
    have "acc @ take (i + 1) ys = (acc @ take i ys) @ [ys ! i]" using i by (simp add: take_Suc_conv_app_nth)
    then have "buffered m0 out maxsize (acc @ take (i + 1) ys) (pos + 1) (m(out + pos := src m i))"
      using buffered_push[OF b True] x by simp
    then show ?thesis
      using Suc.hyps(1)[of "i + 1"] Suc.hyps(2) i True by (subst sprint_data.simps) simp
  qed
qed

definition off_same :: "ptr \<Rightarrow> nat \<Rightarrow> bytes \<Rightarrow> bytes \<Rightarrow> bool" where
  "off_same out maxsize m0 m \<longleftrightarrow> (\<forall>a. a < out \<or> out + maxsize \<le> a \<longrightarrow> m a = m0 a)"

lemma sprint_data_0:
  assumes b: "buffered m0 out maxsize acc pos m"
    and src: "\<And>m' j. off_same out maxsize m0 m' \<Longrightarrow> j < length ys \<Longrightarrow> src m' j = ys ! j"
  shows "\<exists>p m'. sprint_data out pos src (length ys) maxsize 0 m = (p, m') \<and> buffered m0 out maxsize (acc @ ys) p m'"
proof -
  have "case sprint_data out pos src (length ys) maxsize 0 m of (p, m') \<Rightarrow> buffered m0 out maxsize (acc @ ys) p m'"
    by (rule sprint_data_buffered) (use b src in \<open>simp_all add: off_same_def\<close>)
  then show ?thesis by (auto split: prod.splits)
qed

lemma int_to_string_total: "2 \<le> base \<Longrightarrow> \<exists>n s. int_to_string val base raw isSigned = Some (n, s)"
  using int_digits_ok[of base] unfolding int_to_string_def Let_def by (metis (no_types, lifting) bind.bind_lunit)

lemma print_number_ok:
  assumes b: "buffered m0 out maxsize acc pos m" and base: "2 \<le> base"
  shows "\<exists>p m'. print_number out maxsize pos prefix nbr base isSigned raw m = Some (p, m') \<and>
    buffered m0 out maxsize (acc @ prefix @ number_text raw nbr base isSigned) p m'"
proof -
  obtain n s where i: "int_to_string nbr base raw isSigned = Some (n, s)" using int_to_string_total[OF base] by blast
  obtain p1 m1 where p1: "sprint_data out pos (\<lambda>_ i. prefix ! i) (length prefix) maxsize 0 m = (p1, m1)"
    and b1: "buffered m0 out maxsize (acc @ prefix) p1 m1"
    using sprint_data_0[OF b, of prefix "\<lambda>_ i. prefix ! i"] by blast
  obtain p2 m2 where p2: "sprint_data out p1 (\<lambda>_. s) n maxsize 0 m1 = (p2, m2)"
    and "buffered m0 out maxsize ((acc @ prefix) @ map s [0..<n]) p2 m2"
    using sprint_data_0[OF b1, of "map s [0..<n]" "\<lambda>_. s"] by auto
  then show ?thesis using i p1 by (simp add: print_number_def number_text_def)
qed

lemma sprint_char:
  assumes "buffered m0 out maxsize acc pos m"
  shows "\<exists>p m'. sprint_data out pos (\<lambda>_ _. x) 1 maxsize 0 m = (p, m') \<and> buffered m0 out maxsize (acc @ [x]) p m'"
  using sprint_data_0[OF assms, of "[x]" "\<lambda>_ _. x"] by simp

lemma off_cstr:
  assumes "cstr m0 p xs" "off_buffer out maxsize p (length xs)" "off_same out maxsize m0 m"
  shows "cstr m p xs"
  using assms by (intro cstr_cong[OF assms(1)]) (auto simp: off_buffer_def off_same_def)

lemma buffered_off: "buffered m0 out maxsize acc pos m \<Longrightarrow> off_same out maxsize m0 m"
  by (simp add: buffered_def off_same_def)

lemma string_at_cstr: "cstr m p xs \<Longrightarrow> string_at m p = xs"
  by (simp add: string_at_def strlen_ok) (simp add: cstr_def)

lemma sprint_string:
  assumes b: "buffered m0 out maxsize acc pos m" and s: "cstr m0 p ys" "off_buffer out maxsize p (length ys)"
  shows "\<exists>q m'. sprint_data out pos (\<lambda>m i. m (p + i)) (length ys) maxsize 0 m = (q, m') \<and>
    buffered m0 out maxsize (acc @ ys) q m'"
proof -
  have "m' (p + j) = ys ! j" if "off_same out maxsize m0 m'" "j < length ys" for m' j
    using off_cstr[OF s that(1)] that(2) by (rule cstr_nth)
  then show ?thesis by (intro sprint_data_0[OF b, of ys "\<lambda>m i. m (p + i)"]) simp
qed

definition string_arg_ok :: "bytes \<Rightarrow> ptr \<Rightarrow> nat \<Rightarrow> u8 \<times> u64 \<Rightarrow> bool" where
  "string_arg_ok m out maxsize ca \<longleftrightarrow>
     (fst ca = 115 \<longrightarrow> (\<exists>ys. cstr m (unat (snd ca)) ys \<and> off_buffer out maxsize (unat (snd ca)) (length ys)))"

lemma print_conv_ok:
  assumes b: "buffered m0 out maxsize acc pos m" and c: "conv_char c" and s: "string_arg_ok m0 out maxsize (c, a)"
  shows "\<exists>p m'. print_conv out maxsize raw c pos (a # as) m = Some (True, p, as, m') \<and>
    buffered m0 out maxsize (acc @ conv_text raw m0 c a) p m'"
proof (cases "c = 115")
  case True
  then obtain ys where ys: "cstr m0 (unat a) ys" "off_buffer out maxsize (unat a) (length ys)"
    using s by (auto simp: string_arg_ok_def)
  have "strlen (unat a) m = Some (length ys)"
    using buffered_off[OF b] by (intro strlen_ok off_cstr[OF ys])
  then show ?thesis
    using sprint_string[OF b ys] True
    by (auto simp: print_conv_def va_arg_def conv_text_def string_at_cstr[OF ys(1)])
next
  case False
  note n = print_number_ok[OF b, of 2 "[98]" a False raw] print_number_ok[OF b, of 10 "[]" "scast (ucast a :: u32)" True raw]
    print_number_ok[OF b, of 10 "[]" a True raw] print_number_ok[OF b, of 10 "[]" a False raw]
    print_number_ok[OF b, of 16 "[120]" a False raw]
  have k: "c = 98 \<or> c = 100 \<or> c = 108 \<or> c = 117 \<or> c = 120 \<or> c = 112 \<or> c = 99" using c False by (auto simp: conv_char_def)
  show ?thesis
    using k n sprint_char[OF b, of "ucast a"]
    by (elim disjE) (auto simp: print_conv_def va_arg_def conv_text_def)
qed

lemma print_conv_other:
  assumes b: "buffered m0 out maxsize acc pos m" and c: "\<not> conv_char c"
  shows "\<exists>p m'. print_conv out maxsize raw c pos args m = Some (False, p, args, m') \<and>
    buffered m0 out maxsize (acc @ [37]) p m'"
  using sprint_char[OF b, of 37] c by (auto simp: print_conv_def conv_char_def)

text \<open>The loop of \<open>ksprint\<close>, with the position and the memory as its state.\<close>

definition ks_loop :: "ptr \<Rightarrow> nat \<Rightarrow> ptr \<Rightarrow> (nat \<Rightarrow> u8) \<Rightarrow> nat \<Rightarrow> u64 list \<Rightarrow> nat \<times> bytes \<Rightarrow> (nat \<times> bytes) option" where
  "ks_loop out maxsize format raw i args = (\<lambda>(pos, m). ksprint_loop out maxsize format raw i pos args m)"

definition ks_text :: "ptr \<Rightarrow> nat \<Rightarrow> ptr \<Rightarrow> nat \<Rightarrow> nat \<Rightarrow> nat \<times> bytes \<Rightarrow> nat \<times> bytes" where
  "ks_text out maxsize format i n = (\<lambda>(pos, m). sprint_data out pos (\<lambda>m j. m (format + i + j)) n maxsize 0 m)"

definition ks_conv :: "ptr \<Rightarrow> nat \<Rightarrow> (nat \<Rightarrow> u8) \<Rightarrow> u8 \<Rightarrow> u64 list \<Rightarrow> nat \<times> bytes \<Rightarrow> (bool \<times> u64 list \<times> nat \<times> bytes) option" where
  "ks_conv out maxsize raw c args = (\<lambda>(pos, m). do { (used, p, as, m') \<leftarrow> print_conv out maxsize raw c pos args m; Some (used, as, p, m') })"

definition ks_rendered :: "bytes \<Rightarrow> ptr \<Rightarrow> nat \<Rightarrow> ptr \<Rightarrow> u8 list \<Rightarrow> u8 list \<Rightarrow> nat \<times> bytes \<Rightarrow> bool" where
  "ks_rendered m0 out maxsize format xs acc = (\<lambda>(pos, m).
     cstr m0 format xs \<and> off_buffer out maxsize format (length xs) \<and> buffered m0 out maxsize acc pos m)"

lemma ks_text_ok:
  assumes r: "ks_rendered m0 out maxsize format xs acc s" and le: "i + n \<le> length xs"
  shows "ks_rendered m0 out maxsize format xs (acc @ take n (drop i xs)) (ks_text out maxsize format i n s)"
proof -
  obtain pos m where s: "s = (pos, m)" by (cases s)
  have f: "cstr m0 format xs" "off_buffer out maxsize format (length xs)" and b: "buffered m0 out maxsize acc pos m"
    using r by (simp_all add: ks_rendered_def s)
  have src: "m' (format + i + j) = take n (drop i xs) ! j" if "off_same out maxsize m0 m'" "j < length (take n (drop i xs))" for m' j
    using cstr_nth[OF off_cstr[OF f that(1)], of "i + j"] that(2) le by (simp add: add.assoc)
  have n: "length (take n (drop i xs)) = n" using le by simp
  have "\<exists>p m'. sprint_data out pos (\<lambda>m j. m (format + i + j)) (length (take n (drop i xs))) maxsize 0 m = (p, m') \<and>
      buffered m0 out maxsize (acc @ take n (drop i xs)) p m'"
    by (rule sprint_data_0[OF b]) (rule src)
  then show ?thesis using f unfolding n by (auto simp: ks_rendered_def ks_text_def s)
qed

interpretation ks: format_loop "ks_loop out maxsize format raw" snd "ks_text out maxsize format" "ks_conv out maxsize raw"
    format xs "\<lambda>x. x" conv_char "conv_text raw m0" "string_arg_ok m0 out maxsize" "ks_rendered m0 out maxsize format xs"
  for out maxsize format raw m0 xs
proof (unfold_locales, goal_cases)
  case (1 i args s)
  then show ?case
    unfolding ks_loop_def case_prod_beta
    by (subst ksprint_loop.simps) (simp add: ks_text_def ks_conv_def Let_def case_prod_beta' split: Option.bind_splits)
next
  case 2
  then show ?case by (simp add: conv_char_def)
next
  case (3 acc s)
  then show ?case using off_cstr buffered_off by (auto simp: ks_rendered_def)
next
  case (4 acc s i n)
  then show ?case using ks_text_ok by simp
next
  case (5 acc s c a as)
  then show ?case using print_conv_ok[of m0 out maxsize acc "fst s" "snd s" c a raw as] by (auto simp: ks_rendered_def ks_conv_def)
next
  case (6 acc s c args)
  then show ?case using print_conv_other[of m0 out maxsize acc "fst s" "snd s" c raw args] by (auto simp: ks_rendered_def ks_conv_def)
qed

section \<open>The text of a number\<close>

lemma fold_write:
  "fold (\<lambda>i s. s(k + i := b ! i)) [0..<n] s a = (if k \<le> a \<and> a < k + n then b ! (a - k) else (s a :: u8))"
proof (induction n arbitrary: a)
  case (Suc n)
  define F where "F = fold (\<lambda>i s. s(k + i := b ! i)) [0..<n] s"
  have "fold (\<lambda>i s. s(k + i := b ! i)) [0..<Suc n] s = F(k + n := b ! n)" by (simp add: F_def)
  then have "fold (\<lambda>i s. s(k + i := b ! i)) [0..<Suc n] s a = (if a = k + n then b ! n else F a)"
    by (metis fun_upd_apply)
  also have "\<dots> = (if k \<le> a \<and> a < k + Suc n then b ! (a - k) else s a)" using Suc[folded F_def] by auto
  finally show ?case .
qed auto

lemma fold_write_fun:
  "fold (\<lambda>i s. s(k + i := b ! i)) [0..<n] s = (\<lambda>a. if k \<le> a \<and> a < k + n then b ! (a - k) else (s a :: u8))"
  by (rule ext) (rule fold_write)

lemma number_text_plain:
  assumes d: "int_digits base (unat val) = Some ds" and plain: "\<not> (isSigned \<and> unat val > INT_MAX)"
  shows "number_text raw val base isSigned = (if val = 0 then [48] else rev ds)"
proof (cases "val = 0")
  case True
  then have "ds = []" using d by (simp add: int_digits.simps)
  then show ?thesis using True d plain by (simp add: number_text_def int_to_string_def Let_def)
next
  case False
  have "int_to_string val base raw isSigned = Some (length ds,
      (\<lambda>a. if a < length ds then rev ds ! a else raw a)(length ds := 0))"
    using False d plain unfolding int_to_string_def Let_def fold_write_fun by auto
  then show ?thesis
    using False unfolding number_text_def by (auto intro!: nth_equalityI)
qed

lemma number_text_neg:
  assumes d: "int_digits base (unat (scast (- (ucast val :: u32)) :: u64)) = Some ds" and ne: "ds \<noteq> []"
    and big: "unat val > INT_MAX"
  shows "number_text raw val base True = 45 # rev ds"
proof -
  define v where "v = (scast (- (ucast val :: u32)) :: u64)"
  note d = d[folded v_def]
  have nz: "v \<noteq> 0" using d ne by (auto simp: int_digits.simps)
  have c: "(True \<and> unat val > INT_MAX) = True" using big by simp
  have "int_to_string val base raw True = Some (1 + length ds,
      (\<lambda>a. if 1 \<le> a \<and> a < 1 + length ds then rev ds ! (a - 1) else (raw(0 := 45)) a)(1 + length ds := 0))"
    using nz d unfolding int_to_string_def Let_def fold_write_fun c if_True v_def[symmetric] by simp
  then have "number_text raw val base True = map (\<lambda>a. if 1 \<le> a then rev ds ! (a - 1) else 45) [0..<1 + length ds]"
    unfolding number_text_def by (simp del: upt_Suc)
  also have "\<dots> = 45 # rev ds"
  proof (rule nth_equalityI)
    fix i assume "i < length (map (\<lambda>a. if 1 \<le> a then rev ds ! (a - 1) else 45) [0..<1 + length ds])"
    then show "map (\<lambda>a. if 1 \<le> a then rev ds ! (a - 1) else 45) [0..<1 + length ds] ! i = (45 # rev ds) ! i"
      by (cases i) (simp_all del: upt_Suc)
  qed simp
  finally show ?thesis .
qed

lemma digit_chars_dec: "n < 10 \<Longrightarrow> digit (digit_chars ! n)"
proof -
  have "\<forall>c\<in>set (take 10 digit_chars). digit c" by (simp add: digit_chars_def digit_def)
  moreover assume n: "n < 10"
  have "length (take 10 digit_chars) = 10" by (simp add: digit_chars_def)
  then have "take 10 digit_chars ! n \<in> set (take 10 digit_chars)" using n by (intro nth_mem) simp
  then have "digit_chars ! n \<in> set (take 10 digit_chars)" using n by simp
  ultimately show ?thesis by blast
qed

lemma int_digits_dec: "int_digits 10 val = Some ds \<Longrightarrow> \<forall>c\<in>set ds. digit c"
proof (induction val arbitrary: ds rule: less_induct)
  case (less val)
  show ?case
  proof (cases "val = 0")
    case True
    then show ?thesis using less.prems by (simp add: int_digits.simps)
  next
    case False
    obtain es where es: "int_digits 10 (val div 10) = Some es" using int_digits_ok[of 10] by auto
    have "ds = digit_chars ! (val mod 10) # es" using less.prems False es by (subst (asm) int_digits.simps) simp
    then show ?thesis using less.IH[OF _ es] False digit_chars_dec[of "val mod 10"] by simp
  qed
qed

lemma int_digits_dec_value:
  assumes "int_digits 10 val = Some ds"
  shows "dec_value (rev ds) = val"
proof -
  have "digit_of c = unat c - 48" if "digit c" for c
    using that by (auto simp: digit_def digit_of_def word_le_nat_alt)
  then have "foldr (\<lambda>c v. v * 10 + (unat c - 48)) ds 0 = foldr (\<lambda>c v. v * 10 + digit_of c) ds 0"
    using int_digits_dec[OF assms] by (intro foldr_cong) auto
  also have "\<dots> = val" using int_digits_value[OF _ _ assms] by simp
  finally show ?thesis by (simp add: dec_value_def foldl_conv_foldr)
qed

lemma sint_bounds: "- (2 ^ 31) \<le> sint (n :: u32)" "sint n < 2 ^ 31"
  using sint_ge[of n] sint_lt[of n] by simp_all

lemma sint_minus: "sint (n :: u32) \<noteq> - (2 ^ 31) \<Longrightarrow> sint (- n) = - sint n"
proof -
  assume ne: "sint n \<noteq> - (2 ^ 31)"
  have e: "- n = word_of_int (- sint n)" by simp
  have "- (2 ^ 31) \<le> - sint n" using sint_bounds(2)[of n] by linarith
  moreover have "- sint n < 2 ^ 31" using sint_bounds(1)[of n] ne by linarith
  ultimately show ?thesis unfolding e by (rule sint_small)
qed

lemma uint_extend: "uint (scast (n :: u32) :: u64) = sint n mod 2 ^ 64"
  unfolding scast_eq uint_word_of_int by simp

lemma unat_extend: "unat (scast (n :: u32) :: u64) = nat (sint n mod 2 ^ 64)"
  using uint_extend[of n] by (metis nat_uint_eq)

lemma extend_low: "(ucast (scast (n :: u32) :: u64) :: u32) = n"
  by (rule bit_word_eqI) (simp add: bit_simps)

lemma int_digits_length:
  assumes "int_digits 10 val = Some ds" "val < 10 ^ k"
  shows "length ds \<le> k"
  using assms
proof (induction k arbitrary: val ds)
  case 0
  then show ?case by (simp add: int_digits.simps)
next
  case (Suc k)
  show ?case
  proof (cases "val = 0")
    case True
    then show ?thesis using Suc.prems(1) by (simp add: int_digits.simps)
  next
    case False
    obtain es where es: "int_digits 10 (val div 10) = Some es" using int_digits_ok[of 10] by auto
    have "ds = digit_chars ! (val mod 10) # es" using Suc.prems(1) False es by (subst (asm) int_digits.simps) simp
    moreover have "val div 10 < 10 ^ k" using Suc.prems(2) by (simp add: less_mult_imp_div_less mult.commute)
    ultimately show ?thesis using Suc.IH[OF es] by simp
  qed
qed

lemma number_text_nonneg:
  fixes n :: u32
  assumes pos: "0 \<le> sint n"
  shows "\<exists>xs. number_text raw (scast n) 10 True = xs \<and> length xs \<le> 10 \<and> (\<forall>c\<in>set xs. digit c) \<and> int (dec_value xs) = sint n"
proof -
  have "sint n mod 2 ^ 64 = sint n" using pos sint_bounds(2)[of n] by (intro mod_pos_pos_trivial) simp_all
  then have un: "unat (scast n :: u64) = nat (sint n)" using unat_extend[of n] by simp
  then have small: "\<not> unat (scast n :: u64) > INT_MAX" using sint_bounds(2)[of n] by (simp add: INT_MAX_def)
  obtain ds where ds: "int_digits 10 (unat (scast n :: u64)) = Some ds" using int_digits_ok[of 10] by auto
  have t: "number_text raw (scast n) 10 True = (if (scast n :: u64) = 0 then [48] else rev ds)"
    using number_text_plain[OF ds, of True raw] small by simp
  show ?thesis
  proof (cases "(scast n :: u64) = 0")
    case True
    then have "unat (scast n :: u64) = 0" by simp
    then have "sint n = 0" using un pos by simp
    then show ?thesis using t True by (simp add: digit_def dec_value_def)
  next
    case False
    have "int (dec_value (rev ds)) = sint n" using int_digits_dec_value[OF ds] un pos by simp
    moreover have "length (rev ds) \<le> 10" using int_digits_length[OF ds, of 10] sint_bounds(2)[of n] un by simp
    ultimately show ?thesis using t False int_digits_dec[OF ds] by simp
  qed
qed

lemma number_text_negative:
  fixes n :: u32
  assumes neg: "sint n < 0" and ne: "sint n \<noteq> - (2 ^ 31)"
  shows "\<exists>xs. number_text raw (scast n) 10 True = 45 # xs \<and> length xs \<le> 10 \<and> (\<forall>c\<in>set xs. digit c) \<and> int (dec_value xs) = - sint n"
proof -
  have "sint n mod 2 ^ 64 = (sint n + 2 ^ 64) mod 2 ^ 64" by simp
  also have "\<dots> = sint n + 2 ^ 64" using neg sint_bounds(1)[of n] by (intro mod_pos_pos_trivial) simp_all
  finally have "unat (scast n :: u64) = nat (sint n + 2 ^ 64)" using unat_extend[of n] by simp
  then have big: "unat (scast n :: u64) > INT_MAX" using sint_bounds(1)[of n] by (simp add: INT_MAX_def)
  have m: "sint (- n) = - sint n" by (rule sint_minus[OF ne])
  have "sint (- n) mod 2 ^ 64 = - sint n" unfolding m using neg sint_bounds(1)[of n] by (intro mod_pos_pos_trivial) simp_all
  then have un: "unat (scast (- n) :: u64) = nat (- sint n)" using unat_extend[of "- n"] by simp
  obtain ds where ds: "int_digits 10 (unat (scast (- n) :: u64)) = Some ds" and nz: "(unat (scast (- n) :: u64) = 0) = (ds = [])"
    using int_digits_ok[of 10 "unat (scast (- n) :: u64)"] by auto
  have "unat (scast (- n) :: u64) \<noteq> 0" unfolding un using neg by simp
  then have ne': "ds \<noteq> []" using nz by blast
  have "int_digits 10 (unat (scast (- (ucast (scast n :: u64) :: u32)) :: u64)) = Some ds" unfolding extend_low by (rule ds)
  from number_text_neg[OF this ne' big] have t: "number_text raw (scast n) 10 True = 45 # rev ds" .
  have "int (dec_value (rev ds)) = - sint n" unfolding int_digits_dec_value[OF ds] un using neg by linarith
  moreover have "length (rev ds) \<le> 10" using int_digits_length[OF ds, of 10] sint_bounds(1)[of n] un by simp
  ultimately show ?thesis using t int_digits_dec[OF ds] by simp
qed

lemma int_text_atoi:
  assumes ne: "sint (n :: u32) \<noteq> - (2 ^ 31)"
  shows "length (number_text raw (scast n) 10 True) \<le> 11"
    and "cstr m p (number_text raw (scast n) 10 True) \<Longrightarrow> atoi p m = Some (sint n)"
    and "0 \<notin> set (number_text raw (scast n) 10 True)"
proof -
  have "length (number_text raw (scast n) 10 True) \<le> 11 \<and>
    (cstr m p (number_text raw (scast n) 10 True) \<longrightarrow> atoi p m = Some (sint n)) \<and>
    0 \<notin> set (number_text raw (scast n) 10 True)"
  proof (cases "0 \<le> sint n")
    case True
    then obtain xs where x: "number_text raw (scast n) 10 True = xs" "length xs \<le> 10" "\<forall>c\<in>set xs. digit c"
        "int (dec_value xs) = sint n"
      using number_text_nonneg[of n raw] by blast
    moreover have "dec_value xs < 2 ^ 31" using sint_bounds(2)[of n] unfolding x(4)[symmetric] by simp
    ultimately show ?thesis using atoi_digits[of m p xs] by (auto simp: digit_def)
  next
    case False
    then have "sint n < 0" by simp
    then obtain xs where x: "number_text raw (scast n) 10 True = 45 # xs" "length xs \<le> 10" "\<forall>c\<in>set xs. digit c"
        "int (dec_value xs) = - sint n"
      using number_text_negative[OF _ ne, of raw] by blast
    moreover have "int (dec_value xs) \<le> 2 ^ 31" unfolding x(4) using sint_bounds(1)[of n] by simp
    then have "dec_value xs \<le> 2 ^ 31" by simp
    ultimately show ?thesis using atoi_negative[of m p xs] by (auto simp: digit_def)
  qed
  then show "length (number_text raw (scast n) 10 True) \<le> 11"
    and "cstr m p (number_text raw (scast n) 10 True) \<Longrightarrow> atoi p m = Some (sint n)"
    and "0 \<notin> set (number_text raw (scast n) 10 True)"
    by blast+
qed

abbreviation ks_render :: "(nat \<Rightarrow> u8) \<Rightarrow> bytes \<Rightarrow> u8 list \<Rightarrow> u64 list \<Rightarrow> u8 list option" where
  "ks_render raw m \<equiv> render (\<lambda>x. x) conv_char (conv_text raw m)"

lemma ksprint_ok:
  assumes "0 < maxsize" and "cstr m format xs" "off_buffer out maxsize format (length xs)"
    and "ks_render tmp_str m xs args = Some s" and "\<forall>ca\<in>set (convs conv_char xs args). string_arg_ok m out maxsize ca"
  shows "\<exists>n m'. ksprint out maxsize format args tmp_str m = Some (n, m') \<and> n = min (length s) (maxsize - 1) \<and>
    region m' out n = take n s \<and> m' (out + n) = 0 \<and> (\<forall>a. a < out \<or> out + maxsize \<le> a \<longrightarrow> m' a = m a)"
proof -
  have b: "buffered m out maxsize [] 0 m" using assms(1) by (simp add: buffered_def region_def)
  obtain n m' where l: "ksprint_loop out maxsize format tmp_str 0 0 args m = Some (n, m')"
    and n: "buffered m out maxsize s n m'"
    using ks.loop_renders[of 0 xs m out maxsize format "[]" "(0, m)" tmp_str args s] assms(2-5) b
    by (auto simp: ks_rendered_def ks_loop_def)
  have "n < maxsize" using n assms(1) by (auto simp: buffered_def)
  then show ?thesis
    using l n assms(1) by (auto simp: ksprint_def buffered_def region_upd_end intro!: exI[of _ "m'(out + n := 0)"])
qed

section \<open>printf renders the format\<close>

text \<open>The text of a conversion, with whether a character counts as written: the prefixes do not.\<close>

definition pf_char :: "u8 \<Rightarrow> bool" where
  "pf_char c \<longleftrightarrow> conv_char c \<and> c \<noteq> 108"

definition counted :: "u8 \<Rightarrow> u8 \<times> bool" where
  "counted x = (x, True)"

definition pf_text :: "(nat \<Rightarrow> u8) \<Rightarrow> bytes \<Rightarrow> u8 \<Rightarrow> u64 \<Rightarrow> (u8 \<times> bool) list" where
  "pf_text raw m c a =
     (if c = 98 then (98, False) # map counted (number_text raw a 2 False)
      else if c = 100 then map counted (number_text raw a 10 True)
      else if c = 117 then map counted (number_text raw a 10 False)
      else if c = 120 \<or> c = 112 then (120, False) # map counted (number_text raw a 16 False)
      else if c = 99 then [counted (ucast a)]
      else map counted (string_at m (unat a)))"

definition pf_rendered :: "bytes \<Rightarrow> ptr \<Rightarrow> u8 list \<Rightarrow> u8 list \<Rightarrow> (u8 \<times> bool) list \<Rightarrow> u32 \<times> u8 list \<Rightarrow> bool" where
  "pf_rendered m format xs out0 acc s \<longleftrightarrow> cstr m format xs \<and>
     (length acc \<le> INT_MAX \<longrightarrow> snd s = out0 @ map fst acc \<and> unat (fst s) = length (filter snd acc))"

definition pf_conv :: "(nat \<Rightarrow> u8) \<Rightarrow> bytes \<Rightarrow> u8 \<Rightarrow> u64 list \<Rightarrow> u32 \<times> u8 list \<Rightarrow> (bool \<times> u64 list \<times> u32 \<times> u8 list) option" where
  "pf_conv str m c args s = do {
     (used, len, as, out') \<leftarrow> printf_conv str (room (fst s)) m c args (snd s);
     Some (used, as, fst s + of_nat len, out') }"

lemma room_small:
  assumes "unat w \<le> INT_MAX"
  shows "room w = INT_MAX - unat w"
proof -
  have "w \<le> 0x7fffffff" using assms by (simp add: word_le_nat_alt INT_MAX_def)
  then have u: "unat (0x7fffffff - w) = INT_MAX - unat w" by (simp add: unat_sub INT_MAX_def)
  have "0x7fffffff - w = word_of_int (int (unat (0x7fffffff - w)))" by simp
  then have "0x7fffffff - w = word_of_int (int (INT_MAX - unat w))" unfolding u .
  then have "sint (0x7fffffff - w) = int (INT_MAX - unat w)" using sint_small[of "int (INT_MAX - unat w)"] by (simp add: INT_MAX_def)
  then show ?thesis by (simp add: room_def unat_extend INT_MAX_def)
qed

lemma pf_emit:
  assumes "pf_rendered m format xs out0 acc s"
    and "out' = print_data ys (room (fst s)) (snd s @ map fst pre)" "\<forall>x\<in>set pre. \<not> snd x"
  shows "pf_rendered m format xs out0 (acc @ pre @ map counted ys) (fst s + of_nat (length ys), out')"
proof -
  have *: "out' = out0 @ map fst (acc @ pre @ map counted ys) \<and> unat (fst s + of_nat (length ys)) = length (filter snd (acc @ pre @ map counted ys))"
    if le: "length (acc @ pre @ map counted ys) \<le> INT_MAX"
  proof -
    have o: "snd s = out0 @ map fst acc" and w: "unat (fst s) = length (filter snd acc)" using assms(1) le by (simp_all add: pf_rendered_def)
    have l: "unat (fst s) + length ys \<le> INT_MAX" using w le length_filter_le[of snd acc] by (simp del: length_filter_le)
    have y: "unat (of_nat (length ys) :: u32) = length ys" using l by (simp add: unat_of_nat INT_MAX_def)
    have "unat (fst s + of_nat (length ys)) = unat (fst s) + length ys"
      using l y by (subst unat_add_lem[THEN iffD1]) (simp_all add: INT_MAX_def)
    moreover have "filter snd pre = []" "map fst (map counted ys) = ys" "filter snd (map counted ys) = map counted ys"
      using assms(3) by (auto simp: filter_empty_conv counted_def comp_def filter_map)
    moreover have "\<not> room (fst s) < length ys" using l room_small[of "fst s"] by simp
    ultimately show ?thesis using o w assms(2) by (simp add: print_data_def print_string_def)
  qed
  then show ?thesis using assms(1) by (simp add: pf_rendered_def)
qed

lemma pf_number:
  assumes r: "pf_rendered m format xs out0 acc s" and base: "2 \<le> base" and pre: "\<forall>x\<in>set pre. \<not> snd x"
  shows "\<exists>n out'. printf_number nbr base isSigned raw (room (fst s)) (snd s @ map fst pre) = Some (n, out') \<and>
    pf_rendered m format xs out0 (acc @ pre @ map counted (number_text raw nbr base isSigned)) (fst s + of_nat n, out')"
proof -
  obtain n t where i: "int_to_string nbr base raw isSigned = Some (n, t)" using int_to_string_total[OF base] by blast
  show ?thesis using i pf_emit[OF r refl pre, of "map t [0..<n]"] by (simp add: printf_number_def number_text_def)
qed

lemma pf_conv_ok:
  assumes r: "pf_rendered m format xs out0 acc s" and c: "pf_char c" and a: "c = 115 \<longrightarrow> (\<exists>ys. cstr m (unat a) ys)"
  shows "\<exists>s'. pf_conv raw m c (a # as) s = Some (True, as, s') \<and> pf_rendered m format xs out0 (acc @ pf_text raw m c a) s'"
proof (cases "c = 115")
  case True
  then obtain ys where ys: "cstr m (unat a) ys" using a by blast
  have "region m (unat a) (length ys) = ys" using ys by (simp add: cstr_def)
  then show ?thesis
    using True strlen_ok[OF ys] string_at_cstr[OF ys] pf_emit[OF r refl, of "[]" ys]
    by (simp add: pf_conv_def printf_conv_def va_arg_def pf_text_def)
next
  case False
  note n = pf_number[OF r, of 2 "[(98, False)]" a False raw] pf_number[OF r, of 10 "[]" a True raw]
    pf_number[OF r, of 10 "[]" a False raw] pf_number[OF r, of 16 "[(120, False)]" a False raw]
  have k: "c = 98 \<or> c = 100 \<or> c = 117 \<or> c = 120 \<or> c = 112 \<or> c = 99" using c False by (auto simp: conv_char_def pf_char_def)
  show ?thesis
    using k n pf_emit[OF r refl, of "[]" "[ucast a]"]
    by (elim disjE) (auto simp: pf_conv_def printf_conv_def va_arg_def pf_text_def putchar_def)
qed

interpretation pf: format_loop "printf_loop format raw m" "\<lambda>_. m"
    "\<lambda>i n s. (fst s + of_nat n, print_data (region m (format + i) n) (room (fst s)) (snd s))" "pf_conv raw m"
    format xs counted pf_char "pf_text raw m" "\<lambda>ca. fst ca = 115 \<longrightarrow> (\<exists>ys. cstr m (unat (snd ca)) ys)" "pf_rendered m format xs out0"
  for format raw m xs out0
proof (unfold_locales, goal_cases)
  case (1 i args s)
  then show ?case
    by (subst printf_loop.simps) (simp add: pf_conv_def Let_def case_prod_beta' split: Option.bind_splits)
next
  case 2
  then show ?case by (simp add: conv_char_def pf_char_def)
next
  case (3 acc s)
  then show ?case by (simp add: pf_rendered_def)
next
  case (4 acc s i n)
  have "cstr m format xs" using 4(1) by (simp add: pf_rendered_def)
  then have "region m (format + i) n = take n (drop i xs)"
    using 4(2) by (intro nth_equalityI) (simp_all add: cstr_iff region_def add.assoc)
  then show ?case using pf_emit[OF 4(1) refl, of "[]" "take n (drop i xs)"] 4(2) by simp
next
  case (5 acc s c a as)
  then show ?case using pf_conv_ok[of m format xs out0 acc s c a raw as] by simp
next
  case (6 acc s c args)
  have "pf_rendered m format xs out0 (acc @ [counted 37]) (fst s + 1, snd s @ [37])"
    using pf_emit[OF 6(1) refl, of "[]" "[37]"] 6(1) by (auto simp: pf_rendered_def counted_def)
  then show ?case using 6(2) by (auto simp: pf_conv_def printf_conv_def pf_char_def conv_char_def print_string_def)
qed

text \<open>The conversions that both routines render alike: there is no \<open>%l\<close> in \<open>printf\<close>, and its \<open>%d\<close> reads a \<open>long\<close>.\<close>

definition same_conv :: "u8 \<times> u64 \<Rightarrow> bool" where
  "same_conv ca \<longleftrightarrow> fst ca \<noteq> 108 \<and> (fst ca = 100 \<longrightarrow> snd ca = scast (ucast (snd ca) :: u32))"

definition prefixed :: "u8 \<Rightarrow> bool" where
  "prefixed c \<longleftrightarrow> c = 98 \<or> c = 120 \<or> c = 112"

lemma pf_text_same: "pf_char c \<Longrightarrow> same_conv (c, a) \<Longrightarrow> map fst (pf_text raw m c a) = conv_text raw m c a"
  by (auto simp: pf_text_def conv_text_def same_conv_def pf_char_def conv_char_def counted_def comp_def)

lemma pf_text_prefix: "length (filter (\<lambda>x. \<not> snd x) (pf_text raw m c a)) = (if prefixed c then 1 else 0)"
  by (auto simp: pf_text_def counted_def prefixed_def filter_empty_conv)

lemma pf_render:
  assumes r: "ks_render raw m xs args = Some s" and same: "\<forall>ca\<in>set (convs conv_char xs args). same_conv ca"
  shows "convs pf_char xs args = convs conv_char xs args"
    and "\<exists>t. render counted pf_char (pf_text raw m) xs args = Some t \<and> map fst t = s \<and>
      length (filter snd t) + length (filter (\<lambda>ca. prefixed (fst ca)) (convs conv_char xs args)) = length s"
proof -
  have pc: "pf_char (fst ca)" if "ca \<in> set (convs conv_char xs args)" for ca
    using that same convs_cc[OF that] by (auto simp: pf_char_def same_conv_def)
  have sub: "\<forall>x. pf_char x \<longrightarrow> conv_char x" by (simp add: pf_char_def)
  show cv: "convs pf_char xs args = convs conv_char xs args" using convs_cong[OF r sub] pc by blast
  have "render (\<lambda>x. x) pf_char (\<lambda>c a. map fst (pf_text raw m c a)) xs args = Some s"
    using pc same by (intro render_cong[OF r sub] ballI conjI) (auto intro!: pf_text_same)
  then have "map_option (map fst) (render counted pf_char (pf_text raw m) xs args) = Some s"
    using render_map[of fst counted pf_char "pf_text raw m" xs args] by (simp add: counted_def)
  then obtain t where t: "render counted pf_char (pf_text raw m) xs args = Some t" "map fst t = s" by auto
  have "length (filter (\<lambda>x. \<not> snd x) t) = length (filter (\<lambda>ca. prefixed (fst ca)) (convs conv_char xs args))"
    unfolding cv[symmetric] by (rule render_count[OF t(1) _ pf_text_prefix]) (simp add: counted_def)
  then show "\<exists>t. render counted pf_char (pf_text raw m) xs args = Some t \<and> map fst t = s \<and>
      length (filter snd t) + length (filter (\<lambda>ca. prefixed (fst ca)) (convs conv_char xs args)) = length s"
    using t sum_length_filter_compl[of snd t] arg_cong[OF t(2), of length] by auto
qed

section \<open>Properties\<close>


text \<open>The format \<open>"a%d"\<close> at 1, and a buffer of 4 bytes at 16.\<close>

definition fmt_ex :: bytes where "fmt_ex = (\<lambda>_. 0)(1 := 97, 2 := 37, 3 := 100)"


text \<open>
  C38. Printing and parsing numbers are inverse: an \<open>int\<close> printed by \<open>ksprint\<close> with \<open>%d\<close> into a buffer
  of at least 12 bytes and read back from there with \<open>atoi\<close> gives the number again, for every
  \<open>int\<close> but the smallest, whose negation overflows.
\<close>

theorem print_atoi_roundtrip:
  assumes "sint (n :: u32) \<noteq> - (2 ^ 31)" and "12 \<le> maxsize"
    and "cstr m format [37, 100]" "off_buffer out maxsize format 2"
  shows "\<exists>len m'. ksprint out maxsize format [scast n] tmp_str m = Some (len, m') \<and> atoi out m' = Some (sint n)"
proof -
  define xs where "xs = number_text tmp_str (scast n) 10 True"
  have cv: "(scast (ucast (scast n :: u64) :: u32) :: u64) = scast n" by (simp add: extend_low)
  have r: "ks_render tmp_str m [37, 100] [scast n] = Some xs"
    using cv by (simp add: conv_char_def conv_text_def xs_def)
  have l: "length xs < maxsize" using int_text_atoi(1)[OF assms(1), of tmp_str] assms(2) by (simp add: xs_def)
  have nz: "0 \<notin> set xs" and at: "\<And>m p. cstr m p xs \<Longrightarrow> atoi p m = Some (sint n)"
    unfolding xs_def by (rule int_text_atoi(3)[OF assms(1)], rule int_text_atoi(2)[OF assms(1)])
  have a: "\<forall>ca\<in>set (convs conv_char [37, 100] [scast n]). string_arg_ok m out maxsize ca"
    by (simp add: conv_char_def string_arg_ok_def)
  obtain len m' where k: "ksprint out maxsize format [scast n] tmp_str m = Some (len, m')"
    and b: "len = length xs" "region m' out len = xs" "m' (out + len) = 0"
    using ksprint_ok[OF _ assms(3) _ r a] assms(2,4) l by (force simp: numeral_2_eq_2[symmetric])
  have "cstr m' out xs" using b nz by (simp add: cstr_def)
  then show ?thesis using k at by blast
qed

theorem print_atoi_roundtrip_witness:
  "\<exists>len m'. ksprint 16 12 1 [scast (- 5 :: u32)] (\<lambda>_. 7) ((\<lambda>_. 0)(1 := 37, 2 := 100)) = Some (len, m') \<and>
    atoi 16 m' = Some (- 5)"
  using print_atoi_roundtrip[of "- 5 :: u32" 12 "(\<lambda>_. 0)(1 := 37, 2 := 100)" 1 16 "\<lambda>_. 7"]
  by (simp add: off_buffer_def)



end
