(* ===== verification/Clock.thy ===== *)
theory Clock
  imports Prelude
begin

text \<open>
  Time in the kernel: the real time clock (\<open>src/kernel/cpu/rtc/rtc.c\<close>), the tick counter of the timer interrupt
  (\<open>src/kernel/cpu/pit/pit.c\<close>) and \<open>src/klib/ktime.c\<close>. The chip is a parameter: what the \<open>k\<close>-th access to a
  register returns. So is the interleaving with the timer interrupt: the state of the counter at the \<open>k\<close>-th
  read of it.
\<close>

unbundle bit_operations_syntax

section \<open>The registers of the clock\<close>

definition RTC_SECOND :: u8 where "RTC_SECOND = 0x00"
definition RTC_MINUTE :: u8 where "RTC_MINUTE = 0x02"
definition RTC_HOUR :: u8 where "RTC_HOUR = 0x04"
definition RTC_DAY :: u8 where "RTC_DAY = 0x07"
definition RTC_MONTH :: u8 where "RTC_MONTH = 0x08"
definition RTC_YEAR :: u8 where "RTC_YEAR = 0x09"
definition RTC_STATUS_A :: u8 where "RTC_STATUS_A = 0x0A"
definition RTC_STATUS_B :: u8 where "RTC_STATUS_B = 0x0B"
definition RTC_UPDATE_IN_PROGRESS :: u8 where "RTC_UPDATE_IN_PROGRESS = 0x80"
definition RTC_24_HOUR :: u8 where "RTC_24_HOUR = 0x02"
definition RTC_BINARY :: u8 where "RTC_BINARY = 0x04"
definition RTC_MAX_WAIT :: nat where "RTC_MAX_WAIT = 1000000"

lemmas rtc_regs = RTC_SECOND_def RTC_MINUTE_def RTC_HOUR_def RTC_DAY_def RTC_MONTH_def RTC_YEAR_def RTC_STATUS_A_def RTC_STATUS_B_def

record rtc_time =
  second :: u8
  minute :: u8
  hour :: u8
  day :: u8
  month :: u8
  year :: u16

type_synonym cmos = "nat \<Rightarrow> u8 \<Rightarrow> u8"

definition rtc_read :: "cmos \<Rightarrow> u8 \<Rightarrow> nat \<Rightarrow> u8 \<times> nat" where
  "rtc_read c reg k = (c k reg, k + 1)"

fun rtc_wait_idle_loop :: "cmos \<Rightarrow> nat \<Rightarrow> nat \<Rightarrow> int \<times> nat" where
  "rtc_wait_idle_loop c 0 k = (- 1, k)"
| "rtc_wait_idle_loop c (Suc n) k =
     (let (a, k1) = rtc_read c RTC_STATUS_A k
      in if a AND RTC_UPDATE_IN_PROGRESS = 0 then (0, k1) else rtc_wait_idle_loop c n k1)"

definition rtc_wait_idle :: "cmos \<Rightarrow> nat \<Rightarrow> int \<times> nat" where
  "rtc_wait_idle c k = rtc_wait_idle_loop c RTC_MAX_WAIT k"

definition rtc_read_raw :: "cmos \<Rightarrow> rtc_time \<Rightarrow> nat \<Rightarrow> int \<times> rtc_time \<times> nat" where
  "rtc_read_raw c t k =
     (let (idle, k0) = rtc_wait_idle c k
      in if idle \<noteq> 0 then (- 1, t, k0)
         else let (s, k1) = rtc_read c RTC_SECOND k0;
                  (mi, k2) = rtc_read c RTC_MINUTE k1;
                  (h, k3) = rtc_read c RTC_HOUR k2;
                  (d, k4) = rtc_read c RTC_DAY k3;
                  (mo, k5) = rtc_read c RTC_MONTH k4;
                  (y, k6) = rtc_read c RTC_YEAR k5
              in (0, t\<lparr>second := s, minute := mi, hour := h, day := d, month := mo, year := ucast y\<rparr>, k6))"

definition rtc_zero :: rtc_time where
  "rtc_zero = \<lparr>second = 0, minute = 0, hour = 0, day = 0, month = 0, year = 0\<rparr>"

fun rtc_stable_loop :: "cmos \<Rightarrow> nat \<Rightarrow> rtc_time \<Rightarrow> rtc_time \<Rightarrow> nat \<Rightarrow> int \<times> rtc_time \<times> nat" where
  "rtc_stable_loop c 0 t previous k = (- 1, t, k)"
| "rtc_stable_loop c (Suc n) t previous k =
     (let (r, t1, k1) = rtc_read_raw c t k
      in if r \<noteq> 0 then (- 1, t1, k1)
         else if second t1 = second previous \<and> minute t1 = minute previous \<and> hour t1 = hour previous \<and>
           day t1 = day previous \<and> month t1 = month previous \<and> year t1 = year previous
         then (0, t1, k1)
         else rtc_stable_loop c n t1 t1 k1)"

definition rtc_read_stable :: "cmos \<Rightarrow> rtc_time \<Rightarrow> nat \<Rightarrow> int \<times> rtc_time \<times> nat" where
  "rtc_read_stable c t k =
     (let (r, previous, k1) = rtc_read_raw c rtc_zero k
      in if r \<noteq> 0 then (- 1, t, k1) else rtc_stable_loop c 16 t previous k1)"

section \<open>Decoding\<close>

definition BCD_TO_BIN :: "'a :: len word \<Rightarrow> 'a word" where
  "BCD_TO_BIN v = (v AND 0x0F) + drop_bit 4 v * 10"

definition rtc_from_bcd :: "u8 \<Rightarrow> rtc_time \<Rightarrow> rtc_time" where
  "rtc_from_bcd status_b t =
     (if status_b AND RTC_BINARY = 0
      then \<lparr>second = BCD_TO_BIN (second t), minute = BCD_TO_BIN (minute t), hour = BCD_TO_BIN (hour t),
            day = BCD_TO_BIN (day t), month = BCD_TO_BIN (month t), year = BCD_TO_BIN (year t)\<rparr>
      else t)"

definition rtc_hour_24 :: "u8 \<Rightarrow> bool \<Rightarrow> u8 \<Rightarrow> u8" where
  "rtc_hour_24 status_b pm h =
     (if pm then h mod 12 + 12 else if status_b AND RTC_24_HOUR = 0 then h mod 12 else h)"

definition rtc_invalid :: "rtc_time \<Rightarrow> bool" where
  "rtc_invalid t \<longleftrightarrow> month t < 1 \<or> month t > 12 \<or> day t < 1 \<or> day t > 31 \<or> hour t > 23 \<or> minute t > 59 \<or> second t > 60"

definition rtc_decode :: "cmos \<Rightarrow> rtc_time \<Rightarrow> nat \<Rightarrow> int \<times> rtc_time \<times> nat" where
  "rtc_decode c t k =
     (let (status_b, k1) = rtc_read c RTC_STATUS_B k;
          pm = (status_b AND RTC_24_HOUR = 0 \<and> hour t AND 0x80 \<noteq> 0);
          t1 = t\<lparr>hour := hour t AND 0x7F\<rparr>;
          t2 = rtc_from_bcd status_b t1;
          t3 = t2\<lparr>hour := rtc_hour_24 status_b pm (hour t2)\<rparr>;
          t4 = t3\<lparr>year := year t3 + (if year t3 < 70 then 2000 else 1900)\<rparr>
      in (if rtc_invalid t4 then - 1 else 0, t4, k1))"

text \<open>Division of a \<open>long\<close> truncates; the numerator of the era is adjusted for that. \<open>month\<close> and \<open>day\<close> are \<open>unsigned\<close>.\<close>

definition rtc_days_from_civil :: "int \<Rightarrow> u32 \<Rightarrow> u32 \<Rightarrow> int" where
  "rtc_days_from_civil y0 mo d =
     (let y = (if mo \<le> 2 then y0 - 1 else y0);
          era = (if 0 \<le> y then y div 400 else - ((399 - y) div 400));
          yoe = (word_of_int (y - era * 400) :: u32);
          doy = (153 * (mo + (if mo > 2 then - 3 else 9)) + 2) div 5 + d - 1;
          doe = yoe * 365 + yoe div 4 - yoe div 100 + doy
      in era * 146097 + int (unat doe) - 719468)"

definition rtc_to_epoch :: "rtc_time \<Rightarrow> u64" where
  "rtc_to_epoch t =
     (let days = rtc_days_from_civil (uint (year t)) (ucast (month t)) (ucast (day t))
      in word_of_int (days * 86400 + uint (hour t) * 3600 + uint (minute t) * 60 + uint (second t)))"

text \<open>The epoch at boot is a variable of the module.\<close>

definition rtc_cmos_sync :: "cmos \<Rightarrow> nat \<Rightarrow> u64 \<Rightarrow> int \<times> u64 \<times> nat" where
  "rtc_cmos_sync c k boot_epoch =
     (let (r, now, k1) = rtc_read_stable c rtc_zero k
      in if r \<noteq> 0 then (- 1, boot_epoch, k1)
         else let (r', now', k2) = rtc_decode c now k1
              in if r' \<noteq> 0 then (- 1, boot_epoch, k2) else (0, rtc_to_epoch now', k2))"

section \<open>The tick counter\<close>

definition FREQUENCY :: nat where "FREQUENCY = 100"

record timespec =
  sec :: u64
  msec :: u16

record pit =
  timer_ticks :: u64
  timer_ms :: u8

definition tick :: "pit \<Rightarrow> pit" where
  "tick p =
     (if timer_ms p + 1 = of_nat FREQUENCY then \<lparr>timer_ticks = timer_ticks p + 1, timer_ms = 0\<rparr>
      else p\<lparr>timer_ms := timer_ms p + 1\<rparr>)"

definition get_relative_time :: "pit \<Rightarrow> timespec \<Rightarrow> timespec" where
  "get_relative_time p t =
     (let s = timer_ticks p + sec t; ms = ucast (timer_ms p) + msec t
      in if ms \<ge> of_nat FREQUENCY then \<lparr>sec = s + 1, msec = ms mod of_nat FREQUENCY\<rparr> else \<lparr>sec = s, msec = ms\<rparr>)"

partial_function (option) get_current_time :: "(nat \<Rightarrow> pit) \<Rightarrow> nat \<Rightarrow> (timespec \<times> nat) option" where
  "get_current_time ps k =
     (let t = \<lparr>sec = timer_ticks (ps k), msec = ucast (timer_ms (ps (k + 1)))\<rparr>
      in if sec t \<noteq> timer_ticks (ps (k + 2)) then get_current_time ps (k + 3) else Some (t, k + 3))"

definition pit_compare :: "pit \<Rightarrow> timespec \<Rightarrow> bool" where
  "pit_compare p t \<longleftrightarrow> timer_ticks p > sec t \<or> timer_ticks p = sec t \<and> ucast (timer_ms p) > msec t"

definition get_unix_time :: "u64 \<Rightarrow> (nat \<Rightarrow> pit) \<Rightarrow> nat \<Rightarrow> (u64 \<times> nat) option" where
  "get_unix_time boot_epoch ps k = do { (now, k') \<leftarrow> get_current_time ps k; Some (boot_epoch + sec now, k') }"

text \<open>\<open>ktime\<close> stores the time through its argument as well, unless that is \<open>NULL\<close>.\<close>

definition ktime :: "u64 \<Rightarrow> (nat \<Rightarrow> pit) \<Rightarrow> nat \<Rightarrow> ptr \<Rightarrow> (ptr \<Rightarrow> u64) \<Rightarrow> (u64 \<times> (ptr \<Rightarrow> u64) \<times> nat) option" where
  "ktime boot_epoch ps k p m = do {
     (now, k') \<leftarrow> get_unix_time boot_epoch ps k;
     Some (now, if p \<noteq> 0 then m(p := now) else m, k') }"

section \<open>The calendar\<close>

text \<open>Days and seconds since 1970, counted by the lengths of years and months.\<close>

definition leap :: "nat \<Rightarrow> bool" where
  "leap y \<longleftrightarrow> y mod 4 = 0 \<and> y mod 100 \<noteq> 0 \<or> y mod 400 = 0"

definition year_days :: "nat \<Rightarrow> nat" where
  "year_days y = (if leap y then 366 else 365)"

definition month_days :: "nat \<Rightarrow> nat \<Rightarrow> nat" where
  "month_days y m = (if m = 2 then if leap y then 29 else 28 else if m = 4 \<or> m = 6 \<or> m = 9 \<or> m = 11 then 30 else 31)"

definition calendar_days :: "nat \<Rightarrow> nat \<Rightarrow> nat \<Rightarrow> nat" where
  "calendar_days y m d = sum_list (map year_days [1970..<y]) + sum_list (map (month_days y) [1..<m]) + (d - 1)"

text \<open>Days from March 1 of year 0 to March 1 of year \<open>y\<close>, and to the first of a month after that.\<close>

definition march_days :: "nat \<Rightarrow> nat" where
  "march_days y = 365 * y + y div 4 - y div 100 + y div 400"

lemma march_days_le: "(y :: nat) div 100 \<le> 365 * y + y div 4"
  using div_le_dividend[of y 100] by linarith

lemma march_days_Suc: "march_days (Suc y) = march_days y + year_days (Suc y)"
proof -
  have "Suc y mod 100 = 0 \<Longrightarrow> Suc y mod 4 = 0"
    unfolding mod_eq_0_iff_dvd by (rule dvd_trans[of _ 100]) simp_all
  moreover have "Suc y mod 400 = 0 \<Longrightarrow> Suc y mod 100 = 0"
    unfolding mod_eq_0_iff_dvd by (rule dvd_trans[of _ 400]) simp_all
  ultimately show ?thesis
    using march_days_le[of y] unfolding march_days_def year_days_def leap_def div_Suc by (auto simp: algebra_simps)
qed

lemma march_days_era: "march_days y = (y div 400) * 146097 + ((y mod 400) * 365 + (y mod 400) div 4 - (y mod 400) div 100)"
proof -
  define e r where "e = y div 400" and "r = y mod 400"
  have y: "y = r + e * 400" by (simp add: e_def r_def)
  have "(r + (e * 100) * 4) div 4 = e * 100 + r div 4" by (rule div_mult_self1) simp
  moreover have "(r + (e * 4) * 100) div 100 = e * 4 + r div 100" by (rule div_mult_self1) simp
  ultimately have "y div 4 = e * 100 + r div 4" "y div 100 = e * 4 + r div 100" unfolding y by simp_all
  then show ?thesis
    unfolding march_days_def e_def[symmetric] r_def[symmetric] using y march_days_le[of r] by (simp add: algebra_simps)
qed

lemma march_days_1970: "1970 \<le> y \<Longrightarrow> march_days (y - 1) + 306 = 719468 + sum_list (map year_days [1970..<y])"
proof (induction y rule: dec_induct)
  case base
  then show ?case by (simp add: march_days_def)
next
  case (step y)
  then have "Suc y - 1 = Suc (y - 1)" "Suc (y - 1) = y" by simp_all
  then show ?case using step march_days_Suc[of "y - 1"] by simp
qed

definition month_shift :: "nat \<Rightarrow> nat" where
  "month_shift m = (153 * (if m > 2 then m - 3 else m + 9) + 2) div 5"

lemma month_cases: "1 \<le> (m :: nat) \<Longrightarrow> m \<le> 12 \<Longrightarrow> m \<in> {1, 2, 3, 4, 5, 6, 7, 8, 9, 10, 11, 12}"
  unfolding insert_iff empty_iff by presburger

lemma calendar_march:
  assumes "1970 \<le> y" "1 \<le> m" "m \<le> 12" "1 \<le> d"
  shows "march_days (if m \<le> 2 then y - 1 else y) + month_shift m + d - 1 = 719468 + calendar_days y m d"
proof -
  have y: "march_days y = march_days (y - 1) + year_days y" using march_days_Suc[of "y - 1"] assms(1) by simp
  have m: "m \<in> {1, 2, 3, 4, 5, 6, 7, 8, 9, 10, 11, 12}" using month_cases[OF assms(2,3)] .
  have "march_days (if m \<le> 2 then y - 1 else y) + month_shift m = march_days (y - 1) + 306 + sum_list (map (month_days y) [1..<m])"
    using m by (elim insertE) (simp_all add: y month_shift_def month_days_def year_days_def upt_rec)
  then show ?thesis using march_days_1970[OF assms(1)] assms(4) by (simp add: calendar_days_def)
qed

lemma unat_of_nat_u32: "n < 2 ^ 32 \<Longrightarrow> unat (of_nat n :: u32) = n"
  by (simp add: unat_of_nat take_bit_nat_eq_self)

lemma of_nat_div_u32: "n < 2 ^ 32 \<Longrightarrow> k < 2 ^ 32 \<Longrightarrow> (of_nat n :: u32) div of_nat k = of_nat (n div k)"
  by (simp add: word_arith_nat_div unat_of_nat_u32)

lemma doy_nat:
  assumes "1 \<le> m" "m \<le> 12" "1 \<le> d"
  shows "(153 * ((of_nat m :: u32) + (if of_nat m > (2 :: u32) then - 3 else 9)) + 2) div 5 + of_nat d - 1 = of_nat (month_shift m + d - 1)"
proof -
  have m: "m \<in> {1, 2, 3, 4, 5, 6, 7, 8, 9, 10, 11, 12}" using month_cases[OF assms(1,2)] .
  have "(153 * ((of_nat m :: u32) + (if of_nat m > (2 :: u32) then - 3 else 9)) + 2) div 5 = of_nat (month_shift m)"
    using m by (elim insertE) (simp_all add: month_shift_def)
  then show ?thesis using assms(3) by (simp add: of_nat_diff)
qed

lemma days_from_civil_ok:
  assumes "1970 \<le> y" "1 \<le> m" "m \<le> 12" "1 \<le> d" "d \<le> 31"
  shows "rtc_days_from_civil (int y) (of_nat m) (of_nat d) = int (calendar_days y m d)"
proof -
  define y' where "y' = (if m \<le> 2 then y - 1 else y)"
  define r where "r = y' mod 400"
  have r: "r < 400" by (simp add: r_def)
  have m2: "of_nat m \<le> (2 :: u32) \<longleftrightarrow> m \<le> 2" using assms(3) by (simp add: word_le_nat_alt unat_of_nat_u32)
  have yy: "(if of_nat m \<le> (2 :: u32) then int y - 1 else int y) = int y'" using assms(1) m2 by (simp add: y'_def of_nat_diff)
  have "int y' - int y' div 400 * 400 = int r" by (simp add: r_def zmod_int minus_div_mult_eq_mod)
  then have yoe: "word_of_int (int y' - int y' div 400 * 400) = (of_nat r :: u32)" by simp
  have le: "r div 100 \<le> r * 365 + r div 4" using march_days_le[of r] by simp
  have "(of_nat r :: u32) div 4 = of_nat (r div 4)" "(of_nat r :: u32) div 100 = of_nat (r div 100)"
    using of_nat_div_u32[of r 4] of_nat_div_u32[of r 100] r by simp_all
  then have w: "(of_nat r :: u32) * 365 + of_nat r div 4 - of_nat r div 100 + of_nat (month_shift m + d - 1) =
    of_nat (r * 365 + r div 4 - r div 100 + (month_shift m + d - 1))"
    using le by (simp add: of_nat_diff)
  have "month_shift m \<le> 337" using month_cases[OF assms(2,3)] by (elim insertE) (simp_all add: month_shift_def)
  then have "r * 365 + r div 4 - r div 100 + (month_shift m + d - 1) < 2 ^ 32" using r assms(5) by simp
  from unat_of_nat_u32[OF this]
  have doe: "unat ((of_nat r :: u32) * 365 + of_nat r div 4 - of_nat r div 100 + of_nat (month_shift m + d - 1)) =
    r * 365 + r div 4 - r div 100 + (month_shift m + d - 1)"
    unfolding w .
  have "int y' div 400 * 146097 + int (r * 365 + r div 4 - r div 100 + (month_shift m + d - 1)) = int (march_days y' + month_shift m + d - 1)"
    unfolding march_days_era[of y', folded r_def] using assms(4) by (simp only: of_nat_add of_nat_mult zdiv_int of_nat_numeral add_diff_assoc) simp
  also have "\<dots> = 719468 + int (calendar_days y m d)" using calendar_march[OF assms(1-4)] by (simp add: y'_def)
  finally show ?thesis
    unfolding rtc_days_from_civil_def Let_def yy if_P[OF of_nat_0_le_iff] yoe doy_nat[OF assms(2-4)] doe by linarith
qed

section \<open>Reading the clock\<close>

text \<open>What the chip shows at a point in time: every field in binary or in BCD, the hour with 24 or with 12 hours and a
  flag for the afternoon, the year without its century.\<close>

definition bcd :: "nat \<Rightarrow> u8" where
  "bcd v = of_nat (16 * (v div 10) + v mod 10)"

definition rtc_field :: "u8 \<Rightarrow> nat \<Rightarrow> u8" where
  "rtc_field status_b v = (if status_b AND RTC_BINARY = 0 then bcd v else of_nat v)"

definition rtc_hour_field :: "u8 \<Rightarrow> nat \<Rightarrow> u8" where
  "rtc_hour_field status_b h =
     (if status_b AND RTC_24_HOUR = 0
      then rtc_field status_b ((h + 11) mod 12 + 1) OR (if 12 \<le> h then 0x80 else 0)
      else rtc_field status_b h)"

record civil =
  c_year :: nat
  c_month :: nat
  c_day :: nat
  c_hour :: nat
  c_minute :: nat
  c_second :: nat

definition civil_ok :: "civil \<Rightarrow> bool" where
  "civil_ok v \<longleftrightarrow> 1970 \<le> c_year v \<and> c_year v < 2070 \<and> 1 \<le> c_month v \<and> c_month v \<le> 12 \<and> 1 \<le> c_day v \<and>
     c_day v \<le> month_days (c_year v) (c_month v) \<and> c_hour v < 24 \<and> c_minute v < 60 \<and> c_second v < 60"

definition unix_time :: "civil \<Rightarrow> nat" where
  "unix_time v = calendar_days (c_year v) (c_month v) (c_day v) * 86400 + c_hour v * 3600 + c_minute v * 60 + c_second v"

definition shows_date :: "(u8 \<Rightarrow> u8) \<Rightarrow> civil \<Rightarrow> bool" where
  "shows_date regs v \<longleftrightarrow> regs RTC_STATUS_A AND RTC_UPDATE_IN_PROGRESS = 0 \<and>
     (let sb = regs RTC_STATUS_B in
        regs RTC_SECOND = rtc_field sb (c_second v) \<and> regs RTC_MINUTE = rtc_field sb (c_minute v) \<and>
        regs RTC_HOUR = rtc_hour_field sb (c_hour v) \<and> regs RTC_DAY = rtc_field sb (c_day v) \<and>
        regs RTC_MONTH = rtc_field sb (c_month v) \<and> regs RTC_YEAR = rtc_field sb (c_year v mod 100))"

lemma bcd_list: "list_all (\<lambda>v. BCD_TO_BIN (bcd v) = of_nat v \<and> BCD_TO_BIN (ucast (bcd v) :: u16) = of_nat v) [0..<100]"
  by code_simp

lemma BCD_bcd:
  assumes "v < 100"
  shows "BCD_TO_BIN (bcd v) = of_nat v" and "BCD_TO_BIN (ucast (bcd v) :: u16) = of_nat v"
  using bcd_list assms by (simp_all add: list_all_iff)

definition hour_read :: "bool \<Rightarrow> bool \<Rightarrow> u8 \<Rightarrow> u8" where
  "hour_read bin h24 x =
     (let pm = (\<not> h24 \<and> x AND 0x80 \<noteq> 0); h = (if bin then x AND 0x7F else BCD_TO_BIN (x AND 0x7F))
      in if pm then h mod 12 + 12 else if \<not> h24 then h mod 12 else h)"

definition hour_shown :: "bool \<Rightarrow> bool \<Rightarrow> nat \<Rightarrow> u8" where
  "hour_shown bin h24 h =
     (let f = (\<lambda>v. if bin then of_nat v else bcd v)
      in if h24 then f h else f ((h + 11) mod 12 + 1) OR (if 12 \<le> h then 0x80 else 0))"

lemma hour_list: "list_all (\<lambda>bin. list_all (\<lambda>h24. list_all (\<lambda>h. hour_read bin h24 (hour_shown bin h24 h) = of_nat h) [0..<24]) [True, False]) [True, False]"
  by code_simp

lemma hour_ok:
  assumes "h < 24"
  shows "hour_read bin h24 (hour_shown bin h24 h) = of_nat h"
  using hour_list assms by (cases bin; cases h24) (simp_all add: list_all_iff)

definition shown :: "(u8 \<Rightarrow> u8) \<Rightarrow> rtc_time" where
  "shown regs = \<lparr>second = regs RTC_SECOND, minute = regs RTC_MINUTE, hour = regs RTC_HOUR, day = regs RTC_DAY,
     month = regs RTC_MONTH, year = ucast (regs RTC_YEAR)\<rparr>"

lemma read_raw_ok:
  assumes "\<forall>k. c k = regs" "regs RTC_STATUS_A AND RTC_UPDATE_IN_PROGRESS = 0"
  shows "rtc_read_raw c t k = (0, shown regs, k + 7)"
proof -
  obtain n where n: "RTC_MAX_WAIT = Suc n" using not0_implies_Suc[of RTC_MAX_WAIT] by (auto simp: RTC_MAX_WAIT_def)
  have "rtc_wait_idle c k = (0, k + 1)" unfolding rtc_wait_idle_def n using assms by (simp add: rtc_read_def)
  then show ?thesis using assms by (simp add: rtc_read_raw_def rtc_read_def shown_def)
qed

lemma read_stable_ok:
  assumes "\<forall>k. c k = regs" "regs RTC_STATUS_A AND RTC_UPDATE_IN_PROGRESS = 0"
  shows "rtc_read_stable c t k = (0, shown regs, k + 14)"
proof -
  have "rtc_stable_loop c (Suc n) t (shown regs) (k + 7) = (0, shown regs, k + 14)" for n
    by (simp add: read_raw_ok[OF assms])
  from this[of 15] have "rtc_stable_loop c 16 t (shown regs) (k + 7) = (0, shown regs, k + 14)"
    by (simp del: rtc_stable_loop.simps)
  then show ?thesis by (simp add: rtc_read_stable_def read_raw_ok[OF assms])
qed

lemma wait_busy:
  assumes "\<forall>k. c k RTC_STATUS_A AND RTC_UPDATE_IN_PROGRESS \<noteq> 0"
  shows "rtc_wait_idle_loop c n k = (- 1, k + n)"
  using assms by (induction n arbitrary: k) (simp_all add: rtc_read_def)

lemma sync_busy:
  assumes "\<forall>k. c k RTC_STATUS_A AND RTC_UPDATE_IN_PROGRESS \<noteq> 0"
  shows "rtc_cmos_sync c k e = (- 1, e, k + RTC_MAX_WAIT)"
  using wait_busy[where c = c, OF assms] by (simp add: rtc_cmos_sync_def rtc_read_stable_def rtc_read_raw_def rtc_wait_idle_def)

definition decoded :: "civil \<Rightarrow> rtc_time" where
  "decoded v = \<lparr>second = of_nat (c_second v), minute = of_nat (c_minute v), hour = of_nat (c_hour v), day = of_nat (c_day v),
     month = of_nat (c_month v), year = of_nat (c_year v)\<rparr>"

lemma unat_of_nat_small: "n < 256 \<Longrightarrow> unat (of_nat n :: u8) = n" "n < 65536 \<Longrightarrow> unat (of_nat n :: u16) = n"
  by (simp_all add: unat_of_nat take_bit_nat_eq_self)

lemma uint_small: "n < 256 \<Longrightarrow> uint (of_nat n :: u8) = int n" "n < 65536 \<Longrightarrow> uint (of_nat n :: u16) = int n"
  by (simp_all add: uint_nat unat_of_nat_small del: uint_word_of_int_eq)

lemma ucast_small: "n < 256 \<Longrightarrow> ucast (of_nat n :: u8) = (of_nat n :: 'a :: len word)"
  using uint_small(1)[of n] by (simp add: ucast_eq)

lemma year_ok:
  assumes "1970 \<le> y" "y < 2070" "(yy :: u16) = of_nat (y mod 100)"
  shows "yy + (if yy < 70 then 2000 else 1900) = of_nat y"
proof -
  have lt: "y mod 100 < 65536" by (rule less_trans[of _ 100]) simp_all
  have "yy < 70 \<longleftrightarrow> y mod 100 < 70" unfolding assms(3) word_less_nat_alt unat_of_nat_small(2)[OF lt] by simp
  moreover have "y = (if y mod 100 < 70 then y mod 100 + 2000 else y mod 100 + 1900)"
  proof -
    have q: "100 * (y div 100) + y mod 100 = y" "y mod 100 < 100" by simp_all
    have "19 \<le> y div 100" "y div 100 \<le> 20" using assms(1,2) div_le_mono[of 1900 y 100] div_le_mono[of y 2099 100] by simp_all
    then have "y div 100 = 19 \<or> y div 100 = 20" by linarith
    then have "y mod 100 < 70 \<Longrightarrow> y = y mod 100 + 2000" "\<not> y mod 100 < 70 \<Longrightarrow> y = y mod 100 + 1900"
      using q assms(1,2) by linarith+
    then show ?thesis by presburger
  qed
  ultimately have "of_nat y = (if yy < 70 then of_nat (y mod 100) + 2000 else (of_nat (y mod 100) :: u16) + 1900)"
    by (metis of_nat_add of_nat_numeral)
  then show ?thesis using assms(3) by simp
qed

lemma decode_ok:
  assumes c: "\<forall>k. c k = regs" and d: "shows_date regs v" and v: "civil_ok v"
  shows "rtc_decode c (shown regs) k = (0, decoded v, k + 1)"
proof -
  define sb where "sb = regs RTC_STATUS_B"
  define bin where "bin \<longleftrightarrow> sb AND RTC_BINARY \<noteq> 0"
  define h24 where "h24 \<longleftrightarrow> sb AND RTC_24_HOUR \<noteq> 0"
  note defs = shown_def rtc_from_bcd_def rtc_field_def sb_def[symmetric]
  have r: "regs RTC_SECOND = rtc_field sb (c_second v)" "regs RTC_MINUTE = rtc_field sb (c_minute v)"
      "regs RTC_HOUR = hour_shown bin h24 (c_hour v)" "regs RTC_DAY = rtc_field sb (c_day v)"
      "regs RTC_MONTH = rtc_field sb (c_month v)" "regs RTC_YEAR = rtc_field sb (c_year v mod 100)"
    using d by (simp_all add: shows_date_def Let_def sb_def[symmetric] rtc_hour_field_def hour_shown_def rtc_field_def bin_def h24_def)
  have d31: "c_day v \<le> 31" using v by (auto simp: civil_ok_def month_days_def split: if_splits)
  have f: "(if bin then rtc_field sb x else BCD_TO_BIN (rtc_field sb x)) = of_nat x" if "x < 100" for x
    using BCD_bcd(1)[OF that] by (simp add: rtc_field_def bin_def)
  have y: "(if bin then ucast (rtc_field sb x) else BCD_TO_BIN (ucast (rtc_field sb x))) = (of_nat x :: u16)" if "x < 100" for x
    using BCD_bcd(2)[OF that] that by (simp add: rtc_field_def bin_def ucast_small)
  let ?t = "rtc_from_bcd sb (shown regs\<lparr>hour := hour (shown regs) AND 0x7F\<rparr>)"
  have t: "second ?t = of_nat (c_second v)" "minute ?t = of_nat (c_minute v)" "day ?t = of_nat (c_day v)"
      "month ?t = of_nat (c_month v)" "year ?t = of_nat (c_year v mod 100)"
      "rtc_hour_24 sb (sb AND RTC_24_HOUR = 0 \<and> hour (shown regs) AND 0x80 \<noteq> 0) (hour ?t) = of_nat (c_hour v)"
    using f[of "c_second v"] f[of "c_minute v"] f[of "c_day v"] f[of "c_month v"] y[of "c_year v mod 100"] v d31
      hour_ok[of "c_hour v" bin h24] r
    by (simp_all add: shown_def rtc_from_bcd_def civil_ok_def bin_def h24_def hour_read_def rtc_hour_24_def Let_def split: if_splits)
  have inv: "\<not> rtc_invalid (decoded v)"
    using v d31 by (simp add: rtc_invalid_def decoded_def civil_ok_def word_less_nat_alt unat_of_nat_small)
  have "?t\<lparr>hour := of_nat (c_hour v), year := of_nat (c_year v)\<rparr> = decoded v" using t by (simp add: decoded_def)
  then show ?thesis
    using c t year_ok[OF _ _ t(5)] v inv by (simp add: rtc_decode_def rtc_read_def sb_def[symmetric] Let_def civil_ok_def)
qed

lemma to_epoch_ok:
  assumes "civil_ok v"
  shows "rtc_to_epoch (decoded v) = of_nat (unix_time v)"
proof -
  have d31: "c_day v \<le> 31" using assms by (auto simp: civil_ok_def month_days_def split: if_splits)
  have u: "ucast (of_nat (c_month v) :: u8) = (of_nat (c_month v) :: u32)" "ucast (of_nat (c_day v) :: u8) = (of_nat (c_day v) :: u32)"
      "uint (of_nat (c_year v) :: u16) = int (c_year v)" "uint (of_nat (c_hour v) :: u8) = int (c_hour v)"
      "uint (of_nat (c_minute v) :: u8) = int (c_minute v)" "uint (of_nat (c_second v) :: u8) = int (c_second v)"
    using assms d31 by (simp_all add: civil_ok_def ucast_small uint_small)
  have "rtc_days_from_civil (int (c_year v)) (of_nat (c_month v)) (of_nat (c_day v)) = int (calendar_days (c_year v) (c_month v) (c_day v))"
    using days_from_civil_ok assms d31 by (simp add: civil_ok_def)
  then show ?thesis by (simp add: rtc_to_epoch_def decoded_def u unix_time_def)
qed

section \<open>Ticks\<close>

definition pit_ok :: "pit \<Rightarrow> bool" where
  "pit_ok p \<longleftrightarrow> unat (timer_ms p) < FREQUENCY"

definition ticks_of :: "pit \<Rightarrow> nat" where
  "ticks_of p = unat (timer_ticks p) * FREQUENCY + unat (timer_ms p)"

lemma tick_ok:
  assumes "pit_ok p" "ticks_of p + 1 < 2 ^ 64 * FREQUENCY"
  shows "pit_ok (tick p)" "ticks_of (tick p) = ticks_of p + 1"
proof -
  have ms: "unat (timer_ms p + 1) = unat (timer_ms p) + 1"
    using assms(1) by (subst unat_add_lem[THEN iffD1]) (simp_all add: pit_ok_def FREQUENCY_def)
  have eq: "timer_ms p + 1 = of_nat FREQUENCY \<longleftrightarrow> unat (timer_ms p) + 1 = FREQUENCY"
    unfolding word_unat_eq_iff ms by (simp add: FREQUENCY_def)
  show "pit_ok (tick p)" using assms(1) eq ms by (auto simp: tick_def pit_ok_def FREQUENCY_def)
  show "ticks_of (tick p) = ticks_of p + 1"
  proof (cases "unat (timer_ms p) + 1 = FREQUENCY")
    case True
    then have "unat (timer_ticks p) + 1 < 2 ^ 64" using assms(2) by (simp add: ticks_of_def FREQUENCY_def)
    then have "unat (timer_ticks p + 1) = unat (timer_ticks p) + 1" by (subst unat_add_lem[THEN iffD1]) simp_all
    then show ?thesis using eq True by (simp add: tick_def ticks_of_def)
  next
    case False
    then show ?thesis using eq ms by (simp add: tick_def ticks_of_def)
  qed
qed

lemma ticks_ok:
  assumes "pit_ok p" "ticks_of p + n < 2 ^ 64 * FREQUENCY"
  shows "pit_ok ((tick ^^ n) p)" "ticks_of ((tick ^^ n) p) = ticks_of p + n"
  using assms tick_ok[of "(tick ^^ _) p"] by (induction n) (auto simp: add.assoc)

definition time_ok :: "timespec \<Rightarrow> bool" where
  "time_ok t \<longleftrightarrow> unat (msec t) < FREQUENCY"

definition ticks_at :: "timespec \<Rightarrow> nat" where
  "ticks_at t = unat (sec t) * FREQUENCY + unat (msec t)"

lemma unat_ucast_16: "unat (ucast (w :: u8) :: u16) = unat w"
  using unsigned_less[of w, where 'a = nat] by (simp add: unsigned_ucast_eq take_bit_nat_eq_self)

lemma mixed_less: "(b :: nat) < n \<Longrightarrow> d < n \<Longrightarrow> a * n + b < c * n + d \<longleftrightarrow> a < c \<or> a = c \<and> b < d"
  using mult_le_mono1[of "Suc a" c n] mult_le_mono1[of "Suc c" a n] by (cases a c rule: linorder_cases) auto

lemma relative_ok:
  assumes "pit_ok p" "time_ok t" "ticks_of p + ticks_at t < 2 ^ 64 * FREQUENCY"
  shows "time_ok (get_relative_time p t)" "ticks_at (get_relative_time p t) = ticks_of p + ticks_at t"
proof -
  let ?ms = "ucast (timer_ms p) + msec t"
  have lt: "unat (timer_ms p) < 100" "unat (msec t) < 100" using assms(1,2) by (simp_all add: pit_ok_def time_ok_def FREQUENCY_def)
  have ms: "unat ?ms = unat (timer_ms p) + unat (msec t)"
    using lt by (subst unat_add_lem[THEN iffD1]) (simp_all add: unat_ucast_16)
  have ge: "?ms \<ge> of_nat FREQUENCY \<longleftrightarrow> unat (timer_ms p) + unat (msec t) \<ge> 100"
    unfolding word_le_nat_alt ms by (simp add: FREQUENCY_def)
  have md: "unat (?ms mod of_nat FREQUENCY) = (unat (timer_ms p) + unat (msec t)) mod 100"
    unfolding unat_mod ms by (simp add: FREQUENCY_def)
  have tot: "(unat (timer_ticks p) + unat (sec t)) * 100 + (unat (timer_ms p) + unat (msec t)) < 2 ^ 64 * 100"
    using assms(3) by (simp add: ticks_of_def ticks_at_def FREQUENCY_def)
  then have s: "unat (timer_ticks p + sec t) = unat (timer_ticks p) + unat (sec t)"
    by (subst unat_add_lem[THEN iffD1]) simp_all
  have "time_ok (get_relative_time p t) \<and> ticks_at (get_relative_time p t) = ticks_of p + ticks_at t"
  proof (cases "unat (timer_ms p) + unat (msec t) \<ge> 100")
    case True
    then have "unat (timer_ticks p + sec t + 1) = unat (timer_ticks p) + unat (sec t) + 1"
      using s tot by (subst unat_add_lem[THEN iffD1]) simp_all
    moreover have "(unat (timer_ms p) + unat (msec t)) mod 100 = unat (timer_ms p) + unat (msec t) - 100"
      using True lt by (simp add: mod_if)
    ultimately show ?thesis
      using True ge md by (simp add: get_relative_time_def Let_def time_ok_def ticks_at_def ticks_of_def) (simp add: FREQUENCY_def)
  next
    case False
    then show ?thesis
      using ge ms s by (simp add: get_relative_time_def Let_def time_ok_def ticks_at_def ticks_of_def) (simp add: FREQUENCY_def)
  qed
  then show "time_ok (get_relative_time p t)" "ticks_at (get_relative_time p t) = ticks_of p + ticks_at t" by simp_all
qed

lemma compare_ok: "pit_ok p \<Longrightarrow> time_ok t \<Longrightarrow> pit_compare p t \<longleftrightarrow> ticks_at t < ticks_of p"
  unfolding ticks_at_def ticks_of_def pit_compare_def pit_ok_def time_ok_def
  by (subst mixed_less) (auto simp: word_less_nat_alt word_unat_eq_iff unat_ucast_16)

section \<open>Snapshots\<close>

definition seconds_mono :: "(nat \<Rightarrow> pit) \<Rightarrow> bool" where
  "seconds_mono ps \<longleftrightarrow> (\<forall>i. timer_ticks (ps i) \<le> timer_ticks (ps (i + 1)))"

lemma current_time_round:
  assumes m: "seconds_mono ps" and eq: "timer_ticks (ps k) = timer_ticks (ps (k + 2))"
  shows "get_current_time ps k = Some (\<lparr>sec = timer_ticks (ps (k + 1)), msec = ucast (timer_ms (ps (k + 1)))\<rparr>, k + 3)"
proof -
  have "timer_ticks (ps k) \<le> timer_ticks (ps (k + 1))" "timer_ticks (ps (k + 1)) \<le> timer_ticks (ps (k + 2))"
    using m[unfolded seconds_mono_def, rule_format, of k] m[unfolded seconds_mono_def, rule_format, of "k + 1"] by simp_all
  then have "timer_ticks (ps (k + 1)) = timer_ticks (ps k)" using eq by simp
  then show ?thesis using eq by (subst get_current_time.simps) simp
qed

lemma current_time_ok:
  assumes "seconds_mono ps" "timer_ticks (ps (k + 3 * j)) = timer_ticks (ps (k + 3 * j + 2))"
  shows "\<exists>i k'. get_current_time ps k = Some (\<lparr>sec = timer_ticks (ps i), msec = ucast (timer_ms (ps i))\<rparr>, k') \<and>
    k \<le> i \<and> i < k' \<and> k' \<le> k + 3 * j + 3"
  using assms(2)
proof (induction j arbitrary: k)
  case 0
  then show ?case using current_time_round[OF assms(1), of k] by (auto intro!: exI[of _ "k + 1"])
next
  case (Suc j)
  have r: "k + 3 * Suc j = k + 3 + 3 * j" "k + 3 * Suc j + 2 = k + 3 + 3 * j + 2" by simp_all
  show ?case
  proof (cases "timer_ticks (ps k) = timer_ticks (ps (k + 2))")
    case True
    then show ?thesis using current_time_round[OF assms(1), of k] by (auto intro!: exI[of _ "k + 1"])
  next
    case False
    obtain i k' where i: "get_current_time ps (k + 3) = Some (\<lparr>sec = timer_ticks (ps i), msec = ucast (timer_ms (ps i))\<rparr>, k')"
      "k + 3 \<le> i" "i < k'" "k' \<le> k + 3 + 3 * j + 3"
      using Suc.IH[of "k + 3"] Suc.prems unfolding r by blast
    have "get_current_time ps k = get_current_time ps (k + 3)" using False by (subst get_current_time.simps) simp
    then show ?thesis using i by auto
  qed
qed

section \<open>Properties\<close>

text \<open>
  C21. The clock is read correctly: when the registers show a date between 1970 and 2069, in BCD or binary and with 24 or 12 hours,
  \<open>rtc_cmos_sync\<close> succeeds and sets the boot epoch to the number of seconds since 1970, counted by the lengths of the years and
  months. When the update flag never clears, as without a chip, it gives up with -1 after \<open>RTC_MAX_WAIT\<close> reads
  and leaves the boot epoch alone.
\<close>

theorem rtc_cmos_sync_spec:
  assumes "\<forall>k. c k = regs" "shows_date regs v" "civil_ok v" and "\<forall>k. absent k RTC_STATUS_A AND RTC_UPDATE_IN_PROGRESS \<noteq> 0"
  shows "rtc_cmos_sync c k e = (0, of_nat (unix_time v), k + 15) \<and> rtc_cmos_sync absent k e = (- 1, e, k + RTC_MAX_WAIT)"
proof -
  have idle: "regs RTC_STATUS_A AND RTC_UPDATE_IN_PROGRESS = 0" using assms(2) by (simp add: shows_date_def)
  show ?thesis
    using read_stable_ok[of c, OF assms(1) idle] decode_ok[OF assms(1-3)] to_epoch_ok[OF assms(3)] sync_busy[of absent, OF assms(4)]
    by (simp add: rtc_cmos_sync_def)
qed

text \<open>Ten to midnight on February 29, 2024, in BCD with 12 hours.\<close>

definition regs_ex :: "u8 \<Rightarrow> u8" where
  "regs_ex = (\<lambda>_. 0)(RTC_MINUTE := 0x50, RTC_HOUR := 0x91, RTC_DAY := 0x29, RTC_MONTH := 0x02, RTC_YEAR := 0x24)"

theorem rtc_cmos_sync_spec_witness:
  "rtc_cmos_sync (\<lambda>_. regs_ex) 0 7 = (0, 1709250600, 15) \<and> rtc_cmos_sync (\<lambda>_ _. 0xff) 0 7 = (- 1, 7, RTC_MAX_WAIT)"
proof -
  let ?v = "\<lparr>c_year = 2024, c_month = 2, c_day = 29, c_hour = 23, c_minute = 50, c_second = 0\<rparr>"
  have d: "shows_date regs_ex ?v"
    by (simp add: shows_date_def regs_ex_def rtc_regs rtc_field_def rtc_hour_field_def bcd_def RTC_UPDATE_IN_PROGRESS_def Let_def)
  have o: "civil_ok ?v" by (simp add: civil_ok_def month_days_def leap_def)
  have t: "unix_time ?v = 1709250600"
    by (simp add: unix_time_def calendar_days_def year_days_def leap_def month_days_def upt_rec)
  show ?thesis
    using rtc_cmos_sync_spec[of "\<lambda>_. regs_ex" regs_ex ?v "\<lambda>_ _. 0xff" 0 7] d o t
    by (simp add: RTC_UPDATE_IN_PROGRESS_def)
qed



text \<open>
  C22. Reading the time ends and gives a time that was: whatever timer interrupts arrive between the reads of the counter, as long as some
  round of the loop sees no change of the second, \<open>ktime\<close> returns, and what it returns and stores is the boot epoch plus the seconds
  of the counter at one moment during the call.
\<close>

theorem ktime_spec:
  assumes "seconds_mono ps" "timer_ticks (ps (k + 3 * j)) = timer_ticks (ps (k + 3 * j + 2))" "p \<noteq> 0"
  shows "\<exists>i k'. ktime e ps k p m = Some (e + timer_ticks (ps i), m(p := e + timer_ticks (ps i)), k') \<and>
    get_current_time ps k = Some (\<lparr>sec = timer_ticks (ps i), msec = ucast (timer_ms (ps i))\<rparr>, k') \<and>
    k \<le> i \<and> i < k' \<and> k' \<le> k + 3 * j + 3"
proof -
  obtain i k' where i: "get_current_time ps k = Some (\<lparr>sec = timer_ticks (ps i), msec = ucast (timer_ms (ps i))\<rparr>, k')"
    "k \<le> i" "i < k'" "k' \<le> k + 3 * j + 3"
    using current_time_ok[OF assms(1,2)] by blast
  show ?thesis
    using i assms(3) by (intro exI[of _ i] exI[of _ k']) (simp add: ktime_def get_unix_time_def)
qed

text \<open>The interrupt that begins second 1 arrives between the first and the third read.\<close>

definition ps_ex :: "nat \<Rightarrow> pit" where
  "ps_ex i = (if i < 1 then \<lparr>timer_ticks = 0, timer_ms = 99\<rparr> else \<lparr>timer_ticks = 1, timer_ms = 0\<rparr>)"

theorem ktime_spec_witness:
  "\<exists>i k'. ktime 10 ps_ex 0 8 (\<lambda>_. 0) = Some (10 + timer_ticks (ps_ex i), (\<lambda>_. 0)(8 := 10 + timer_ticks (ps_ex i)), k') \<and>
    0 \<le> i \<and> i < k' \<and> k' \<le> 6"
proof -
  have "seconds_mono ps_ex" by (simp add: seconds_mono_def ps_ex_def)
  moreover have "timer_ticks (ps_ex (0 + 3 * 1)) = timer_ticks (ps_ex (0 + 3 * 1 + 2))" by (simp add: ps_ex_def)
  ultimately show ?thesis using ktime_spec[of ps_ex 0 1 8 10 "\<lambda>_. 0"] by (simp, blast)
qed

end
