(* ===== verification/Hash_Table.thy ===== *)
theory Hash_Table
  imports Vmheap Cstring
begin

text \<open>
  Keyed lists and the hash table: \<open>src/klib/data_structure/list.c\<close> and \<open>src/klib/data_structure/hash_table.c\<close>. The nodes of
  all lists are in one store; a list is its variable, the table an array of
  lists. Both meet the contract \<open>keyed_store\<close>.
\<close>

section \<open>Lists\<close>

record list_node =
  lkey :: u64
  lvalue :: ptr
  lnext :: ptr

definition sizeof_list_node :: nat where
  "sizeof_list_node = 24"

record list_t =
  lhead :: ptr
  llock :: kmutex
  lsize :: nat

record 's lmem =
  lnodes :: "ptr \<rightharpoonup> list_node"
  lheap :: 's

definition list_init :: "list_t \<Rightarrow> list_t" where
  "list_init l = l\<lparr>lhead := 0, lsize := 0, llock := kmutex_init (llock l)\<rparr>"

text \<open>Every field of the new node is written, so its old contents do not matter.\<close>

definition list_insert ::
    "(nat \<Rightarrow> 's \<Rightarrow> (ptr \<times> 's) option) \<Rightarrow> u64 \<Rightarrow> ptr \<Rightarrow> list_t \<Rightarrow> 's lmem \<Rightarrow> (ptr \<times> list_t \<times> 's lmem) option" where
  "list_insert alloc key value l s = do {
     (node, h) \<leftarrow> alloc sizeof_list_node (lheap s);
     let s1 = s\<lparr>lheap := h\<rparr>;
     if node = 0 then Some (0, l, s1)
     else do {
       lk \<leftarrow> kmutex_lock (llock l);
       let s2 = s1\<lparr>lnodes := (lnodes s1)(node \<mapsto> \<lparr>lkey = key, lvalue = value, lnext = lhead l\<rparr>)\<rparr>;
       let l1 = l\<lparr>lsize := w64 (lsize l + 1), lhead := node\<rparr>;
       (lk', woken) \<leftarrow> kmutex_unlock lk;
       Some (node, l1\<lparr>llock := lk'\<rparr>, s2)
     }
   }"

partial_function (option) list_find :: "(list_node \<Rightarrow> int option) \<Rightarrow> (ptr \<rightharpoonup> list_node) \<Rightarrow> ptr \<Rightarrow> ptr option" where
  "list_find compare N node =
     (if node = 0 then Some 0
      else do {
        n \<leftarrow> N node;
        c \<leftarrow> compare n;
        if c = 0 then Some node else list_find compare N (lnext n)
      })"

definition list_custom_lookup :: "(list_node \<Rightarrow> int option) \<Rightarrow> list_t \<Rightarrow> 's lmem \<Rightarrow> (ptr \<times> list_t) option" where
  "list_custom_lookup compare l s = do {
     lk \<leftarrow> kmutex_lock (llock l);
     node \<leftarrow> list_find compare (lnodes s) (lhead l);
     (lk', woken) \<leftarrow> kmutex_unlock lk;
     Some (node, l\<lparr>llock := lk'\<rparr>)
   }"

text \<open>Both operands are cut to \<open>int\<close>.\<close>

definition int_compare :: "u64 \<Rightarrow> list_node \<Rightarrow> int option" where
  "int_compare b node = Some (if sint (ucast (lkey node) :: u32) = sint (ucast b :: u32) then 0 else - 1)"

definition list_lookup :: "u64 \<Rightarrow> list_t \<Rightarrow> 's lmem \<Rightarrow> (ptr \<times> list_t) option" where
  "list_lookup key l s = list_custom_lookup (int_compare key) l s"

definition str_compare :: "bytes \<Rightarrow> ptr \<Rightarrow> list_node \<Rightarrow> int option" where
  "str_compare m b node = strcmp (unat (lkey node)) b m"

definition list_str_lookup :: "bytes \<Rightarrow> ptr \<Rightarrow> list_t \<Rightarrow> 's lmem \<Rightarrow> (ptr \<times> list_t) option" where
  "list_str_lookup m key l s = list_custom_lookup (str_compare m key) l s"

section \<open>The table\<close>

definition BUCKETS :: nat where "BUCKETS = 100"

type_synonym hash_t = "list_t list"

definition hash_init :: "hash_t \<Rightarrow> hash_t" where
  "hash_init hash = fold (\<lambda>i h. h[i := list_init (h ! i)]) [0..<BUCKETS] hash"

definition hash_insert ::
    "(nat \<Rightarrow> 's \<Rightarrow> (ptr \<times> 's) option) \<Rightarrow> u64 \<Rightarrow> ptr \<Rightarrow> hash_t \<Rightarrow> 's lmem \<Rightarrow> (ptr \<times> hash_t \<times> 's lmem) option" where
  "hash_insert alloc key value hash s = do {
     let i = unat key mod BUCKETS;
     (node, l, s') \<leftarrow> list_insert alloc key value (hash ! i) s;
     Some (node, hash[i := l], s')
   }"

definition hash_lookup :: "u64 \<Rightarrow> hash_t \<Rightarrow> 's lmem \<Rightarrow> (ptr \<times> hash_t) option" where
  "hash_lookup key hash s = do {
     let i = unat key mod BUCKETS;
     (node, l) \<leftarrow> list_lookup key (hash ! i) s;
     Some (node, hash[i := l])
   }"

section \<open>Paths\<close>

primrec lpath :: "(ptr \<rightharpoonup> list_node) \<Rightarrow> ptr \<Rightarrow> ptr list \<Rightarrow> bool" where
  "lpath N p [] \<longleftrightarrow> p = 0"
| "lpath N p (a # as) \<longleftrightarrow> p = a \<and> a \<noteq> 0 \<and> (\<exists>n. N a = Some n \<and> lpath N (lnext n) as)"

text \<open>A node as an entry: its address, key and value.\<close>

definition entry :: "(ptr \<rightharpoonup> list_node) \<Rightarrow> ptr \<Rightarrow> ptr \<times> u64 \<times> ptr" where
  "entry N p = (case N p of Some n \<Rightarrow> (p, lkey n, lvalue n) | None \<Rightarrow> (p, 0, 0))"

lemma lpath_cong: "(\<And>p. p \<in> set ps \<Longrightarrow> N' p = N p) \<Longrightarrow> lpath N' p ps = lpath N p ps"
  by (induction ps arbitrary: p) auto

lemma fst_entry [simp]: "fst (entry N p) = p"
  by (simp add: entry_def split: option.splits)

text \<open>A search returns the first node on the path that compares equal, or \<open>NULL\<close>.\<close>

lemma list_find_ok:
  assumes "lpath N p ps" "\<And>a n. a \<in> set ps \<Longrightarrow> N a = Some n \<Longrightarrow> \<exists>c. compare n = Some c \<and> (c = 0 \<longleftrightarrow> eq (entry N a))"
  shows "list_find compare N p = Some (found (find eq (map (entry N) ps)))"
  using assms
proof (induction ps arbitrary: p)
  case Nil
  then show ?case by (simp add: list_find.simps found_def)
next
  case (Cons a as)
  then obtain n where n: "p = a" "a \<noteq> 0" "N a = Some n" "lpath N (lnext n) as" by auto
  obtain c where c: "compare n = Some c" "c = 0 \<longleftrightarrow> eq (entry N a)" using Cons.prems(2)[of a n] n(3) by auto
  have ih: "list_find compare N (lnext n) = Some (found (find eq (map (entry N) as)))"
    using Cons.IH[OF n(4)] Cons.prems(2) by simp
  show ?case using n c ih by (subst list_find.simps) (simp add: found_def)
qed

section \<open>A family of lists\<close>

text \<open>
  The lists \<open>ls\<close> with their nodes \<open>pss\<close>: the nodes of all of them are different blocks of the allocator, and
  \<open>F\<close> are blocks that other parts hold.
\<close>

definition list_ok :: "(ptr \<rightharpoonup> list_node) \<Rightarrow> list_t \<Rightarrow> ptr list \<Rightarrow> bool" where
  "list_ok N l ps \<longleftrightarrow> mutex_free (llock l) \<and> lpath N (lhead l) ps \<and> lsize l = w64 (length ps)"

definition lists_ok ::
    "('s \<Rightarrow> (ptr \<times> nat) set \<Rightarrow> bool) \<Rightarrow> ptr set \<Rightarrow> list_t list \<Rightarrow> 's lmem \<Rightarrow> ptr list list \<Rightarrow> bool" where
  "lists_ok rep F ls s pss \<longleftrightarrow> length ls = length pss \<and> (\<forall>i<length ls. list_ok (lnodes s) (ls ! i) (pss ! i)) \<and>
     distinct (concat pss) \<and> F \<inter> set (concat pss) = {} \<and> holds rep (lheap s) (F \<union> set (concat pss))"

lemma set_concat_update:
  "i < length pss \<Longrightarrow> set (concat (pss[i := a # pss ! i])) = insert a (set (concat pss))"
  by (induction pss arbitrary: i) (auto simp: nth_Cons split: nat.splits)

lemma distinct_concat_update:
  "i < length pss \<Longrightarrow> distinct (concat pss) \<Longrightarrow> a \<notin> set (concat pss) \<Longrightarrow> distinct (concat (pss[i := a # pss ! i]))"
proof (induction pss arbitrary: i)
  case (Cons ps pss)
  show ?case
  proof (cases i)
    case (Suc j)
    then have "set (concat (pss[j := a # pss ! j])) = insert a (set (concat pss))" "distinct (concat (pss[j := a # pss ! j]))"
      using Cons set_concat_update[of j pss a] by auto
    then show ?thesis using Cons.prems Suc by auto
  qed (use Cons.prems in auto)
qed simp

context allocator
begin

lemma list_insert_ok:
  assumes ok: "lists_ok rep F ls s pss" and i: "i < length ls"
  obtains h where "list_insert alloc k v (ls ! i) s = Some (0, ls ! i, s\<lparr>lheap := h\<rparr>)" "lists_ok rep F ls (s\<lparr>lheap := h\<rparr>) pss"
  | a l s' where "list_insert alloc k v (ls ! i) s = Some (a, l, s')" "a \<noteq> 0" "lists_ok rep F (ls[i := l]) s' (pss[i := a # pss ! i])"
    "entry (lnodes s') a = (a, k, v)" "\<And>p. p \<in> set (concat pss) \<Longrightarrow> entry (lnodes s') p = entry (lnodes s) p"
proof -
  have len: "length ls = length pss" and l: "\<And>j. j < length ls \<Longrightarrow> list_ok (lnodes s) (ls ! j) (pss ! j)"
    and d: "distinct (concat pss)" "F \<inter> set (concat pss) = {}" and h: "holds rep (lheap s) (F \<union> set (concat pss))"
    using ok by (auto simp: lists_ok_def)
  have "sizeof_list_node < max_req" using max_req by (simp add: sizeof_list_node_def)
  from alloc_holds[OF h this] obtain a h' where a: "alloc sizeof_list_node (lheap s) = Some (a, h')"
    "holds rep h' (F \<union> set (concat pss))"
    "a \<noteq> 0 \<Longrightarrow> a \<notin> F \<union> set (concat pss) \<and> holds rep h' (insert a (F \<union> set (concat pss)))" by blast
  have m: "mutex_free (llock (ls ! i))" using l[OF i] by (simp add: list_ok_def)
  show thesis
  proof (cases "a = 0")
    case True
    show thesis
      by (rule that(1)[of h']) (use a True ok in \<open>simp_all add: list_insert_def lists_ok_def\<close>)
  next
    case False
    have fr: "a \<notin> F" "a \<notin> set (concat pss)" "holds rep h' (insert a (F \<union> set (concat pss)))" using a(3)[OF False] by auto
    let ?n = "\<lparr>lkey = k, lvalue = v, lnext = lhead (ls ! i)\<rparr>"
    let ?s = "s\<lparr>lheap := h', lnodes := (lnodes s)(a \<mapsto> ?n)\<rparr>"
    let ?l = "(ls ! i)\<lparr>lsize := w64 (lsize (ls ! i) + 1), lhead := a\<rparr>"
    have ins: "list_insert alloc k v (ls ! i) s = Some (a, ?l, ?s)"
      using a(1) False kmutex_lock_free[OF m] kmutex_unlock_free[OF m] by (simp add: list_insert_def)
    have fresh: "a \<notin> set (pss ! j)" if "j < length ls" for j using fr(2) nth_mem[of j pss] that len by auto
    have keep: "lpath ((lnodes s)(a \<mapsto> ?n)) p (pss ! j) = lpath (lnodes s) p (pss ! j)" if "j < length ls" for j p
      using fresh[OF that] by (intro lpath_cong) auto
    have sz: "w64 (w64 (length (pss ! i)) + 1) = w64 (Suc (length (pss ! i)))" by (simp add: w64_def mod_Suc_eq)
    have "list_ok (lnodes ?s) (ls[i := ?l] ! j) (pss[i := a # pss ! i] ! j)" if "j < length ls" for j
      using l[OF that] keep[OF that] l[OF i] keep[OF i] i that len False sz by (cases "j = i") (simp_all add: list_ok_def)
    then have "lists_ok rep F (ls[i := ?l]) ?s (pss[i := a # pss ! i])"
      using len d fr i distinct_concat_update[of i pss a] set_concat_update[of i pss a]
      by (simp add: lists_ok_def)
    then show thesis
      by (rule that(2)[OF ins False]) (use fr in \<open>auto simp: entry_def\<close>)
  qed
qed

end

definition low_eq :: "u64 \<Rightarrow> u64 \<Rightarrow> bool" where
  "low_eq a b \<longleftrightarrow> (ucast a :: u32) = ucast b"

lemma list_lookup_ok:
  assumes "list_ok (lnodes s) l ps"
  shows "list_lookup k l s = Some (found (find (\<lambda>e. low_eq k (entry_key e)) (map (entry (lnodes s)) ps)), l)"
proof -
  have m: "mutex_free (llock l)" and p: "lpath (lnodes s) (lhead l) ps" using assms by (simp_all add: list_ok_def)
  have "list_find (int_compare k) (lnodes s) (lhead l) = Some (found (find (\<lambda>e. low_eq k (entry_key e)) (map (entry (lnodes s)) ps)))"
    by (rule list_find_ok[OF p]) (auto simp: int_compare_def entry_def entry_key_def low_eq_def simp flip: word_eq_iff_signed)
  then show ?thesis
    using kmutex_lock_free[OF m] kmutex_unlock_free[OF m] by (simp add: list_lookup_def list_custom_lookup_def)
qed

text \<open>Keys that are strings are compared by their characters.\<close>

lemma list_str_lookup_ok:
  assumes ok: "list_ok (lnodes s) l ps" and k: "cstr m key xs"
    and strs: "\<forall>a\<in>set ps. \<exists>ys. cstr m (unat (entry_key (entry (lnodes s) a))) ys"
  shows "list_str_lookup m key l s = Some (found (find (\<lambda>e. cstr m (unat (entry_key e)) xs) (map (entry (lnodes s)) ps)), l)"
proof -
  have f: "mutex_free (llock l)" and p: "lpath (lnodes s) (lhead l) ps" using ok by (simp_all add: list_ok_def)
  have "list_find (str_compare m key) (lnodes s) (lhead l) =
      Some (found (find (\<lambda>e. cstr m (unat (entry_key e)) xs) (map (entry (lnodes s)) ps)))"
  proof (rule list_find_ok[OF p])
    fix a n assume a: "a \<in> set ps" and n: "lnodes s a = Some n"
    have ek: "entry_key (entry (lnodes s) a) = lkey n" using n by (simp add: entry_def entry_key_def)
    obtain ys where ys: "cstr m (unat (lkey n)) ys" using strs a ek by metis
    have "cstr m (unat (lkey n)) xs \<longleftrightarrow> ys = xs" using ys cstr_unique[OF ys, of xs] by blast
    then have "(if length ys = length xs then lex_cmp ys xs else - 1) = 0 \<longleftrightarrow> cstr m (unat (lkey n)) xs"
      using lex_cmp_0[of ys xs] by (cases "length ys = length xs") auto
    then show "\<exists>c. str_compare m key n = Some c \<and> (c = 0 \<longleftrightarrow> cstr m (unat (entry_key (entry (lnodes s) a))) xs)"
      unfolding ek str_compare_def strcmp_eq[OF ys k] by blast
  qed
  then show ?thesis
    using kmutex_lock_free[OF f] kmutex_unlock_free[OF f] by (simp add: list_str_lookup_def list_custom_lookup_def)
qed

section \<open>The contract\<close>

text \<open>
  A store of keyed values, newest first: insertion adds an entry at a new address or fails with \<open>NULL\<close>, a search finds the
  newest entry whose key is the \<open>same\<close>, and \<open>val\<close> reads an entry through its address.
\<close>

fun ins_run :: "(u64 \<Rightarrow> ptr \<Rightarrow> 'q \<Rightarrow> (ptr \<times> 'q) option) \<Rightarrow> (u64 \<times> ptr) list \<Rightarrow> 'q \<Rightarrow> ((ptr \<times> u64 \<times> ptr) list \<times> 'q) option" where
  "ins_run ins [] q = Some ([], q)"
| "ins_run ins ((k, v) # kvs) q = do {
     (p, q1) \<leftarrow> ins k v q;
     (es, q2) \<leftarrow> ins_run ins kvs q1;
     Some ((p, k, v) # es, q2)
   }"

locale keyed_store =
  fixes ins :: "u64 \<Rightarrow> ptr \<Rightarrow> 'q \<Rightarrow> (ptr \<times> 'q) option"
    and look :: "u64 \<Rightarrow> 'q \<Rightarrow> (ptr \<times> 'q) option"
    and val :: "'q \<Rightarrow> ptr \<Rightarrow> ptr \<times> u64 \<times> ptr"
    and krep :: "'q \<Rightarrow> (ptr \<times> u64 \<times> ptr) list \<Rightarrow> bool"
    and same :: "u64 \<Rightarrow> u64 \<Rightarrow> bool"
  assumes ins_rep: "krep q es \<Longrightarrow> \<exists>p q'. ins k v q = Some (p, q') \<and> krep q' (if p = 0 then es else (p, k, v) # es)"
    and look_rep: "krep q es \<Longrightarrow> \<exists>q'. look k q = Some (found (find (\<lambda>e. same k (entry_key e)) es), q') \<and> krep q' es"
    and krep_val: "krep q es \<Longrightarrow> e \<in> set es \<Longrightarrow> fst e \<noteq> 0 \<and> val q (fst e) = e"
begin

lemma run_rep:
  assumes "krep q es"
  shows "\<exists>rs q'. ins_run ins kvs q = Some (rs, q') \<and> map snd rs = kvs \<and> krep q' (rev (filter (\<lambda>e. fst e \<noteq> 0) rs) @ es)"
  using assms
proof (induction kvs arbitrary: q es)
  case (Cons kv kvs)
  obtain k v where kv: "kv = (k, v)" by (cases kv)
  obtain p q1 where p: "ins k v q = Some (p, q1)" "krep q1 (if p = 0 then es else (p, k, v) # es)"
    using ins_rep[OF Cons.prems] by blast
  obtain rs q2 where r: "ins_run ins kvs q1 = Some (rs, q2)" "map snd rs = kvs"
    "krep q2 (rev (filter (\<lambda>e. fst e \<noteq> 0) rs) @ (if p = 0 then es else (p, k, v) # es))"
    using Cons.IH[OF p(2)] by blast
  then show ?case using p(1) kv by (auto intro!: exI[of _ "(p, k, v) # rs"])
qed simp

lemma run_look:
  assumes "krep q []"
  shows "\<exists>rs q'. ins_run ins kvs q = Some (rs, q') \<and> map snd rs = kvs \<and>
    (\<forall>k. \<exists>q''. look k q' = Some (found (find (\<lambda>e. same k (entry_key e)) (rev (filter (\<lambda>e. fst e \<noteq> 0) rs))), q'')) \<and>
    (\<forall>e\<in>set rs. fst e \<noteq> 0 \<longrightarrow> val q' (fst e) = e)"
proof -
  obtain rs q' where r: "ins_run ins kvs q = Some (rs, q')" "map snd rs = kvs" "krep q' (rev (filter (\<lambda>e. fst e \<noteq> 0) rs))"
    using run_rep[OF assms, of kvs] by auto
  have "\<exists>q''. look k q' = Some (found (find (\<lambda>e. same k (entry_key e)) (rev (filter (\<lambda>e. fst e \<noteq> 0) rs))), q'')" for k
    using look_rep[OF r(3)] by blast
  moreover have "val q' (fst e) = e" if "e \<in> set rs" "fst e \<noteq> 0" for e using krep_val[OF r(3), of e] that by simp
  ultimately show ?thesis using r(1,2) by blast
qed

end

section \<open>Lists and tables are such stores\<close>

definition list_ins :: "(nat \<Rightarrow> 's \<Rightarrow> (ptr \<times> 's) option) \<Rightarrow> u64 \<Rightarrow> ptr \<Rightarrow> list_t \<times> 's lmem \<Rightarrow> (ptr \<times> list_t \<times> 's lmem) option" where
  "list_ins alloc k v q = list_insert alloc k v (fst q) (snd q)"

definition list_look :: "u64 \<Rightarrow> list_t \<times> 's lmem \<Rightarrow> (ptr \<times> list_t \<times> 's lmem) option" where
  "list_look k q = do { (p, l) \<leftarrow> list_lookup k (fst q) (snd q); Some (p, l, snd q) }"

definition hash_ins :: "(nat \<Rightarrow> 's \<Rightarrow> (ptr \<times> 's) option) \<Rightarrow> u64 \<Rightarrow> ptr \<Rightarrow> hash_t \<times> 's lmem \<Rightarrow> (ptr \<times> hash_t \<times> 's lmem) option" where
  "hash_ins alloc k v q = hash_insert alloc k v (fst q) (snd q)"

definition hash_look :: "u64 \<Rightarrow> hash_t \<times> 's lmem \<Rightarrow> (ptr \<times> hash_t \<times> 's lmem) option" where
  "hash_look k q = do { (p, h) \<leftarrow> hash_lookup k (fst q) (snd q); Some (p, h, snd q) }"

definition node_entry :: "'a \<times> 's lmem \<Rightarrow> ptr \<Rightarrow> ptr \<times> u64 \<times> ptr" where
  "node_entry q p = entry (lnodes (snd q)) p"

definition list_rep :: "('s \<Rightarrow> (ptr \<times> nat) set \<Rightarrow> bool) \<Rightarrow> ptr set \<Rightarrow> list_t \<times> 's lmem \<Rightarrow> (ptr \<times> u64 \<times> ptr) list \<Rightarrow> bool" where
  "list_rep rep F q es \<longleftrightarrow> (\<exists>ps. lists_ok rep F [fst q] (snd q) [ps] \<and> map (node_entry q) ps = es)"

definition hash_rep :: "('s \<Rightarrow> (ptr \<times> nat) set \<Rightarrow> bool) \<Rightarrow> ptr set \<Rightarrow> hash_t \<times> 's lmem \<Rightarrow> (ptr \<times> u64 \<times> ptr) list \<Rightarrow> bool" where
  "hash_rep rep F q es \<longleftrightarrow> length (fst q) = BUCKETS \<and> (\<exists>pss. lists_ok rep F (fst q) (snd q) pss \<and>
     (\<forall>i<BUCKETS. map (node_entry q) (pss ! i) = filter (\<lambda>e. unat (entry_key e) mod BUCKETS = i) es))"

definition bucket_eq :: "u64 \<Rightarrow> u64 \<Rightarrow> bool" where
  "bucket_eq a b \<longleftrightarrow> low_eq a b \<and> unat a mod BUCKETS = unat b mod BUCKETS"

lemma node_entry_heap [simp]: "node_entry (x, (snd q)\<lparr>lheap := h\<rparr>) = node_entry q"
  by (rule ext) (simp add: node_entry_def)

lemma nth_concat_subset: "i < length pss \<Longrightarrow> set (pss ! i) \<subseteq> set (concat pss)"
  using nth_mem[of i pss] by (auto simp del: nth_mem)

lemma find_filter: "find P (filter Q xs) = find (\<lambda>x. P x \<and> Q x) xs"
  by (induction xs) auto

context allocator
begin

lemma list_ins_rep:
  assumes "list_rep rep F q es"
  shows "\<exists>p q'. list_ins alloc k v q = Some (p, q') \<and> list_rep rep F q' (if p = 0 then es else (p, k, v) # es)"
proof -
  obtain ps where ok: "lists_ok rep F [fst q] (snd q) [ps]" and es: "map (node_entry q) ps = es"
    using assms by (auto simp: list_rep_def)
  show ?thesis
  proof (rule list_insert_ok[OF ok, of 0 k v], simp)
    fix h assume "list_insert alloc k v ([fst q] ! 0) (snd q) = Some (0, [fst q] ! 0, (snd q)\<lparr>lheap := h\<rparr>)"
      "lists_ok rep F [fst q] ((snd q)\<lparr>lheap := h\<rparr>) [ps]"
    then show ?thesis using es by (auto simp: list_ins_def list_rep_def intro!: exI[of _ ps])
  next
    fix a l s' assume 1: "list_insert alloc k v ([fst q] ! 0) (snd q) = Some (a, l, s')" "a \<noteq> 0"
      "lists_ok rep F ([fst q][0 := l]) s' ([ps][0 := a # [ps] ! 0])" "entry (lnodes s') a = (a, k, v)"
      "\<And>p. p \<in> set (concat [ps]) \<Longrightarrow> entry (lnodes s') p = entry (lnodes (snd q)) p"
    then have "map (node_entry (l, s')) (a # ps) = (a, k, v) # es" using es by (auto simp: node_entry_def)
    then show ?thesis using 1 by (auto simp: list_ins_def list_rep_def intro!: exI[of _ "a # ps"])
  qed
qed

lemma hash_ins_rep:
  assumes "hash_rep rep F q es"
  shows "\<exists>p q'. hash_ins alloc k v q = Some (p, q') \<and> hash_rep rep F q' (if p = 0 then es else (p, k, v) # es)"
proof -
  obtain pss where len: "length (fst q) = BUCKETS" and ok: "lists_ok rep F (fst q) (snd q) pss"
    and es: "\<And>i. i < BUCKETS \<Longrightarrow> map (node_entry q) (pss ! i) = filter (\<lambda>e. unat (entry_key e) mod BUCKETS = i) es"
    using assms by (auto simp: hash_rep_def)
  let ?i = "unat k mod BUCKETS"
  have i: "?i < length (fst q)" using len by (simp add: BUCKETS_def)
  show ?thesis
  proof (rule list_insert_ok[OF ok i, of k v])
    fix h assume "list_insert alloc k v (fst q ! ?i) (snd q) = Some (0, fst q ! ?i, (snd q)\<lparr>lheap := h\<rparr>)"
      "lists_ok rep F (fst q) ((snd q)\<lparr>lheap := h\<rparr>) pss"
    then show ?thesis
      using es len by (auto simp: hash_ins_def hash_insert_def hash_rep_def intro!: exI[of _ pss])
  next
    fix a l s' assume 1: "list_insert alloc k v (fst q ! ?i) (snd q) = Some (a, l, s')" "a \<noteq> 0"
      "lists_ok rep F ((fst q)[?i := l]) s' (pss[?i := a # pss ! ?i])" "entry (lnodes s') a = (a, k, v)"
      "\<And>p. p \<in> set (concat pss) \<Longrightarrow> entry (lnodes s') p = entry (lnodes (snd q)) p"
    have lp: "length pss = BUCKETS" using ok len by (simp add: lists_ok_def)
    have "map (node_entry ((fst q)[?i := l], s')) (pss[?i := a # pss ! ?i] ! j) =
        filter (\<lambda>e. unat (entry_key e) mod BUCKETS = j) ((a, k, v) # es)" if j: "j < BUCKETS" for j
    proof -
      have mm: "map (node_entry ((fst q)[?i := l], s')) (pss ! j) = map (node_entry q) (pss ! j)"
        using 1(5) nth_concat_subset[of j pss] j lp by (intro map_cong) (auto simp: node_entry_def simp del: set_concat)
      have e: "pss[?i := a # pss ! ?i] ! j = (if j = ?i then [a] else []) @ pss ! j" using j lp by simp
      show ?thesis unfolding e map_append mm es[OF j] using 1(4) by (simp add: node_entry_def entry_key_def)
    qed
    then show ?thesis
      using 1 len by (auto simp: hash_ins_def hash_insert_def hash_rep_def intro!: exI[of _ "pss[?i := a # pss ! ?i]"])
  qed
qed

lemma list_look_rep:
  assumes "list_rep rep F q es"
  shows "\<exists>q'. list_look k q = Some (found (find (\<lambda>e. low_eq k (entry_key e)) es), q') \<and> list_rep rep F q' es"
proof -
  obtain ps where ok: "lists_ok rep F [fst q] (snd q) [ps]" and es: "map (node_entry q) ps = es"
    using assms by (auto simp: list_rep_def)
  have "list_ok (lnodes (snd q)) (fst q) ps" using ok by (simp add: lists_ok_def)
  from list_lookup_ok[OF this, of k] have "list_look k q = Some (found (find (\<lambda>e. low_eq k (entry_key e)) es), q)"
    using es by (simp add: list_look_def node_entry_def[abs_def])
  then show ?thesis using assms by blast
qed

lemma hash_look_rep:
  assumes "hash_rep rep F q es"
  shows "\<exists>q'. hash_look k q = Some (found (find (\<lambda>e. bucket_eq k (entry_key e)) es), q') \<and> hash_rep rep F q' es"
proof -
  obtain pss where len: "length (fst q) = BUCKETS" and ok: "lists_ok rep F (fst q) (snd q) pss"
    and es: "\<And>i. i < BUCKETS \<Longrightarrow> map (node_entry q) (pss ! i) = filter (\<lambda>e. unat (entry_key e) mod BUCKETS = i) es"
    using assms by (auto simp: hash_rep_def)
  let ?i = "unat k mod BUCKETS"
  have i: "?i < BUCKETS" by (simp add: BUCKETS_def)
  have "list_ok (lnodes (snd q)) (fst q ! ?i) (pss ! ?i)" using ok i len by (simp add: lists_ok_def)
  moreover have "find (\<lambda>e. low_eq k (entry_key e)) (map (entry (lnodes (snd q))) (pss ! ?i)) = find (\<lambda>e. bucket_eq k (entry_key e)) es"
    using es[OF i] by (simp add: node_entry_def[abs_def] find_filter bucket_eq_def eq_commute[of "unat k mod BUCKETS"])
  ultimately have "hash_look k q = Some (found (find (\<lambda>e. bucket_eq k (entry_key e)) es), q)"
    using list_lookup_ok[of "snd q" "fst q ! ?i" "pss ! ?i" k] by (simp add: hash_look_def hash_lookup_def)
  then show ?thesis using assms by blast
qed

lemma lists_ok_nonnull: "lists_ok rep F ls s pss \<Longrightarrow> 0 \<notin> set (concat pss)"
  using holds_nonnull by (auto simp: lists_ok_def)

lemma list_rep_val:
  assumes "list_rep rep F q es" "e \<in> set es"
  shows "fst e \<noteq> 0 \<and> node_entry q (fst e) = e"
proof -
  obtain ps where ok: "lists_ok rep F [fst q] (snd q) [ps]" and es: "map (node_entry q) ps = es"
    using assms(1) by (auto simp: list_rep_def)
  obtain p where p: "p \<in> set ps" "e = node_entry q p" using assms(2) es by auto
  have "p \<noteq> 0" using lists_ok_nonnull[OF ok] p(1) by (cases "p = 0") auto
  then show ?thesis using p(2) by (simp add: node_entry_def)
qed

lemma hash_rep_val:
  assumes "hash_rep rep F q es" "e \<in> set es"
  shows "fst e \<noteq> 0 \<and> node_entry q (fst e) = e"
proof -
  obtain pss where len: "length (fst q) = BUCKETS" and ok: "lists_ok rep F (fst q) (snd q) pss"
    and es: "\<And>i. i < BUCKETS \<Longrightarrow> map (node_entry q) (pss ! i) = filter (\<lambda>e. unat (entry_key e) mod BUCKETS = i) es"
    using assms(1) by (auto simp: hash_rep_def)
  let ?i = "unat (entry_key e) mod BUCKETS"
  have i: "?i < BUCKETS" by (simp add: BUCKETS_def)
  have "e \<in> set (map (node_entry q) (pss ! ?i))" unfolding es[OF i] using assms(2) by simp
  then obtain p where p: "p \<in> set (pss ! ?i)" "e = node_entry q p" by auto
  have "p \<in> set (concat pss)" using p(1) i len ok nth_mem[of ?i pss] by (auto simp: lists_ok_def)
  then have "p \<noteq> 0" using lists_ok_nonnull[OF ok] by metis
  then show ?thesis using p(2) by (simp add: node_entry_def)
qed

end

interpretation vl: keyed_store "list_ins vmalloc" list_look node_entry "list_rep (vmheap_rep E) F" low_eq for E F
  by unfold_locales (fact vh.list_ins_rep vh.list_look_rep vh.list_rep_val)+

interpretation vt: keyed_store "hash_ins vmalloc" hash_look node_entry "hash_rep (vmheap_rep E) F" bucket_eq for E F
  by unfold_locales (fact vh.hash_ins_rep vh.hash_look_rep vh.hash_rep_val)+

section \<open>Initialisation\<close>

lemma hash_init_nth: "length hash = BUCKETS \<Longrightarrow> hash_init hash = map list_init hash"
proof -
  have "n \<le> length hash \<Longrightarrow> fold (\<lambda>i h. h[i := list_init (h ! i)]) [0..<n] hash = map list_init (take n hash) @ drop n hash" for n
  proof (induction n)
    case (Suc n)
    then have "drop n hash = hash ! n # drop (Suc n) hash" by (simp add: Cons_nth_drop_Suc)
    then show ?case using Suc by (simp add: take_Suc_conv_app_nth list_update_append nth_append)
  qed simp
  from this[of BUCKETS] show "length hash = BUCKETS \<Longrightarrow> ?thesis" by (simp add: hash_init_def)
qed

lemma hash_init_rep:
  assumes "length hash = BUCKETS" "holds (vmheap_rep E) v F" "\<forall>l\<in>set hash. pad (llock l) = 0"
  shows "hash_rep (vmheap_rep E) F (hash_init hash, \<lparr>lnodes = N, lheap = v\<rparr>) []"
proof -
  let ?h = "map list_init hash" and ?s = "\<lparr>lnodes = N, lheap = v\<rparr>"
  have "lists_ok (vmheap_rep E) F ?h ?s (replicate BUCKETS [])"
    using assms by (auto simp: lists_ok_def list_ok_def list_init_def kmutex_init_def mutex_free_def word64_def w64_def)
  then show ?thesis
    using assms(1) by (auto simp: hash_rep_def hash_init_nth intro!: exI[of _ "replicate BUCKETS []"])
qed

section \<open>Properties\<close>

text \<open>
  C20. The hash table is a map with exactly this precision: from an initialised table, whose padding was zero, every sequence of insertions returns, each with the address
  of a new node or with \<open>NULL\<close> when the heap is full, and afterwards the lookup of any key returns the newest node whose
  key is in the same bucket and agrees in the lower 32 bits, and \<open>NULL\<close> if there is none. A node keeps its key and value.
\<close>

theorem hash_table_spec:
  assumes "vmheap_rep E v L" "length hash = BUCKETS" "\<forall>l\<in>set hash. pad (llock l) = 0"
  shows "\<exists>rs q. ins_run (hash_ins vmalloc) kvs (hash_init hash, \<lparr>lnodes = Map.empty, lheap = v\<rparr>) = Some (rs, q) \<and> map snd rs = kvs \<and>
    (\<forall>k. \<exists>q'. hash_look k q = Some (found (find (\<lambda>e. bucket_eq k (entry_key e)) (rev (filter (\<lambda>e. fst e \<noteq> 0) rs))), q')) \<and>
    (\<forall>e\<in>set rs. fst e \<noteq> 0 \<longrightarrow> node_entry q (fst e) = e)"
proof -
  have "holds (vmheap_rep E) v {}" using assms(1) by (auto simp: holds_def)
  from vt.run_look[OF hash_init_rep[OF assms(2) this assms(3)]] show ?thesis .
qed

theorem hash_table_spec_witness:
  "\<exists>rs q. ins_run (hash_ins vmalloc) [(7, 16)]
      (hash_init (replicate BUCKETS \<lparr>lhead = 0, llock = kmutex_zero, lsize = 0\<rparr>), \<lparr>lnodes = Map.empty, lheap = vmheap_one (pm_boot kqueue_one)\<rparr>) = Some (rs, q) \<and>
    map snd rs = [(7, 16)]"
  using hash_table_spec[OF vmheap_one_rep[OF pmm_rep_wf[OF pm_boot_one(1)]], of "replicate BUCKETS \<lparr>lhead = 0, llock = kmutex_zero, lsize = 0\<rparr>" "[(7, 16)]"]
  by (auto simp: kmutex_zero_def)

end
