(* ===== verification/Rbt.thy ===== *)
theory Rbt
  imports Vmheap
begin

text \<open>
  The red-black tree of the kernel, \<open>src/klib/data_structure/rbt.c\<close>, as the code has it: nodes in a store that point to their
  parent and their two children, the child at index 1 being the right one. A color is only ever 0 or 1, so it is a truth
  value (\<open>True\<close> is \<open>RBT_RED\<close>), and so is a direction (\<open>True\<close> is \<open>RBT_RIGHT\<close>). Access to an address
  that holds no node faults (\<open>None\<close>).
\<close>

section \<open>Nodes\<close>

record rbt_node =
  rkey :: u64
  rvalue :: ptr
  color :: bool
  parent :: ptr
  children :: "bool \<Rightarrow> ptr"

definition sizeof_rbt_node :: nat where
  "sizeof_rbt_node = 41"

record rbt_tree =
  rbt_root :: ptr
  rbt_leftmost :: ptr
  rbt_lock :: kmutex

type_synonym rstore = "ptr \<rightharpoonup> rbt_node"

text \<open>The variable, the nodes and the allocator; \<open>rraw\<close> is what the memory of a block holds when it is handed out.\<close>

record 's rbt =
  rtree :: rbt_tree
  rnodes :: rstore
  rraw :: "ptr \<Rightarrow> rbt_node"
  rheap :: 's

definition upd :: "ptr \<Rightarrow> (rbt_node \<Rightarrow> rbt_node) \<Rightarrow> rstore \<Rightarrow> rstore option" where
  "upd a f N = (case N a of None \<Rightarrow> None | Some n \<Rightarrow> Some (N(a \<mapsto> f n)))"

abbreviation set_child :: "ptr \<Rightarrow> bool \<Rightarrow> ptr \<Rightarrow> rstore \<Rightarrow> rstore option" where
  "set_child a d q \<equiv> upd a (\<lambda>n. n\<lparr>children := (children n)(d := q)\<rparr>)"

abbreviation set_parent :: "ptr \<Rightarrow> ptr \<Rightarrow> rstore \<Rightarrow> rstore option" where
  "set_parent a q \<equiv> upd a (\<lambda>n. n\<lparr>parent := q\<rparr>)"

abbreviation set_color :: "ptr \<Rightarrow> bool \<Rightarrow> rstore \<Rightarrow> rstore option" where
  "set_color a c \<equiv> upd a (\<lambda>n. n\<lparr>color := c\<rparr>)"

definition is_red :: "rstore \<Rightarrow> ptr \<Rightarrow> bool option" where
  "is_red N p = (if p = 0 then Some False else do { n \<leftarrow> N p; Some (color n) })"

section \<open>Search\<close>

definition rbt_init :: "rbt_tree \<Rightarrow> rbt_tree" where
  "rbt_init r = r\<lparr>rbt_leftmost := 0, rbt_root := 0, rbt_lock := kmutex_init (rbt_lock r)\<rparr>"

partial_function (option) rbt_search_loop :: "rstore \<Rightarrow> u64 \<Rightarrow> ptr \<Rightarrow> ptr option" where
  "rbt_search_loop N key p =
     (if p = 0 then Some 0
      else do {
        n \<leftarrow> N p;
        if rkey n = key then Some p else rbt_search_loop N key (children n (key > rkey n))
      })"

definition rbt_search :: "u64 \<Rightarrow> 's rbt \<Rightarrow> (ptr \<times> 's rbt) option" where
  "rbt_search key r = do {
     l \<leftarrow> kmutex_lock (rbt_lock (rtree r));
     p \<leftarrow> rbt_search_loop (rnodes r) key (rbt_root (rtree r));
     (l', woken) \<leftarrow> kmutex_unlock l;
     Some (p, r\<lparr>rtree := (rtree r)\<lparr>rbt_lock := l'\<rparr>\<rparr>)
   }"

partial_function (option) leftmost_loop :: "rstore \<Rightarrow> ptr \<Rightarrow> ptr option" where
  "leftmost_loop N p = do {
     n \<leftarrow> N p;
     if children n False \<noteq> 0 then leftmost_loop N (children n False) else Some p
   }"

definition rbt_minimum :: "'s rbt \<Rightarrow> (ptr \<times> 's rbt) option" where
  "rbt_minimum r =
     (if rbt_root (rtree r) = 0 then Some (0, r)
      else do {
        l \<leftarrow> kmutex_lock (rbt_lock (rtree r));
        p \<leftarrow> leftmost_loop (rnodes r) (rbt_root (rtree r));
        (l', woken) \<leftarrow> kmutex_unlock l;
        Some (p, r\<lparr>rtree := (rtree r)\<lparr>rbt_lock := l'\<rparr>\<rparr>)
      })"

section \<open>Rotation\<close>

definition rotate :: "ptr \<Rightarrow> rstore \<Rightarrow> ptr \<Rightarrow> bool \<Rightarrow> (ptr \<times> rstore) option" where
  "rotate root N x dir = do {
     nx \<leftarrow> N x;
     let pivot = children nx (\<not> dir);
     np \<leftarrow> N pivot;
     let mid = children np dir;
     N1 \<leftarrow> set_child x (\<not> dir) mid N;
     N2 \<leftarrow> (if mid \<noteq> 0 then set_parent mid x N1 else Some N1);
     N3 \<leftarrow> set_parent pivot (parent nx) N2;
     (root', N4) \<leftarrow> (if parent nx = 0 then Some (pivot, N3)
       else do {
         pn \<leftarrow> N3 (parent nx);
         N4 \<leftarrow> set_child (parent nx) (if x = children pn dir then dir else \<not> dir) pivot N3;
         Some (root, N4)
       });
     N5 \<leftarrow> set_child pivot dir x N4;
     N6 \<leftarrow> set_parent x pivot N5;
     Some (root', N6)
   }"

section \<open>Insertion\<close>

definition rbt_create_node :: "(nat \<Rightarrow> 's \<Rightarrow> (ptr \<times> 's) option) \<Rightarrow> ptr \<Rightarrow> u64 \<Rightarrow> 's rbt \<Rightarrow> (ptr \<times> 's rbt) option" where
  "rbt_create_node alloc par key r = do {
     (ret, h) \<leftarrow> alloc sizeof_rbt_node (rheap r);
     if ret = 0 then None
     else Some (ret, r\<lparr>rheap := h, rnodes := (rnodes r)(ret \<mapsto> (rraw r ret)\<lparr>rkey := key, color := True, children := (\<lambda>_. 0), parent := par\<rparr>)\<rparr>)
   }"

text \<open>The second half of a round, when the uncle is black: \<open>ptr\<close> is turned to the outside first.\<close>

definition insert_turn :: "ptr \<Rightarrow> rstore \<Rightarrow> ptr \<Rightarrow> ptr \<Rightarrow> bool \<Rightarrow> (ptr \<times> rstore \<times> ptr \<times> ptr) option" where
  "insert_turn root N p pp dir = do {
     pn \<leftarrow> N pp;
     if p = children pn (\<not> dir) then do {
       (root', N') \<leftarrow> rotate root N pp dir;
       m \<leftarrow> N' pp;
       Some (root', N', pp, parent m)
     } else Some (root, N, p, pp)
   }"

definition swap_color :: "ptr \<Rightarrow> ptr \<Rightarrow> rstore \<Rightarrow> rstore option" where
  "swap_color a b N = do {
     na \<leftarrow> N a;
     nb \<leftarrow> N b;
     N1 \<leftarrow> set_color a (color nb) N;
     set_color b (color na) N1
   }"

partial_function (option) insert_loop :: "ptr \<Rightarrow> rstore \<Rightarrow> ptr \<Rightarrow> (ptr \<times> rstore) option" where
  "insert_loop root N p =
     (if p = root then Some (root, N)
      else do {
        n \<leftarrow> N p;
        if \<not> color n then Some (root, N)
        else do {
          pn \<leftarrow> N (parent n);
          if \<not> color pn then Some (root, N)
          else do {
            let pp = parent n;
            let g = parent pn;
            gn \<leftarrow> N g;
            let dir = (pp = children gn True);
            let uncle = children gn (\<not> dir);
            red \<leftarrow> is_red N uncle;
            if red then do {
              N1 \<leftarrow> set_color pp False N;
              N2 \<leftarrow> set_color uncle False N1;
              N3 \<leftarrow> set_color g True N2;
              insert_loop root N3 g
            } else do {
              (root1, N1, p1, pp1) \<leftarrow> insert_turn root N p pp dir;
              n1 \<leftarrow> N1 p1;
              m1 \<leftarrow> N1 (parent n1);
              (root2, N2) \<leftarrow> rotate root1 N1 (parent m1) (\<not> dir);
              N3 \<leftarrow> swap_color pp1 g N2;
              insert_loop root2 N3 pp1
            }
          }
        }
      })"

definition insert_fixup :: "ptr \<Rightarrow> rstore \<Rightarrow> ptr \<Rightarrow> (ptr \<times> rstore) option" where
  "insert_fixup root N p = do {
     (root', N1) \<leftarrow> insert_loop root N p;
     N2 \<leftarrow> set_color root' False N1;
     Some (root', N2)
   }"

text \<open>The way down: the node with the key, or the last node and the direction in which it has no child.\<close>

partial_function (option) insert_find :: "rstore \<Rightarrow> u64 \<Rightarrow> ptr \<Rightarrow> ptr \<Rightarrow> bool \<Rightarrow> (ptr \<times> ptr \<times> bool) option" where
  "insert_find N key p par dir =
     (if p = 0 then Some (0, par, dir)
      else do {
        n \<leftarrow> N p;
        if rkey n = key then Some (p, p, dir)
        else insert_find N key (children n (key > rkey n)) p (key > rkey n)
      })"

definition rbt_insert :: "(nat \<Rightarrow> 's \<Rightarrow> (ptr \<times> 's) option) \<Rightarrow> u64 \<Rightarrow> 's rbt \<Rightarrow> (ptr \<times> 's rbt) option" where
  "rbt_insert alloc key r = do {
     l \<leftarrow> kmutex_lock (rbt_lock (rtree r));
     (ret, r') \<leftarrow>
       (if rbt_root (rtree r) = 0 then do {
          (ret, r1) \<leftarrow> rbt_create_node alloc 0 key r;
          N \<leftarrow> set_color ret False (rnodes r1);
          Some (ret, r1\<lparr>rnodes := N, rtree := (rtree r1)\<lparr>rbt_root := ret\<rparr>\<rparr>)
        } else do {
          (p, par, dir) \<leftarrow> insert_find (rnodes r) key (rbt_root (rtree r)) 0 False;
          if p \<noteq> 0 then Some (p, r)
          else do {
            (ret, r1) \<leftarrow> rbt_create_node alloc par key r;
            N1 \<leftarrow> (if par \<noteq> 0 then set_child par dir ret (rnodes r1) else Some (rnodes r1));
            (root, N2) \<leftarrow> insert_fixup (rbt_root (rtree r1)) N1 ret;
            Some (ret, r1\<lparr>rnodes := N2, rtree := (rtree r1)\<lparr>rbt_root := root\<rparr>\<rparr>)
          }
        });
     (l', woken) \<leftarrow> kmutex_unlock l;
     Some (ret, r'\<lparr>rtree := (rtree r')\<lparr>rbt_lock := l'\<rparr>\<rparr>)
   }"

section \<open>Deletion\<close>

partial_function (option) delete_fixup :: "ptr \<Rightarrow> rstore \<Rightarrow> ptr \<Rightarrow> bool \<Rightarrow> (ptr \<times> rstore) option" where
  "delete_fixup root N e dir =
     (if e = 0 then Some (root, N)
      else do {
        en \<leftarrow> N e;
        let sib = children en (\<not> dir);
        red \<leftarrow> is_red N sib;
        if red then do {
          (root1, N1) \<leftarrow> rotate root N e dir;
          N2 \<leftarrow> set_color e True N1;
          N3 \<leftarrow> set_color sib False N2;
          delete_fixup root1 N3 e dir
        } else do {
          sn \<leftarrow> N sib;
          far \<leftarrow> is_red N (children sn (\<not> dir));
          if far then do {
            N1 \<leftarrow> set_color (children sn (\<not> dir)) False N;
            N2 \<leftarrow> set_color sib (color en) N1;
            N3 \<leftarrow> set_color e False N2;
            rotate root N3 e dir
          } else do {
            near \<leftarrow> is_red N (children sn dir);
            if near then do {
              N1 \<leftarrow> set_color (children sn dir) False N;
              N2 \<leftarrow> set_color sib True N1;
              (root1, N3) \<leftarrow> rotate root N2 sib (\<not> dir);
              delete_fixup root1 N3 e dir
            } else if color en then do {
              N1 \<leftarrow> set_color e False N;
              N2 \<leftarrow> set_color sib True N1;
              Some (root, N2)
            } else do {
              N1 \<leftarrow> set_color sib True N;
              dir' \<leftarrow> (if parent en \<noteq> 0 then do { pn \<leftarrow> N1 (parent en); Some (e = children pn True) } else Some dir);
              delete_fixup root N1 (parent en) dir'
            }
          }
        }
      })"

text \<open>The node that is really taken out: with two children it is the successor, whose key and value move into the node.\<close>

definition delete_target :: "rstore \<Rightarrow> ptr \<Rightarrow> (rstore \<times> ptr) option" where
  "delete_target N d = do {
     dn \<leftarrow> N d;
     if children dn False \<noteq> 0 \<and> children dn True \<noteq> 0 then do {
       s \<leftarrow> leftmost_loop N (children dn True);
       sn \<leftarrow> N s;
       N1 \<leftarrow> upd d (\<lambda>n. n\<lparr>rkey := rkey sn, rvalue := rvalue sn\<rparr>) N;
       Some (N1, s)
     } else Some (N, d)
   }"

text \<open>Its only child, or \<open>NULL\<close>, takes its place.\<close>

definition delete_unlink :: "ptr \<Rightarrow> rstore \<Rightarrow> ptr \<Rightarrow> (ptr \<times> rstore \<times> ptr \<times> bool) option" where
  "delete_unlink root N d = do {
     dn \<leftarrow> N d;
     let promoted = children dn (children dn False = 0);
     (root1, N1, dir) \<leftarrow> (if parent dn = 0 then Some (promoted, N, False)
       else do {
         pn \<leftarrow> N (parent dn);
         let dir = (d = children pn True);
         N1 \<leftarrow> set_child (parent dn) dir promoted N;
         Some (root, N1, dir)
       });
     N2 \<leftarrow> (if promoted \<noteq> 0 then set_parent promoted (parent dn) N1 else Some N1);
     Some (root1, N2, promoted, dir)
   }"

text \<open>The target leaves the tree and the heap; the colors are repaired where a black node is missing.\<close>

definition delete_out :: "(ptr \<Rightarrow> 's \<Rightarrow> 's option) \<Rightarrow> ptr \<Rightarrow> 's rbt \<Rightarrow> 's rbt option" where
  "delete_out dealloc d r = do {
     dn \<leftarrow> rnodes r d;
     (root, N2, promoted, dir) \<leftarrow> delete_unlink (rbt_root (rtree r)) (rnodes r) d;
     red \<leftarrow> is_red N2 promoted;
     if color dn \<noteq> red then do {
       N3 \<leftarrow> (if \<not> color dn then upd promoted (\<lambda>n. n\<lparr>color := color n \<noteq> True\<rparr>) N2 else Some N2);
       h \<leftarrow> dealloc d (rheap r);
       Some (r\<lparr>rnodes := N3(d := None), rheap := h, rtree := (rtree r)\<lparr>rbt_root := root\<rparr>\<rparr>)
     } else do {
       h \<leftarrow> dealloc d (rheap r);
       N3 \<leftarrow> (if parent dn \<noteq> 0 then set_child (parent dn) dir 0 (N2(d := None)) else Some (N2(d := None)));
       (root', N4) \<leftarrow> delete_fixup root N3 (parent dn) dir;
       Some (r\<lparr>rnodes := N4, rheap := h, rtree := (rtree r)\<lparr>rbt_root := root'\<rparr>\<rparr>)
     }
   }"

definition rbt_delete_node :: "(ptr \<Rightarrow> 's \<Rightarrow> 's option) \<Rightarrow> ptr \<Rightarrow> 's rbt \<Rightarrow> 's rbt option" where
  "rbt_delete_node dealloc to_delete r = do {
     (N1, d) \<leftarrow> delete_target (rnodes r) to_delete;
     delete_out dealloc d (r\<lparr>rnodes := N1\<rparr>)
   }"

definition rbt_delete :: "(ptr \<Rightarrow> 's \<Rightarrow> 's option) \<Rightarrow> ptr \<Rightarrow> 's rbt \<Rightarrow> 's rbt option" where
  "rbt_delete dealloc to_delete r = do {
     l \<leftarrow> kmutex_lock (rbt_lock (rtree r));
     r' \<leftarrow> (if to_delete \<noteq> 0 then rbt_delete_node dealloc to_delete r else Some r);
     (l', woken) \<leftarrow> kmutex_unlock l;
     Some (r'\<lparr>rtree := (rtree r')\<lparr>rbt_lock := l'\<rparr>\<rparr>)
   }"

definition rbt_delete_key :: "(ptr \<Rightarrow> 's \<Rightarrow> 's option) \<Rightarrow> u64 \<Rightarrow> 's rbt \<Rightarrow> 's rbt option" where
  "rbt_delete_key dealloc key r = do {
     (p, r1) \<leftarrow> rbt_search key r;
     rbt_delete dealloc p r1
   }"

section \<open>Clearing\<close>

text \<open>A node is freed after its children; the values are blocks of the allocator too.\<close>

partial_function (option) rbt_clear :: "(ptr \<Rightarrow> 's \<Rightarrow> 's option) \<Rightarrow> ptr \<Rightarrow> rstore \<Rightarrow> 's \<Rightarrow> (rstore \<times> 's) option" where
  "rbt_clear dealloc p N h =
     (if p = 0 then Some (N, h)
      else do {
        n \<leftarrow> N p;
        (N1, h1) \<leftarrow> rbt_clear dealloc (children n False) N h;
        n1 \<leftarrow> N1 p;
        (N2, h2) \<leftarrow> rbt_clear dealloc (children n1 True) N1 h1;
        n2 \<leftarrow> N2 p;
        h3 \<leftarrow> dealloc (rvalue n2) h2;
        h4 \<leftarrow> dealloc p h3;
        Some (N2(p := None), h4)
      })"

definition rbt_clear_tree :: "(ptr \<Rightarrow> 's \<Rightarrow> 's option) \<Rightarrow> 's rbt \<Rightarrow> 's rbt option" where
  "rbt_clear_tree dealloc r = do {
     l \<leftarrow> kmutex_lock (rbt_lock (rtree r));
     (N, h) \<leftarrow> rbt_clear dealloc (rbt_root (rtree r)) (rnodes r) (rheap r);
     (l', woken) \<leftarrow> kmutex_unlock l;
     Some (r\<lparr>rnodes := N, rheap := h, rtree := (rtree r)\<lparr>rbt_lock := l'\<rparr>\<rparr>)
   }"

end
