(* ===== verification/Rbt_Tree.thy ===== *)
theory Rbt_Tree
  imports Rbt
begin

text \<open>
  The trees that a store of nodes stands for, and trees with a hole. A tree carries the addresses of its nodes; \<open>trep\<close>
  relates a store with a subtree in focus and the path from it to the root, so that going up and down is
  a change of view (\<open>rep_Cons\<close>), and each pointer operation of the code is a lemma about the subtree
  in focus. \<open>nd d\<close> is a node with its child in direction \<open>d\<close> first: every lemma holds for both directions.
\<close>

section \<open>Trees\<close>

text \<open>Updated stores stay as they are inside predicates; only their values at an address are computed.\<close>

declare fun_upd_apply [simp del] fun_upd_same [simp] fun_upd_other [simp]

datatype tree = Lf | Nd ptr bool u64 ptr tree tree

fun root_of :: "tree \<Rightarrow> ptr" where
  "root_of Lf = 0"
| "root_of (Nd a c k v l r) = a"

definition nd :: "bool \<Rightarrow> ptr \<Rightarrow> bool \<Rightarrow> u64 \<Rightarrow> ptr \<Rightarrow> tree \<Rightarrow> tree \<Rightarrow> tree" where
  "nd d a c k v x y = (if d then Nd a c k v y x else Nd a c k v x y)"

lemma nd_flip: "nd (\<not> d) a c k v x y = nd d a c k v y x"
  by (simp add: nd_def)

lemma tree_nd: "t \<noteq> Lf \<Longrightarrow> \<exists>a c k v x y. t = nd d a c k v x y"
  by (cases t; cases d) (auto simp: nd_def)

lemma root_of_nd [simp]: "root_of (nd d a c k v x y) = a"
  by (simp add: nd_def)

lemma nd_not_Lf [simp]: "nd d a c k v x y \<noteq> Lf" "Lf \<noteq> nd d a c k v x y"
  by (simp_all add: nd_def)

fun addrs :: "tree \<Rightarrow> ptr set" where
  "addrs Lf = {}"
| "addrs (Nd a c k v l r) = insert a (addrs l \<union> addrs r)"

fun sep :: "tree \<Rightarrow> bool" where
  "sep Lf \<longleftrightarrow> True"
| "sep (Nd a c k v l r) \<longleftrightarrow> a \<notin> addrs l \<and> a \<notin> addrs r \<and> addrs l \<inter> addrs r = {} \<and> sep l \<and> sep r"

fun tr :: "rstore \<Rightarrow> ptr \<Rightarrow> tree \<Rightarrow> bool" where
  "tr N par Lf \<longleftrightarrow> True"
| "tr N par (Nd a c k v l r) \<longleftrightarrow> a \<noteq> 0 \<and>
     N a = Some \<lparr>rkey = k, rvalue = v, color = c, parent = par, children = (\<lambda>e. if e then root_of r else root_of l)\<rparr> \<and>
     tr N a l \<and> tr N a r"

lemma addrs_nd [simp]: "addrs (nd d a c k v x y) = insert a (addrs x \<union> addrs y)"
  by (auto simp: nd_def)

lemma sep_nd [simp]: "sep (nd d a c k v x y) \<longleftrightarrow> a \<notin> addrs x \<and> a \<notin> addrs y \<and> addrs x \<inter> addrs y = {} \<and> sep x \<and> sep y"
  by (auto simp: nd_def)

lemma tr_nd [simp]: "tr N par (nd d a c k v x y) \<longleftrightarrow> a \<noteq> 0 \<and>
     N a = Some \<lparr>rkey = k, rvalue = v, color = c, parent = par, children = (\<lambda>e. if e = d then root_of x else root_of y)\<rparr> \<and>
     tr N a x \<and> tr N a y"
proof -
  have "(\<lambda>e. if e = d then root_of x else root_of y) = (\<lambda>e. if e then root_of (if d then x else y) else root_of (if d then y else x))"
    by (auto simp: fun_eq_iff)
  then show ?thesis by (auto simp: nd_def)
qed

lemma tr_cong: "(\<And>a. a \<in> addrs t \<Longrightarrow> N' a = N a) \<Longrightarrow> tr N' par t = tr N par t"
  by (induction t arbitrary: par) auto

lemma tr_upd [simp]: "a \<notin> addrs t \<Longrightarrow> tr (N(a := n)) par t = tr N par t"
  by (rule tr_cong) (auto simp: fun_upd_apply)

lemma tr_nonnull: "tr N par t \<Longrightarrow> 0 \<notin> addrs t"
  by (induction t arbitrary: par) auto

lemma tr_dom: "tr N par t \<Longrightarrow> addrs t \<subseteq> dom N"
  by (induction t arbitrary: par) (simp_all, blast)

lemma root_of_0: "tr N par t \<Longrightarrow> root_of t = 0 \<longleftrightarrow> t = Lf"
  by (cases t) auto

lemma root_of_in: "t \<noteq> Lf \<Longrightarrow> root_of t \<in> addrs t"
  by (cases t) auto

lemma root_of_neq: "a \<notin> addrs t \<Longrightarrow> a \<noteq> 0 \<Longrightarrow> root_of t \<noteq> a"
  by (cases t) auto

section \<open>Paths to the root\<close>

type_synonym frame = "bool \<times> ptr \<times> bool \<times> u64 \<times> ptr \<times> tree"

fun plug :: "tree \<Rightarrow> frame list \<Rightarrow> tree" where
  "plug t [] = t"
| "plug t ((d, a, c, k, v, y) # fs) = plug (nd d a c k v t y) fs"

fun par_of :: "frame list \<Rightarrow> ptr" where
  "par_of [] = 0"
| "par_of ((d, a, c, k, v, y) # fs) = a"

fun top_of :: "ptr \<Rightarrow> frame list \<Rightarrow> ptr" where
  "top_of p [] = p"
| "top_of p ((d, a, c, k, v, y) # fs) = top_of a fs"

fun faddrs :: "frame list \<Rightarrow> ptr set" where
  "faddrs [] = {}"
| "faddrs ((d, a, c, k, v, y) # fs) = insert a (addrs y \<union> faddrs fs)"

fun fsep :: "frame list \<Rightarrow> bool" where
  "fsep [] \<longleftrightarrow> True"
| "fsep ((d, a, c, k, v, y) # fs) \<longleftrightarrow> a \<notin> addrs y \<and> a \<notin> faddrs fs \<and> addrs y \<inter> faddrs fs = {} \<and> sep y \<and> fsep fs"

fun cx :: "rstore \<Rightarrow> ptr \<Rightarrow> frame list \<Rightarrow> bool" where
  "cx N q [] \<longleftrightarrow> True"
| "cx N q ((d, a, c, k, v, y) # fs) \<longleftrightarrow> a \<noteq> 0 \<and>
     N a = Some \<lparr>rkey = k, rvalue = v, color = c, parent = par_of fs, children = (\<lambda>e. if e = d then q else root_of y)\<rparr> \<and>
     tr N a y \<and> cx N a fs"

lemma cx_cong: "(\<And>a. a \<in> faddrs fs \<Longrightarrow> N' a = N a) \<Longrightarrow> cx N' q fs = cx N q fs"
proof (induction fs arbitrary: q)
  case (Cons f fs)
  obtain d a c k v y where f: "f = (d, a, c, k, v, y)" by (cases f)
  have "tr N' a y = tr N a y" using Cons.prems f by (intro tr_cong) auto
  then show ?case using Cons f by auto
qed simp

lemma cx_upd [simp]: "a \<notin> faddrs fs \<Longrightarrow> cx (N(a := n)) q fs = cx N q fs"
  by (rule cx_cong) (auto simp: fun_upd_apply)

definition trep :: "ptr \<Rightarrow> rstore \<Rightarrow> tree \<Rightarrow> frame list \<Rightarrow> bool" where
  "trep root N t fs \<longleftrightarrow> root = top_of (root_of t) fs \<and> tr N (par_of fs) t \<and> cx N (root_of t) fs \<and>
     sep t \<and> fsep fs \<and> addrs t \<inter> faddrs fs = {}"

lemma rep_Cons: "trep root N t ((d, a, c, k, v, y) # fs) \<longleftrightarrow> trep root N (nd d a c k v t y) fs"
  by (auto simp: trep_def)

lemma rep_plug: "trep root N (plug t fs) [] \<longleftrightarrow> trep root N t fs"
proof (induction fs arbitrary: t)
  case (Cons f fs)
  then show ?case by (cases f) (simp add: rep_Cons)
qed simp

lemma rep_flip: "trep root N t ((d, a, c, k, v, y) # fs) \<longleftrightarrow> trep root N y ((\<not> d, a, c, k, v, t) # fs)"
  by (simp add: rep_Cons nd_flip)

lemma addrs_plug: "addrs (plug t fs) = addrs t \<union> faddrs fs"
proof (induction fs arbitrary: t)
  case (Cons f fs)
  then show ?case by (cases f) auto
qed simp

text \<open>Any node of a tree can be brought into focus.\<close>

lemma focus_exists: "a \<in> addrs t \<Longrightarrow> \<exists>s fs. plug s fs = t \<and> root_of s = a \<and> s \<noteq> Lf"
proof (induction t)
  case (Nd b c k v l r)
  have up: "plug s (fs @ [f]) = Nd b c k v l r" if "plug s fs = x" "plug x [f] = Nd b c k v l r" for s fs f x
  proof -
    have "plug s (fs @ gs) = plug (plug s fs) gs" for gs
      by (induction s fs rule: plug.induct) auto
    then show ?thesis using that by simp
  qed
  consider "a = b" | "a \<in> addrs l" | "a \<in> addrs r" using Nd.prems by auto
  then show ?case
  proof cases
    case 1
    then show ?thesis by (intro exI[of _ "Nd b c k v l r"] exI[of _ "[]"]) simp
  next
    case 2
    then obtain s fs where s: "plug s fs = l" "root_of s = a" "s \<noteq> Lf" using Nd.IH(1) by blast
    have "plug l [(False, b, c, k, v, r)] = Nd b c k v l r" by (simp add: nd_def)
    from up[OF s(1) this] show ?thesis using s(2,3) by blast
  next
    case 3
    then obtain s fs where s: "plug s fs = r" "root_of s = a" "s \<noteq> Lf" using Nd.IH(2) by blast
    have "plug r [(True, b, c, k, v, l)] = Nd b c k v l r" by (simp add: nd_def)
    from up[OF s(1) this] show ?thesis using s(2,3) by blast
  qed
qed simp

section \<open>Pointer operations on the subtree in focus\<close>

lemma fun_upd_dir [simp]:
  "(\<lambda>e. if e = d then x else y)(d := z) = (\<lambda>e. if e = d then z else y)"
  "(\<lambda>e. if e = d then x else y)((\<not> d) := z) = (\<lambda>e. if e = d then x else z)"
  by (auto simp: fun_eq_iff fun_upd_apply)

lemma dir_neq [simp]: "((\<not> d) = d) = False" "(d = (\<not> d)) = False"
  by auto

text \<open>The child of a node that a path descends into, and the parent of a subtree, can be replaced.\<close>

lemma tr_reparent:
  assumes "tr N par t" "sep t"
  shows "\<exists>N'. (if root_of t \<noteq> 0 then set_parent (root_of t) q N else Some N) = Some N' \<and> tr N' q t \<and>
    (\<forall>a. a \<notin> addrs t \<longrightarrow> N' a = N a) \<and> dom N' = dom N"
  using assms by (cases t) (auto simp: upd_def)

lemma cx_hook:
  assumes "cx N p fs" "fsep fs" "p \<noteq> 0" "p \<notin> faddrs fs" "q \<noteq> 0"
  shows "\<exists>N'. (if par_of fs = 0 then Some (q, N)
       else do {
         pn \<leftarrow> N (par_of fs);
         N4 \<leftarrow> set_child (par_of fs) (if p = children pn dir then dir else \<not> dir) q N;
         Some (top_of p fs, N4)
       }) = Some (top_of q fs, N') \<and> cx N' q fs \<and> (\<forall>a. a \<notin> faddrs fs \<longrightarrow> N' a = N a) \<and> dom N' = dom N"
proof (cases fs)
  case Nil
  then show ?thesis by simp
next
  case (Cons f gs)
  obtain e g cg kg vg w where f: "f = (e, g, cg, kg, vg, w)" by (cases f)
  have "root_of w \<noteq> p" using assms Cons f by (intro root_of_neq) auto
  then show ?thesis
    using assms Cons f by (cases "e = dir") (auto simp: upd_def)
qed

lemma rotate_ok:
  assumes r: "trep root N (nd d a c k v x (nd d p c' k' v' y z)) fs"
  shows "\<exists>root' N'. rotate root N a d = Some (root', N') \<and> trep root' N' (nd d p c' k' v' (nd d a c k v x y) z) fs \<and> dom N' = dom N"
proof -
  let ?na = "\<lparr>rkey = k, rvalue = v, color = c, parent = par_of fs, children = (\<lambda>e. if e = d then root_of x else p)\<rparr>"
  let ?np = "\<lparr>rkey = k', rvalue = v', color = c', parent = a, children = (\<lambda>e. if e = d then root_of y else root_of z)\<rparr>"
  have N: "N a = Some ?na" "N p = Some ?np" "a \<noteq> 0" "p \<noteq> 0" "a \<noteq> p"
    and t: "tr N a x" "tr N p y" "tr N p z" "cx N a fs" "root = top_of a fs"
    and s: "sep x" "sep y" "sep z" "fsep fs"
    and na: "a \<notin> addrs x" "a \<notin> addrs y" "a \<notin> addrs z" "a \<notin> faddrs fs"
    and np: "p \<notin> addrs x" "p \<notin> addrs y" "p \<notin> addrs z" "p \<notin> faddrs fs"
    and dj: "addrs x \<inter> addrs y = {}" "addrs x \<inter> addrs z = {}" "addrs y \<inter> addrs z = {}"
      "addrs x \<inter> faddrs fs = {}" "addrs y \<inter> faddrs fs = {}" "addrs z \<inter> faddrs fs = {}"
    using r by (auto simp: trep_def)
  define N1 where "N1 = N(a \<mapsto> ?na\<lparr>children := (\<lambda>e. if e = d then root_of x else root_of y)\<rparr>)"
  have 1: "set_child a (\<not> d) (root_of y) N = Some N1" using N(1) by (simp add: upd_def N1_def)
  have "tr N1 p y" using t(2) na(2) by (simp add: N1_def)
  from tr_reparent[OF this s(2), of a] obtain N2 where
    2: "(if root_of y \<noteq> 0 then set_parent (root_of y) a N1 else Some N1) = Some N2" "tr N2 a y"
      "\<And>b. b \<notin> addrs y \<Longrightarrow> N2 b = N1 b" "dom N2 = dom N1" by blast
  define N3 where "N3 = N2(p \<mapsto> ?np\<lparr>parent := par_of fs\<rparr>)"
  have 3: "set_parent p (par_of fs) N2 = Some N3" using N(2,5) np(2) 2(3)[of p] by (simp add: upd_def N3_def N1_def)
  have k3: "N3 b = N b" if "b \<noteq> a" "b \<noteq> p" "b \<notin> addrs y" for b using that 2(3)[of b] by (simp add: N3_def N1_def)
  have outy: "b \<notin> addrs y \<and> b \<noteq> a \<and> b \<noteq> p" if "b \<in> faddrs fs \<or> b \<in> addrs x \<or> b \<in> addrs z" for b
    using that na np dj by blast
  have "cx N3 a fs = cx N a fs" using k3 outy by (intro cx_cong) simp
  with cx_hook[of N3 a fs p d] obtain N4 where
    4: "(if par_of fs = 0 then Some (p, N3)
       else do {
         pn \<leftarrow> N3 (par_of fs);
         N4 \<leftarrow> set_child (par_of fs) (if a = children pn d then d else \<not> d) p N3;
         Some (root, N4)
       }) = Some (top_of p fs, N4)" "cx N4 p fs" "\<And>b. b \<notin> faddrs fs \<Longrightarrow> N4 b = N3 b" "dom N4 = dom N3"
    using t(4,5) s(4) N na by blast
  have c4: "N4 a = Some (?na\<lparr>children := (\<lambda>e. if e = d then root_of x else root_of y)\<rparr>)" "N4 p = Some (?np\<lparr>parent := par_of fs\<rparr>)"
    using 4(3) 2(3) na np N(5) by (simp_all add: N3_def N1_def)
  define N5 where "N5 = N4(p \<mapsto> ?np\<lparr>parent := par_of fs, children := (\<lambda>e. if e = d then a else root_of z)\<rparr>)"
  define N6 where "N6 = N5(a \<mapsto> ?na\<lparr>parent := p, children := (\<lambda>e. if e = d then root_of x else root_of y)\<rparr>)"
  have 5: "set_child p d a N4 = Some N5" "set_parent a p N5 = Some N6"
    using c4 N(5) by (simp_all add: upd_def N5_def N6_def)
  have "rotate root N a d = Some (top_of p fs, N6)"
    unfolding rotate_def
    by (simp only: N(1,2) Let_def bind.simps rbt_node.simps dir_neq if_True if_False simp_thms 1 2(1) 3 4(1) 5 prod.case root_of_nd)
  moreover have "trep (top_of p fs) N6 (nd d p c' k' v' (nd d a c k v x y) z) fs"
  proof -
    have keep: "N6 b = N b" if b: "b \<in> addrs x \<or> b \<in> addrs z" for b
    proof -
      have "b \<notin> faddrs fs" using b dj by blast
      then show ?thesis using 4(3)[of b] k3[of b] outy[of b] b by (simp add: N6_def N5_def)
    qed
    have "tr N6 a x" "tr N6 p z" using keep tr_cong[of x N6 N a] tr_cong[of z N6 N p] t(1,3) by simp_all
    moreover have "N6 b = N2 b" if b: "b \<in> addrs y" for b
    proof -
      have "b \<notin> faddrs fs" "b \<noteq> a" "b \<noteq> p" using b na np dj by blast+
      then show ?thesis using 4(3)[of b] by (simp add: N6_def N5_def N3_def)
    qed
    then have "tr N6 a y" using tr_cong[of y N6 N2 a] 2(2) by simp
    moreover have "cx N6 p fs" using 4(2) na np by (simp add: N6_def N5_def)
    ultimately show ?thesis
      using N s na np dj unfolding trep_def by (simp add: N6_def N5_def Int_Un_distrib2) auto
  qed
  moreover have "dom N6 = dom N" using N(1,2) 2(4) 4(4) by (auto simp: N6_def N5_def N3_def N1_def)
  ultimately show ?thesis by blast
qed

section \<open>Colors\<close>

fun paint :: "ptr \<Rightarrow> bool \<Rightarrow> tree \<Rightarrow> tree" where
  "paint b e Lf = Lf"
| "paint b e (Nd a c k v l r) = Nd a (if a = b then e else c) k v (paint b e l) (paint b e r)"

lemma paint_nd [simp]: "paint b e (nd d a c k v x y) = nd d a (if a = b then e else c) k v (paint b e x) (paint b e y)"
  by (simp add: nd_def)

lemma paint_id [simp]: "b \<notin> addrs t \<Longrightarrow> paint b e t = t"
  by (induction t) auto

lemma paint_simps [simp]: "root_of (paint b e t) = root_of t" "addrs (paint b e t) = addrs t" "sep (paint b e t) = sep t"
  "paint b e t = Lf \<longleftrightarrow> t = Lf"
proof -
  show "root_of (paint b e t) = root_of t" "paint b e t = Lf \<longleftrightarrow> t = Lf" by (cases t; simp)+
  show a: "addrs (paint b e t) = addrs t" for t by (induction t) auto
  show "sep (paint b e t) = sep t" by (induction t) (auto simp: a)
qed

lemma tr_paint:
  assumes "tr N par t" "sep t" "b \<in> addrs t"
  shows "\<exists>n. N b = Some n \<and> tr (N(b \<mapsto> n\<lparr>color := e\<rparr>)) par (paint b e t)"
  using assms
proof (induction t arbitrary: par)
  case (Nd a c k v l r)
  consider "a = b" | "b \<in> addrs l" "a \<noteq> b" "b \<notin> addrs r" | "b \<in> addrs r" "a \<noteq> b" "b \<notin> addrs l" using Nd.prems by auto
  then show ?case
  proof cases
    case 1
    have "tr (N(b \<mapsto> m)) b l" "tr (N(b \<mapsto> m)) b r" for m using Nd.prems 1 by simp_all
    then show ?thesis
      using Nd.prems 1 by (intro exI[of _ "\<lparr>rkey = k, rvalue = v, color = c, parent = par, children = (\<lambda>e. if e then root_of r else root_of l)\<rparr>"] conjI) (simp_all cong: if_cong)
  next
    case 2
    then obtain n where n: "N b = Some n" "tr (N(b \<mapsto> n\<lparr>color := e\<rparr>)) a (paint b e l)" using Nd.IH(1)[of a] Nd.prems by auto
    have "tr (N(b \<mapsto> m)) a r" for m using Nd.prems 2 by simp
    then show ?thesis using Nd.prems 2 n by (intro exI[of _ n] conjI) (simp_all cong: if_cong)
  next
    case 3
    then obtain n where n: "N b = Some n" "tr (N(b \<mapsto> n\<lparr>color := e\<rparr>)) a (paint b e r)" using Nd.IH(2)[of a] Nd.prems by auto
    have "tr (N(b \<mapsto> m)) a l" for m using Nd.prems 3 by simp
    then show ?thesis using Nd.prems 3 n by (intro exI[of _ n] conjI) (simp_all cong: if_cong)
  qed
qed simp

lemma set_color_ok:
  assumes r: "trep root N t fs" and b: "b \<in> addrs t"
  shows "\<exists>N'. set_color b e N = Some N' \<and> trep root N' (paint b e t) fs \<and> dom N' = dom N"
proof -
  have t: "tr N (par_of fs) t" "sep t" using r by (simp_all add: trep_def)
  obtain n where n: "N b = Some n" "tr (N(b \<mapsto> n\<lparr>color := e\<rparr>)) (par_of fs) (paint b e t)" using tr_paint[OF t b] by blast
  have "b \<notin> faddrs fs" using r b by (auto simp: trep_def)
  then show ?thesis using n r by (auto simp: trep_def upd_def)
qed

text \<open>What the code reads.\<close>

fun red :: "tree \<Rightarrow> bool" where
  "red Lf = False"
| "red (Nd a c k v l r) = c"

lemma red_nd [simp]: "red (nd d a c k v x y) = c"
  by (simp add: nd_def)

lemma is_red_ok: "tr N par t \<Longrightarrow> is_red N (root_of t) = Some (red t)"
  by (cases t) (auto simp: is_red_def)

lemma rep_node: "trep root N (nd d a c k v x y) fs \<Longrightarrow>
  N a = Some \<lparr>rkey = k, rvalue = v, color = c, parent = par_of fs, children = (\<lambda>e. if e = d then root_of x else root_of y)\<rparr> \<and> a \<noteq> 0"
  by (simp add: trep_def)

lemma top_of_in: "top_of b gs = b \<or> top_of b gs \<in> faddrs gs"
  by (induction b gs rule: top_of.induct) auto

lemma rep_top:
  assumes "trep root N t ((d, a, c, k, v, y) # fs)"
  shows "root \<notin> addrs t"
proof -
  have "root = top_of a fs" "a \<notin> addrs t" "addrs t \<inter> faddrs fs = {}" using assms by (auto simp: trep_def)
  then show ?thesis using top_of_in[of a fs] by auto
qed

section \<open>The invariants\<close>

fun bh :: "tree \<Rightarrow> nat" where
  "bh Lf = 0"
| "bh (Nd a c k v l r) = max (bh l) (bh r) + (if c then 0 else 1)"

fun invh :: "tree \<Rightarrow> bool" where
  "invh Lf \<longleftrightarrow> True"
| "invh (Nd a c k v l r) \<longleftrightarrow> bh l = bh r \<and> invh l \<and> invh r"

fun invc :: "tree \<Rightarrow> bool" where
  "invc Lf \<longleftrightarrow> True"
| "invc (Nd a c k v l r) \<longleftrightarrow> (c \<longrightarrow> \<not> red l \<and> \<not> red r) \<and> invc l \<and> invc r"

lemma inv_nd [simp]:
  "bh (nd d a c k v x y) = max (bh x) (bh y) + (if c then 0 else 1)"
  "invh (nd d a c k v x y) \<longleftrightarrow> bh x = bh y \<and> invh x \<and> invh y"
  "invc (nd d a c k v x y) \<longleftrightarrow> (c \<longrightarrow> \<not> red x \<and> \<not> red y) \<and> invc x \<and> invc y"
  by (auto simp: nd_def)

fun fred :: "frame list \<Rightarrow> bool" where
  "fred [] = False"
| "fred ((d, a, c, k, v, y) # fs) = c"

text \<open>The invariants of everything but the subtree in focus, for which a black height of \<open>h\<close> is expected.\<close>

fun finv :: "nat \<Rightarrow> frame list \<Rightarrow> bool" where
  "finv h [] \<longleftrightarrow> True"
| "finv h ((d, a, c, k, v, y) # fs) \<longleftrightarrow> invc y \<and> invh y \<and> bh y = h \<and> (c \<longrightarrow> \<not> red y \<and> fs \<noteq> [] \<and> \<not> fred fs) \<and>
     finv (h + (if c then 0 else 1)) fs"

lemma plug_inv:
  "finv (bh t) fs \<Longrightarrow> invc t \<Longrightarrow> invh t \<Longrightarrow> (red t \<Longrightarrow> \<not> fred fs) \<Longrightarrow>
   invc (plug t fs) \<and> invh (plug t fs) \<and> (fs \<noteq> [] \<longrightarrow> \<not> red (plug t fs))"
proof (induction fs arbitrary: t)
  case (Cons f fs)
  obtain d a c k v y where f: "f = (d, a, c, k, v, y)" by (cases f)
  let ?t = "nd d a c k v t y"
  have t: "invc y" "invh y" "bh y = bh t" "c \<longrightarrow> \<not> red y \<and> fs \<noteq> [] \<and> \<not> fred fs" "finv (bh t + (if c then 0 else 1)) fs"
    "c \<longrightarrow> \<not> red t" using Cons.prems f by auto
  have "invc ?t" "invh ?t" "bh ?t = bh t + (if c then 0 else 1)" using t Cons.prems(2,3) by auto
  then have "invc (plug ?t fs) \<and> invh (plug ?t fs) \<and> (fs \<noteq> [] \<longrightarrow> \<not> red (plug ?t fs))" using Cons.IH[of ?t] t by simp
  moreover have "fs = [] \<Longrightarrow> \<not> red (plug ?t fs)" using t(4) by simp
  ultimately show ?case unfolding f plug.simps by blast
qed simp

lemma unplug_inv:
  "invc (plug t fs) \<Longrightarrow> invh (plug t fs) \<Longrightarrow> \<not> red (plug t fs) \<Longrightarrow>
   finv (bh t) fs \<and> invc t \<and> invh t \<and> (red t \<longrightarrow> fs \<noteq> [] \<and> \<not> fred fs)"
proof (induction fs arbitrary: t)
  case (Cons f fs)
  obtain d a c k v y where f: "f = (d, a, c, k, v, y)" by (cases f)
  let ?t = "nd d a c k v t y"
  have "finv (bh ?t) fs \<and> invc ?t \<and> invh ?t \<and> (red ?t \<longrightarrow> fs \<noteq> [] \<and> \<not> fred fs)"
    by (rule Cons.IH) (use Cons.prems f in simp_all)
  then show ?case unfolding f by (cases c) auto
qed simp

section \<open>The contents\<close>

fun ino :: "tree \<Rightarrow> (ptr \<times> u64 \<times> ptr) list" where
  "ino Lf = []"
| "ino (Nd a c k v l r) = ino l @ (a, k, v) # ino r"

lemma ino_nd: "ino (nd d a c k v x y) = (if d then ino y @ (a, k, v) # ino x else ino x @ (a, k, v) # ino y)"
  by (simp add: nd_def)

lemma ino_paint [simp]: "ino (paint b e t) = ino t"
  by (induction t) auto

lemma ino_rotate: "ino (nd d p c' k' v' (nd d a c k v x y) z) = ino (nd d a c k v x (nd d p c' k' v' y z))"
  by (simp add: ino_nd)

lemma ino_nd_cong: "ino x = ino x' \<Longrightarrow> ino y = ino y' \<Longrightarrow> ino (nd d a c k v x y) = ino (nd d a c' k v x' y')"
  by (simp add: ino_nd)

fun pre :: "frame list \<Rightarrow> (ptr \<times> u64 \<times> ptr) list" where
  "pre [] = []"
| "pre ((d, a, c, k, v, y) # fs) = pre fs @ (if d then ino y @ [(a, k, v)] else [])"

fun post :: "frame list \<Rightarrow> (ptr \<times> u64 \<times> ptr) list" where
  "post [] = []"
| "post ((d, a, c, k, v, y) # fs) = (if d then [] else (a, k, v) # ino y) @ post fs"

lemma ino_plug: "ino (plug t fs) = pre fs @ ino t @ post fs"
proof (induction fs arbitrary: t)
  case (Cons f fs)
  then show ?case by (cases f) (simp add: ino_nd)
qed simp

lemma addrs_ino: "addrs t = fst ` set (ino t)"
  by (induction t) auto

end
