(* ===== verification/Rbt_Insert.thy ===== *)
theory Rbt_Insert
  imports Rbt_Tree
begin

text \<open>
  Insertion keeps the tree red-black: the repair loop terminates, whatever path it climbs, and leaves the sequence
  of the nodes as it is; the descent finds the place of the key.
\<close>

lemma red_cases: "red t \<Longrightarrow> \<exists>a k v x y. t = nd d a True k v x y"
  using tree_nd[of t d] red_nd by (cases "t = Lf") (simp, metis)

lemma black_cases: "t \<noteq> Lf \<Longrightarrow> \<not> red t \<Longrightarrow> \<exists>a k v x y. t = nd d a False k v x y"
  using tree_nd[of t d] red_nd by metis

section \<open>Reading the path\<close>

lemma rep_frame: "trep root N t ((d, a, c, k, v, y) # fs) \<Longrightarrow>
  N a = Some \<lparr>rkey = k, rvalue = v, color = c, parent = par_of fs, children = (\<lambda>e. if e = d then root_of t else root_of y)\<rparr> \<and> a \<noteq> 0"
  by (simp add: trep_def)

lemma dir_read:
  assumes "trep root N t ((d, a, c, k, v, y) # fs)" "t \<noteq> Lf" "N a = Some n"
  shows "(root_of t = children n True) = d"
proof -
  have "root_of t \<in> addrs t" using assms(2) by (rule root_of_in)
  then have "root_of t \<notin> addrs y" "root_of t \<noteq> 0" using assms(1) tr_nonnull[of N _ t] by (auto simp: trep_def)
  then have "root_of y \<noteq> root_of t" by (rule root_of_neq)
  then show ?thesis using rep_frame[OF assms(1)] assms(3) by auto
qed

section \<open>The last rotation\<close>

lemma insert_turn_ok:
  assumes r: "trep root N t ((d, pp, True, kp, vp, y) # fs)" and t: "red t" "invc t" "invh t"
    and y: "invc y" "invh y" "bh y = bh t" "\<not> red y"
  shows "\<exists>root1 N1 x p1 k1 v1 z. insert_turn root N (root_of t) pp dir = Some (root1, N1, root_of x, p1) \<and>
    trep root1 N1 x ((dir, p1, True, k1, v1, z) # fs) \<and> dom N1 = dom N \<and>
    red x \<and> invc x \<and> invh x \<and> invc z \<and> invh z \<and> bh x = bh t \<and> bh z = bh t \<and> \<not> red z \<and>
    ino (nd dir p1 True k1 v1 x z) = ino (nd d pp True kp vp t y)"
proof (cases "d = dir")
  case True
  have "t \<noteq> Lf" using t(1) by auto
  then have "root_of t \<in> addrs t" by (rule root_of_in)
  then have "root_of t \<notin> addrs y" "root_of t \<noteq> 0" using r tr_nonnull[of N _ t] by (auto simp: trep_def)
  then have "root_of y \<noteq> root_of t" by (rule root_of_neq)
  then have "insert_turn root N (root_of t) pp dir = Some (root, N, root_of t, pp)"
    using rep_frame[OF r] True by (auto simp: insert_turn_def)
  then show ?thesis using True r t y
    by (intro exI[of _ root] exI[of _ N] exI[of _ t] exI[of _ pp] exI[of _ kp] exI[of _ vp] exI[of _ y]) simp
next
  case False
  then have d: "d = (\<not> dir)" by blast
  have "t \<noteq> Lf" using t(1) by auto
  then obtain p c k v x1 x2 where tn: "t = nd dir p c k v x1 x2" using tree_nd by blast
  have c: "c" using t(1) tn by simp
  have r1: "trep root N (nd dir pp True kp vp y (nd dir p True k v x1 x2)) fs"
    using r c unfolding d tn rep_Cons by (simp add: nd_flip)
  obtain root1 N1 where rot: "rotate root N pp dir = Some (root1, N1)"
    and r2: "trep root1 N1 (nd dir p True k v (nd dir pp True kp vp y x1) x2) fs" and dom: "dom N1 = dom N"
    using rotate_ok[OF r1] by blast
  let ?x = "nd dir pp True kp vp y x1"
  have r3: "trep root1 N1 ?x ((dir, p, True, k, v, x2) # fs)" using r2 by (simp add: rep_Cons)
  have "insert_turn root N (root_of t) pp dir = Some (root1, N1, pp, p)"
    using rep_frame[OF r] d tn rot rep_node[OF r3] by (simp add: insert_turn_def)
  moreover have "ino (nd dir p True k v ?x x2) = ino (nd d pp True kp vp t y)"
    unfolding d tn nd_flip by (simp add: ino_nd)
  ultimately show ?thesis
    using r3 dom t y unfolding tn by (intro exI[of _ root1] exI[of _ N1] exI[of _ ?x] exI[of _ p] exI[of _ k] exI[of _ v] exI[of _ x2]) simp
qed

lemma swap_color_ok:
  assumes r: "trep root N t fs" and a: "N a = Some na" "N b = Some nb" "a \<in> addrs t" "b \<in> addrs t" "a \<noteq> b"
  shows "\<exists>N'. swap_color a b N = Some N' \<and> trep root N' (paint b (color na) (paint a (color nb) t)) fs \<and> dom N' = dom N"
proof -
  obtain N1 where 1: "set_color a (color nb) N = Some N1" "trep root N1 (paint a (color nb) t) fs" "dom N1 = dom N"
    using set_color_ok[OF r a(3)] by blast
  have "b \<in> addrs (paint a (color nb) t)" using a(4) by simp
  from set_color_ok[OF 1(2) this, of "color na"] obtain N2 where
    2: "set_color b (color na) N1 = Some N2" "trep root N2 (paint b (color na) (paint a (color nb) t)) fs" "dom N2 = dom N1" by blast
  then show ?thesis using 1 a by (simp add: swap_color_def)
qed

lemma insert_black_uncle:
  assumes r: "trep root N x ((dir, p1, True, k1, v1, z) # (dir, g, False, kg, vg, u) # fs)" and x: "x \<noteq> Lf"
  shows "\<exists>root2 N2 N3. rotate root N g (\<not> dir) = Some (root2, N2) \<and> swap_color p1 g N2 = Some N3 \<and>
    trep root2 N3 (nd dir p1 False k1 v1 x (nd dir g True kg vg z u)) fs \<and> dom N3 = dom N"
proof -
  have r1: "trep root N (nd (\<not> dir) g False kg vg u (nd (\<not> dir) p1 True k1 v1 z x)) fs"
    using r by (simp add: rep_Cons nd_flip)
  obtain root2 N2 where rot: "rotate root N g (\<not> dir) = Some (root2, N2)" "dom N2 = dom N"
    and r2: "trep root2 N2 (nd (\<not> dir) p1 True k1 v1 (nd (\<not> dir) g False kg vg u z) x) fs"
    using rotate_ok[OF r1] by blast
  let ?t = "nd (\<not> dir) p1 True k1 v1 (nd (\<not> dir) g False kg vg u z) x"
  have ne: "p1 \<noteq> g" "p1 \<notin> addrs u" "p1 \<notin> addrs z" "p1 \<notin> addrs x" "g \<notin> addrs u" "g \<notin> addrs z" "g \<notin> addrs x"
    using r2 by (auto simp: trep_def)
  have "\<exists>n. N2 p1 = Some n \<and> color n" "\<exists>n. N2 g = Some n \<and> \<not> color n" using r2 by (auto simp: trep_def)
  then obtain n1 ng where n: "N2 p1 = Some n1" "color n1" "N2 g = Some ng" "\<not> color ng" by blast
  have "p1 \<in> addrs ?t" "g \<in> addrs ?t" by simp_all
  from swap_color_ok[OF r2 n(1,3) this ne(1)] obtain N3 where
    "swap_color p1 g N2 = Some N3" "trep root2 N3 (paint g (color n1) (paint p1 (color ng) ?t)) fs" "dom N3 = dom N2" by blast
  moreover have "paint g (color n1) (paint p1 (color ng) ?t) = nd dir p1 False k1 v1 x (nd dir g True kg vg z u)"
    using ne n by (simp add: nd_flip)
  ultimately show ?thesis using rot by auto
qed

section \<open>The loop\<close>

lemma insert_loop_exit:
  assumes r: "trep root N t fs" and t: "t \<noteq> Lf" "\<not> red t"
  shows "insert_loop root N (root_of t) = Some (root, N)"
proof -
  obtain a k v x y where "t = nd False a False k v x y" using black_cases[OF t] by blast
  then show ?thesis using rep_node[of root N False a False k v x y fs] r by (subst insert_loop.simps) simp
qed

lemma insert_red_uncle:
  assumes r: "trep root N t ((d, pp, True, kp, vp, y) # (dir, g, False, kg, vg, u) # fs)" and u: "red u"
  shows "\<exists>u' N1 N2 N3. set_color pp False N = Some N1 \<and> set_color (root_of u) False N1 = Some N2 \<and> set_color g True N2 = Some N3 \<and>
    trep root N3 (nd dir g True kg vg (nd d pp False kp vp t y) u') fs \<and> dom N3 = dom N \<and>
    ino u' = ino u \<and> \<not> red u' \<and> (invc u \<longrightarrow> invc u') \<and> (invh u \<longrightarrow> invh u' \<and> bh u' = bh u + 1)"
proof -
  obtain b k v u1 u2 where un: "u = nd False b True k v u1 u2" using red_cases[OF u] by blast
  let ?t = "nd dir g False kg vg (nd d pp True kp vp t y) u"
  have r0: "trep root N ?t fs" using r by (simp add: rep_Cons)
  have ne: "pp \<noteq> g" "b \<noteq> g" "b \<noteq> pp" "pp \<notin> addrs t" "pp \<notin> addrs y" "pp \<notin> addrs u1" "pp \<notin> addrs u2" "g \<notin> addrs t" "g \<notin> addrs y"
    "g \<notin> addrs u1" "g \<notin> addrs u2" "b \<notin> addrs t" "b \<notin> addrs y" "b \<notin> addrs u1" "b \<notin> addrs u2"
    using r0 un by (auto simp: trep_def)
  have m: "pp \<in> addrs ?t" "b \<in> addrs (paint pp False ?t)" "g \<in> addrs (paint b False (paint pp False ?t))" using un by simp_all
  obtain N1 where 1: "set_color pp False N = Some N1" "trep root N1 (paint pp False ?t) fs" "dom N1 = dom N"
    using set_color_ok[OF r0 m(1)] by blast
  obtain N2 where 2: "set_color b False N1 = Some N2" "trep root N2 (paint b False (paint pp False ?t)) fs" "dom N2 = dom N1"
    using set_color_ok[OF 1(2) m(2)] by blast
  obtain N3 where 3: "set_color g True N2 = Some N3" "trep root N3 (paint g True (paint b False (paint pp False ?t))) fs" "dom N3 = dom N2"
    using set_color_ok[OF 2(2) m(3)] by blast
  let ?u = "nd False b False k v u1 u2"
  have "paint g True (paint b False (paint pp False ?t)) = nd dir g True kg vg (nd d pp False kp vp t y) ?u"
    using ne un by simp
  then show ?thesis
    using 1 2 3 un by (intro exI[of _ ?u] exI[of _ N1] exI[of _ N2] exI[of _ N3]) (auto simp: ino_nd)
qed

lemma insert_loop_ok:
  assumes "trep root N t fs" "red t" "invc t" "invh t" "finv (bh t) fs"
  shows "\<exists>root' N' s. insert_loop root N (root_of t) = Some (root', N') \<and> trep root' N' s [] \<and> s \<noteq> Lf \<and>
    ino s = ino (plug t fs) \<and> invc s \<and> invh s \<and> dom N' = dom N"
  using assms
proof (induction "length fs" arbitrary: root N t fs rule: less_induct)
  case less
  note r = less.prems(1) and t = less.prems(2-4) and f = less.prems(5)
  have tL: "t \<noteq> Lf" using t(1) by auto
  show ?case
  proof (cases fs)
    case Nil
    then have "root = root_of t" using r by (simp add: trep_def)
    then have "insert_loop root N (root_of t) = Some (root, N)" by (subst insert_loop.simps) simp
    then show ?thesis using r t Nil tL by auto
  next
    case (Cons fr fs1)
    obtain d pp cp kp vp y where fr: "fr = (d, pp, cp, kp, vp, y)" by (cases fr)
    note fs = Cons[unfolded fr]
    obtain p k v x1 x2 where tn: "t = nd False p True k v x1 x2" using red_cases[OF t(1)] by blast
    have np: "N p = Some \<lparr>rkey = k, rvalue = v, color = True, parent = pp, children = (\<lambda>e. if e = False then root_of x1 else root_of x2)\<rparr>"
      using rep_node[of root N False p True k v x1 x2 fs] r tn fs by simp
    have npp: "N pp = Some \<lparr>rkey = kp, rvalue = vp, color = cp, parent = par_of fs1, children = (\<lambda>e. if e = d then root_of t else root_of y)\<rparr>"
      using rep_frame r fs by blast
    have nroot: "p \<noteq> root" using rep_top[of root N t] r fs tn by auto
    show ?thesis
    proof (cases cp)
      case False
      then have "insert_loop root N (root_of t) = Some (root, N)" using np npp nroot tn by (subst insert_loop.simps) simp
      moreover have "trep root N (plug t fs) []" using r by (simp add: rep_plug)
      moreover have "invc (plug t fs) \<and> invh (plug t fs)" using plug_inv[OF f t(2,3)] False fs by simp
      moreover have "plug t fs \<noteq> Lf" using addrs_plug[of t fs] root_of_in[OF tL] by auto
      ultimately show ?thesis by blast
    next
      case True
      have y: "invc y" "invh y" "bh y = bh t" "\<not> red y" "fs1 \<noteq> []" "\<not> fred fs1" "finv (bh t) fs1" using f fs True by auto
      then obtain dir g cg kg vg u fs2 where fs1: "fs1 = (dir, g, cg, kg, vg, u) # fs2" by (cases fs1) auto
      have cg: "\<not> cg" and u: "invc u" "invh u" "bh u = bh t" "finv (bh t + 1) fs2" using y fs1 by auto
      have r1: "trep root N t ((d, pp, True, kp, vp, y) # (dir, g, False, kg, vg, u) # fs2)" using r fs True fs1 cg by simp
      have rg: "trep root N (nd d pp True kp vp t y) ((dir, g, False, kg, vg, u) # fs2)" using r1 by (simp add: rep_Cons)
      note ng = rep_frame[OF rg, THEN conjunct1]
      have dir: "(pp = children \<lparr>rkey = kg, rvalue = vg, color = False, parent = par_of fs2,
          children = (\<lambda>e. if e = dir then root_of (nd d pp True kp vp t y) else root_of u)\<rparr> True) = dir"
        using dir_read[OF rg _ ng] by simp
      have un: "is_red N (root_of u) = Some (red u)" using r1 by (auto simp: trep_def intro: is_red_ok)
      have step: "insert_loop root N p = (if red u then do {
            N1 \<leftarrow> set_color pp False N; N2 \<leftarrow> set_color (root_of u) False N1; N3 \<leftarrow> set_color g True N2; insert_loop root N3 g }
          else do {
            (root1, N1, p1, pp1) \<leftarrow> insert_turn root N p pp dir;
            n1 \<leftarrow> N1 p1; m1 \<leftarrow> N1 (parent n1);
            (root2, N2) \<leftarrow> rotate root1 N1 (parent m1) (\<not> dir);
            N3 \<leftarrow> swap_color pp1 g N2; insert_loop root2 N3 pp1 })"
        using np npp nroot ng dir un fs1 True by (subst insert_loop.simps) (simp add: Let_def)
      show ?thesis
      proof (cases "red u")
        case True
        obtain u' N1 N2 N3 where c: "set_color pp False N = Some N1" "set_color (root_of u) False N1 = Some N2" "set_color g True N2 = Some N3"
          and r3: "trep root N3 (nd dir g True kg vg (nd d pp False kp vp t y) u') fs2" and dom: "dom N3 = dom N"
          and u': "ino u' = ino u" "\<not> red u'" "invc u'" "invh u'" "bh u' = bh u + 1"
          using insert_red_uncle[OF r1 True] u by blast
        let ?t = "nd dir g True kg vg (nd d pp False kp vp t y) u'"
        have i: "red ?t" "invc ?t" "invh ?t" "bh ?t = bh t + 1" using t y u u' by auto
        have "length fs2 < length fs" using fs fs1 by simp
        from less.hyps[OF this r3 i(1-3)] u(4) i(4) obtain root' N' s where
          s: "insert_loop root N3 g = Some (root', N')" "trep root' N' s []" "s \<noteq> Lf" "ino s = ino (plug ?t fs2)" "invc s" "invh s" "dom N' = dom N3"
          by auto
        have "ino (plug ?t fs2) = ino (plug t fs)" using fs fs1 u'(1) by (simp add: ino_plug ino_nd)
        then show ?thesis using step True c s dom tn by auto
      next
        case False
        obtain root1 N1 x p1 k1 v1 z where turn: "insert_turn root N (root_of t) pp dir = Some (root1, N1, root_of x, p1)"
          and r2: "trep root1 N1 x ((dir, p1, True, k1, v1, z) # (dir, g, False, kg, vg, u) # fs2)" and dom1: "dom N1 = dom N"
          and x: "red x" "invc x" "invh x" "invc z" "invh z" "bh x = bh t" "bh z = bh t" "\<not> red z"
          and ino1: "ino (nd dir p1 True k1 v1 x z) = ino (nd d pp True kp vp t y)"
          using insert_turn_ok[OF r1 t y(1-4), of dir] by blast
        have xL: "x \<noteq> Lf" using x(1) by auto
        obtain root2 N2 N3 where rot: "rotate root1 N1 g (\<not> dir) = Some (root2, N2)" "swap_color p1 g N2 = Some N3"
          and r3: "trep root2 N3 (nd dir p1 False k1 v1 x (nd dir g True kg vg z u)) fs2" and dom3: "dom N3 = dom N1"
          using insert_black_uncle[OF r2 xL] by blast
        let ?t = "nd dir p1 False k1 v1 x (nd dir g True kg vg z u)"
        have ex: "insert_loop root2 N3 p1 = Some (root2, N3)" using insert_loop_exit[OF r3] by simp
        obtain nx where nx: "N1 (root_of x) = Some nx" "parent nx = p1" using r2 xL by (cases x) (auto simp: trep_def)
        obtain m1 where m1: "N1 p1 = Some m1" "parent m1 = g" using rep_frame[OF r2] by auto
        have i: "invc ?t" "invh ?t" "bh ?t = bh t + 1" "\<not> red ?t" using x u y False by auto
        have "invc (plug ?t fs2) \<and> invh (plug ?t fs2)" using plug_inv[of ?t fs2] i u(4) by simp
        moreover have "trep root2 N3 (plug ?t fs2) []" using r3 by (simp add: rep_plug)
        moreover have "ino (plug ?t fs2) = ino (plug t fs)" using fs fs1 ino1 by (cases d; cases dir) (simp_all add: ino_plug ino_nd)
        moreover have "plug ?t fs2 \<noteq> Lf" using addrs_plug[of ?t fs2] by auto
        moreover have "insert_loop root N (root_of t) = Some (root2, N3)"
          using step False turn nx m1 rot ex tn by simp
        ultimately show ?thesis using dom1 dom3 by auto
      qed
    qed
  qed
qed

section \<open>Fixing up\<close>

lemma paint_root:
  assumes "sep t" "t \<noteq> Lf" "invc t" "invh t"
  shows "invc (paint (root_of t) False t) \<and> invh (paint (root_of t) False t) \<and> \<not> red (paint (root_of t) False t)"
  using assms by (cases t) auto

lemma insert_fixup_ok:
  assumes "trep root N t fs" "red t" "invc t" "invh t" "finv (bh t) fs"
  shows "\<exists>root' N' s. insert_fixup root N (root_of t) = Some (root', N') \<and> trep root' N' s [] \<and>
    ino s = ino (plug t fs) \<and> invc s \<and> invh s \<and> \<not> red s \<and> dom N' = dom N"
proof -
  obtain root1 N1 s where s: "insert_loop root N (root_of t) = Some (root1, N1)" "trep root1 N1 s []" "s \<noteq> Lf"
    "ino s = ino (plug t fs)" "invc s" "invh s" "dom N1 = dom N" using insert_loop_ok[OF assms] by blast
  have root: "root1 = root_of s" "sep s" using s(2) by (simp_all add: trep_def)
  have "root1 \<in> addrs s" using root s(3) root_of_in by simp
  from set_color_ok[OF s(2) this, of False] obtain N2 where
    2: "set_color root1 False N1 = Some N2" "trep root1 N2 (paint root1 False s) []" "dom N2 = dom N1" by blast
  show ?thesis
    using s 2 root paint_root[OF root(2) s(3,5,6)]
    by (intro exI[of _ root1] exI[of _ N2] exI[of _ "paint root1 False s"]) (simp add: insert_fixup_def)
qed

section \<open>Search trees\<close>

definition ekeys :: "(ptr \<times> u64 \<times> ptr) list \<Rightarrow> u64 list" where
  "ekeys es = map entry_key es"

lemma ekeys_simps [simp]: "ekeys [] = []" "ekeys (e # es) = entry_key e # ekeys es" "ekeys (xs @ ys) = ekeys xs @ ekeys ys"
  by (simp_all add: ekeys_def)

lemma set_ekeys: "set (ekeys es) = entry_key ` set es"
  by (simp add: ekeys_def)

abbreviation ordered :: "(ptr \<times> u64 \<times> ptr) list \<Rightarrow> bool" where
  "ordered es \<equiv> sorted_wrt (<) (ekeys es)"

definition node_with :: "u64 \<Rightarrow> (ptr \<times> u64 \<times> ptr) list \<Rightarrow> ptr" where
  "node_with key es = found (find (\<lambda>e. entry_key e = key) es)"

lemma find_none_key: "key \<notin> set (ekeys es) \<Longrightarrow> find (\<lambda>e. entry_key e = key) es = None"
  by (auto simp: find_None_iff set_ekeys)

lemma find_append: "find P (xs @ ys) = (case find P xs of None \<Rightarrow> find P ys | Some x \<Rightarrow> Some x)"
  by (induction xs) auto

lemma node_with_skip:
  "key \<notin> set (ekeys xs) \<Longrightarrow> node_with key (xs @ es) = node_with key es"
  by (simp add: node_with_def find_append find_none_key)

lemma node_with_left:
  assumes "key \<notin> set (ekeys ys)"
  shows "node_with key (es @ ys) = node_with key es"
  using find_none_key[OF assms] by (auto simp: node_with_def find_append split: option.splits)

lemma node_with_here: "node_with (entry_key e) (e # es) = fst e"
  by (simp add: node_with_def found_def)

lemma node_with_none: "key \<notin> set (ekeys es) \<Longrightarrow> node_with key es = 0"
  by (simp add: node_with_def find_none_key found_def)

lemma entry_key_simp [simp]: "entry_key (a, k, v) = k"
  by (simp add: entry_key_def)

text \<open>The way down from a subtree in focus.\<close>

definition hdir :: "bool \<Rightarrow> frame list \<Rightarrow> bool" where
  "hdir dir fs = (case fs of [] \<Rightarrow> dir | f # _ \<Rightarrow> fst f)"

definition between :: "u64 \<Rightarrow> frame list \<Rightarrow> bool" where
  "between key fs \<longleftrightarrow> (\<forall>k\<in>set (ekeys (pre fs)). k < key) \<and> (\<forall>k\<in>set (ekeys (post fs)). key < k)"

lemma search_loop_ok:
  assumes "tr N par t" "ordered (ino t)"
  shows "rbt_search_loop N key (root_of t) = Some (node_with key (ino t))"
  using assms
proof (induction t arbitrary: par)
  case Lf
  then show ?case by (simp add: rbt_search_loop.simps node_with_none)
next
  case (Nd a c k v l r)
  let ?l = "ino l" and ?r = "ino r"
  have o: "ordered ?l" "ordered ?r" "\<forall>x\<in>set (ekeys ?l). x < k" "\<forall>x\<in>set (ekeys ?r). k < x"
    using Nd.prems(2) by (auto simp: sorted_wrt_append)
  have a: "a \<noteq> 0" "tr N a l" "tr N a r" using Nd.prems by auto
  consider "key = k" | "key < k" | "k < key" by fastforce
  then show ?case
  proof cases
    case 1
    then have "node_with key (ino (Nd a c k v l r)) = a"
      using o(3) node_with_skip[of key ?l] node_with_here[of "(a, k, v)" ?r] by force
    then show ?thesis using Nd.prems(1) 1 by (subst rbt_search_loop.simps) simp
  next
    case 2
    then have "key \<notin> set (ekeys ((a, k, v) # ?r))" using o(4) by force
    then have "node_with key (ino (Nd a c k v l r)) = node_with key ?l" using node_with_left[of key "(a, k, v) # ?r" ?l] by simp
    moreover have "k \<noteq> key" "\<not> k < key" using 2 by auto
    ultimately show ?thesis using Nd.prems(1) Nd.IH(1)[OF a(2) o(1)] by (subst rbt_search_loop.simps) simp
  next
    case 3
    then have "key \<notin> set (ekeys (?l @ [(a, k, v)]))" using o(3) by force
    then have "node_with key (ino (Nd a c k v l r)) = node_with key ?r" using node_with_skip[of key "?l @ [(a, k, v)]" ?r] by simp
    moreover have "k \<noteq> key" "k < key" using 3 by auto
    ultimately show ?thesis using Nd.prems(1) Nd.IH(2)[OF a(3) o(2)] by (subst rbt_search_loop.simps) simp
  qed
qed

lemma insert_find_ok:
  assumes "trep root N t fs" "ordered (ino (plug t fs))" "between key fs"
  shows "\<exists>p q d. insert_find N key (root_of t) (par_of fs) (hdir dir fs) = Some (p, q, d) \<and>
    (if p \<noteq> 0 then p = node_with key (ino (plug t fs)) \<and> key \<in> set (ekeys (ino (plug t fs)))
     else \<exists>gs. q = par_of gs \<and> d = hdir dir gs \<and> trep root N Lf gs \<and> plug Lf gs = plug t fs \<and> between key gs)"
  using assms
proof (induction t arbitrary: fs)
  case Lf
  then show ?case by (auto simp: insert_find.simps)
next
  case (Nd a c k v l r)
  note rp = Nd.prems(1)
  have na: "a \<noteq> 0" "N a = Some \<lparr>rkey = k, rvalue = v, color = c, parent = par_of fs, children = (\<lambda>e. if e then root_of r else root_of l)\<rparr>"
    using rp by (simp_all add: trep_def)
  have io: "ino (plug (Nd a c k v l r) fs) = pre fs @ ino l @ (a, k, v) # ino r @ post fs" by (simp add: ino_plug)
  have lr: "\<And>x. x \<in> set (ekeys (ino l)) \<Longrightarrow> x < k" "\<And>x. x \<in> set (ekeys (ino r)) \<Longrightarrow> k < x" "\<And>x. x \<in> set (ekeys (pre fs)) \<Longrightarrow> x < k"
    using Nd.prems(2) unfolding io by (auto simp: sorted_wrt_append)
  consider "key = k" | "key < k" | "k < key" by fastforce
  then show ?case
  proof cases
    case 1
    have "key \<notin> set (ekeys (pre fs @ ino l))" using lr(1,3)[of key] 1 by auto
    from node_with_skip[OF this, of "(a, k, v) # ino r @ post fs"]
    have "node_with key (ino (plug (Nd a c k v l r) fs)) = a" unfolding io using 1 node_with_here[of "(a, k, v)"] by simp
    then show ?thesis using na 1 io by (subst insert_find.simps) simp
  next
    case 2
    let ?fs = "(False, a, c, k, v, r) # fs"
    have eq: "plug l ?fs = plug (Nd a c k v l r) fs" by (simp add: nd_def)
    have rl: "trep root N l ?fs" using rp by (simp add: rep_Cons nd_def)
    have "\<forall>x\<in>set (ekeys (ino r)). key < x" using lr(2) less_trans[OF 2] by blast
    then have "between key ?fs" using Nd.prems(3) 2 by (auto simp: between_def)
    moreover have "k \<noteq> key" "\<not> k < key" using 2 by auto
    ultimately show ?thesis using Nd.IH(1)[OF rl] Nd.prems(2)
      unfolding eq using na by (subst insert_find.simps) (simp add: hdir_def)
  next
    case 3
    let ?fs = "(True, a, c, k, v, l) # fs"
    have eq: "plug r ?fs = plug (Nd a c k v l r) fs" by (simp add: nd_def)
    have rr: "trep root N r ?fs" using rp by (simp add: rep_Cons nd_def)
    have "\<forall>x\<in>set (ekeys (ino l)). x < key" using lr(1) less_trans[OF _ 3] by blast
    then have "between key ?fs" using Nd.prems(3) 3 by (auto simp: between_def)
    moreover have "k \<noteq> key" "k < key" using 3 by auto
    ultimately show ?thesis using Nd.IH(2)[OF rr] Nd.prems(2)
      unfolding eq using na by (subst insert_find.simps) (simp add: hdir_def)
  qed
qed

lemma insert_find_cases:
  assumes r: "trep root N t []" "ordered (ino t)"
  obtains (present) q d where "insert_find N key (root_of t) 0 False = Some (node_with key (ino t), q, d)"
      "node_with key (ino t) \<noteq> 0" "key \<in> set (ekeys (ino t))"
  | (absent) fs where "insert_find N key (root_of t) 0 False = Some (0, par_of fs, hdir False fs)" "trep root N Lf fs" "plug Lf fs = t"
      "between key fs" "key \<notin> set (ekeys (ino t))"
proof -
  have b: "between key []" and h: "hdir False [] = False" by (simp_all add: between_def hdir_def)
  obtain p q d where i: "insert_find N key (root_of t) 0 False = Some (p, q, d)"
    and c: "if p \<noteq> 0 then p = node_with key (ino t) \<and> key \<in> set (ekeys (ino t))
      else \<exists>gs. q = par_of gs \<and> d = hdir False gs \<and> trep root N Lf gs \<and> plug Lf gs = t \<and> between key gs"
    using insert_find_ok[OF r(1) _ b, of False, unfolded plug.simps par_of.simps h] r(2) by blast
  show thesis
  proof (cases "p = 0")
    case True
    then obtain gs where g: "q = par_of gs" "d = hdir False gs" "trep root N Lf gs" "plug Lf gs = t" "between key gs" using c by auto
    have "key \<notin> set (ekeys (ino t))" using g(4,5) ino_plug[of Lf gs] by (auto simp: between_def)
    then show thesis using absent[of gs] g i True by simp
  next
    case False
    then show thesis using present[of q d] c i by simp
  qed
qed

section \<open>A new leaf\<close>

lemma attach_ok:
  assumes r: "trep root N Lf fs" and fs: "fs \<noteq> []" and a: "a \<noteq> 0" "a \<notin> faddrs fs"
    and n: "n = \<lparr>rkey = key, rvalue = w, color = True, parent = par_of fs, children = (\<lambda>_. 0)\<rparr>"
  shows "\<exists>N'. set_child (par_of fs) (hdir dir fs) a (N(a \<mapsto> n)) = Some N' \<and> trep root N' (Nd a True key w Lf Lf) fs \<and>
    dom N' = insert a (dom N) \<and> par_of fs \<noteq> 0"
proof -
  obtain d b c k v y gs where f: "fs = (d, b, c, k, v, y) # gs" using fs by (cases fs) auto
  have ne: "a \<noteq> b" "a \<notin> addrs y" "a \<notin> faddrs gs" using a f by auto
  let ?b = "\<lparr>rkey = k, rvalue = v, color = c, parent = par_of gs, children = (\<lambda>e. if e = d then 0 else root_of y)\<rparr>"
  have b: "N b = Some ?b" "b \<noteq> 0" "tr N b y" "cx N b gs" "root = top_of b gs" "sep y" "fsep gs" "b \<notin> addrs y" "b \<notin> faddrs gs" "addrs y \<inter> faddrs gs = {}"
    using r f by (auto simp: trep_def)
  let ?N = "N(a \<mapsto> n, b \<mapsto> ?b\<lparr>children := (\<lambda>e. if e = d then a else root_of y)\<rparr>)"
  have "set_child b d a (N(a \<mapsto> n)) = Some ?N" using ne b(1) by (simp add: upd_def)
  moreover have "trep root ?N (Nd a True key w Lf Lf) fs" using ne a b n f by (simp add: trep_def)
  moreover have "dom ?N = insert a (dom N)" using b(1) by (auto simp: fun_upd_apply)
  ultimately show ?thesis using f b(2) by (auto simp: hdir_def)
qed

section \<open>The representation\<close>

text \<open>\<open>F\<close> are blocks that other parts of the kernel hold; the entries are in the order of their keys.\<close>

definition rbt_ok :: "('s \<Rightarrow> (ptr \<times> nat) set \<Rightarrow> bool) \<Rightarrow> ptr set \<Rightarrow> 's rbt \<Rightarrow> tree \<Rightarrow> bool" where
  "rbt_ok hrep F r t \<longleftrightarrow> mutex_free (rbt_lock (rtree r)) \<and> trep (rbt_root (rtree r)) (rnodes r) t [] \<and>
     invc t \<and> invh t \<and> \<not> red t \<and> ordered (ino t) \<and> dom (rnodes r) = addrs t \<and> F \<inter> addrs t = {} \<and>
     holds hrep (rheap r) (F \<union> addrs t)"

definition rbt_rep :: "('s \<Rightarrow> (ptr \<times> nat) set \<Rightarrow> bool) \<Rightarrow> ptr set \<Rightarrow> 's rbt \<Rightarrow> (ptr \<times> u64 \<times> ptr) list \<Rightarrow> bool" where
  "rbt_rep hrep F r es \<longleftrightarrow> (\<exists>t. rbt_ok hrep F r t \<and> ino t = es)"

definition rbt_room :: "(nat \<Rightarrow> 's \<Rightarrow> (ptr \<times> 's) option) \<Rightarrow> 's rbt \<Rightarrow> bool" where
  "rbt_room alloc r \<longleftrightarrow> (\<exists>p h. alloc sizeof_rbt_node (rheap r) = Some (p, h) \<and> p \<noteq> 0)"

lemma lock_same [simp]: "r\<lparr>rtree := (rtree r)\<lparr>rbt_lock := rbt_lock (rtree r)\<rparr>\<rparr> = r"
  by simp

lemma rbt_search_rep:
  assumes "rbt_rep hrep F r es"
  shows "rbt_search key r = Some (node_with key es, r)"
proof -
  obtain t where t: "rbt_ok hrep F r t" "ino t = es" using assms by (auto simp: rbt_rep_def)
  have m: "mutex_free (rbt_lock (rtree r))" and rp: "trep (rbt_root (rtree r)) (rnodes r) t []" "ordered (ino t)"
    using t(1) by (simp_all add: rbt_ok_def)
  have "rbt_search_loop (rnodes r) key (rbt_root (rtree r)) = Some (node_with key es)"
    using search_loop_ok[of "rnodes r" 0 t key] rp t(2) by (simp add: trep_def)
  then show ?thesis using kmutex_lock_free[OF m] kmutex_unlock_free[OF m] by (simp add: rbt_search_def)
qed

context allocator
begin

lemma rbt_insert_present:
  assumes rp: "rbt_rep rep F r es" and k: "key \<in> set (ekeys es)"
  shows "rbt_insert alloc key r = Some (node_with key es, r)"
proof -
  obtain t where t: "rbt_ok rep F r t" "ino t = es" using rp by (auto simp: rbt_rep_def)
  have m: "mutex_free (rbt_lock (rtree r))" and r: "trep (rbt_root (rtree r)) (rnodes r) t []" "ordered (ino t)"
    using t(1) by (simp_all add: rbt_ok_def)
  have root: "rbt_root (rtree r) = root_of t" using r(1) by (simp add: trep_def)
  have tL: "t \<noteq> Lf" using k t(2) by auto
  then have "root_of t \<noteq> 0" using r(1) root_of_0 by (auto simp: trep_def)
  moreover obtain q d where "insert_find (rnodes r) key (root_of t) 0 False = Some (node_with key (ino t), q, d)" "node_with key (ino t) \<noteq> 0"
    by (rule insert_find_cases[OF r, of key]) (use k t(2) in auto)
  ultimately show ?thesis
    using root t(2) kmutex_lock_free[OF m] kmutex_unlock_free[OF m] by (simp add: rbt_insert_def)
qed

lemma rbt_insert_absent:
  assumes rp: "rbt_rep rep F r es" and k: "key \<notin> set (ekeys es)" and room: "rbt_room alloc r"
  shows "\<exists>p r' xs ys. rbt_insert alloc key r = Some (p, r') \<and> es = xs @ ys \<and>
    rbt_rep rep F r' (xs @ (p, key, rvalue (rraw r p)) # ys) \<and> rraw r' = rraw r"
proof -
  obtain t where t: "rbt_ok rep F r t" "ino t = es" using rp by (auto simp: rbt_rep_def)
  have m: "mutex_free (rbt_lock (rtree r))" and tr: "trep (rbt_root (rtree r)) (rnodes r) t []" "ordered (ino t)"
    and inv: "invc t" "invh t" "\<not> red t" and d: "dom (rnodes r) = addrs t" "F \<inter> addrs t = {}" and h: "holds rep (rheap r) (F \<union> addrs t)"
    using t(1) by (simp_all add: rbt_ok_def)
  have root: "rbt_root (rtree r) = root_of t" using tr(1) by (simp add: trep_def)
  have "sizeof_rbt_node < max_req" using max_req by (simp add: sizeof_rbt_node_def)
  from alloc_holds[OF h this] obtain p h' where p: "alloc sizeof_rbt_node (rheap r) = Some (p, h')"
    "p \<noteq> 0 \<Longrightarrow> p \<notin> F \<union> addrs t \<and> holds rep h' (insert p (F \<union> addrs t))" by blast
  have p0: "p \<noteq> 0" using room p(1) by (auto simp: rbt_room_def)
  have fresh: "p \<notin> F" "p \<notin> addrs t" "holds rep h' (insert p (F \<union> addrs t))" using p(2)[OF p0] by auto
  let ?w = "rvalue (rraw r p)"
  obtain fs where f: "insert_find (rnodes r) key (root_of t) 0 False = Some (0, par_of fs, hdir False fs)"
    "trep (rbt_root (rtree r)) (rnodes r) Lf fs" "plug Lf fs = t" "between key fs"
    by (rule insert_find_cases[OF tr, of key]) (use k t(2) in auto)
  have es: "es = pre fs @ post fs" using f(3) ino_plug[of Lf fs] t(2) by simp
  have ord: "ordered (pre fs @ (p, key, ?w) # post fs)"
    using tr(2) t(2) f(4) unfolding es between_def by (auto simp: sorted_wrt_append)
  let ?n = "\<lparr>rkey = key, rvalue = ?w, color = True, parent = par_of fs, children = (\<lambda>_. 0)\<rparr>"
  have cn: "rbt_create_node alloc (par_of fs) key r = Some (p, r\<lparr>rheap := h', rnodes := (rnodes r)(p \<mapsto> ?n)\<rparr>)"
    using p(1) p0 by (cases "rraw r p") (simp add: rbt_create_node_def)
  have "\<exists>root' N' s. rbt_insert alloc key r = Some (p, r\<lparr>rheap := h', rnodes := N', rtree := (rtree r)\<lparr>rbt_root := root'\<rparr>\<rparr>) \<and>
    trep root' N' s [] \<and> invc s \<and> invh s \<and> \<not> red s \<and> ino s = pre fs @ (p, key, ?w) # post fs \<and> dom N' = insert p (addrs t)"
  proof (cases "fs = []")
    case True
    then have tL: "t = Lf" using f(3) by simp
    let ?N = "(rnodes r)(p \<mapsto> ?n\<lparr>color := False\<rparr>)"
    have "rbt_insert alloc key r = Some (p, r\<lparr>rheap := h', rnodes := ?N, rtree := (rtree r)\<lparr>rbt_root := p\<rparr>\<rparr>)"
      using cn True root tL kmutex_lock_free[OF m] kmutex_unlock_free[OF m] by (simp add: rbt_insert_def upd_def)
    moreover have "trep p ?N (Nd p False key ?w Lf Lf) []" using p0 True by (simp add: trep_def)
    moreover have "dom ?N = insert p (addrs t)" using d(1) by (auto simp: fun_upd_apply)
    ultimately show ?thesis using True by (intro exI[of _ p] exI[of _ ?N] exI[of _ "Nd p False key ?w Lf Lf"]) simp
  next
    case False
    have pf: "p \<notin> faddrs fs" using fresh(2) f(3) addrs_plug[of Lf fs] by auto
    obtain N1 where a: "set_child (par_of fs) (hdir False fs) p ((rnodes r)(p \<mapsto> ?n)) = Some N1"
      "trep (rbt_root (rtree r)) N1 (Nd p True key ?w Lf Lf) fs" "dom N1 = insert p (dom (rnodes r))" "par_of fs \<noteq> 0"
      using attach_ok[OF f(2) False p0 pf refl] by blast
    have "finv 0 fs" using unplug_inv[of Lf fs] inv f(3) by simp
    then obtain root' N2 s where s: "insert_fixup (rbt_root (rtree r)) N1 p = Some (root', N2)" "trep root' N2 s []"
      "ino s = ino (plug (Nd p True key ?w Lf Lf) fs)" "invc s" "invh s" "\<not> red s" "dom N2 = dom N1"
      using insert_fixup_ok[OF a(2)] by auto
    have tL: "t \<noteq> Lf" using f(3) addrs_plug[of Lf fs] False by (cases fs) auto
    then have "root_of t \<noteq> 0" using tr(1) root_of_0 by (auto simp: trep_def)
    then have "rbt_insert alloc key r = Some (p, r\<lparr>rheap := h', rnodes := N2, rtree := (rtree r)\<lparr>rbt_root := root'\<rparr>\<rparr>)"
      using f(1) cn a(1,4) s(1) root kmutex_lock_free[OF m] kmutex_unlock_free[OF m] by (simp add: rbt_insert_def)
    then show ?thesis using s a(3) d(1) by (intro exI[of _ root'] exI[of _ N2] exI[of _ s]) (simp add: ino_plug)
  qed
  then obtain root' N' s where ins: "rbt_insert alloc key r = Some (p, r\<lparr>rheap := h', rnodes := N', rtree := (rtree r)\<lparr>rbt_root := root'\<rparr>\<rparr>)"
    and s: "trep root' N' s []" "invc s" "invh s" "\<not> red s" "ino s = pre fs @ (p, key, ?w) # post fs" "dom N' = insert p (addrs t)" by blast
  have as: "addrs s = insert p (addrs t)" using s(5) es t(2) by (auto simp: addrs_ino)
  let ?r = "r\<lparr>rheap := h', rnodes := N', rtree := (rtree r)\<lparr>rbt_root := root'\<rparr>\<rparr>"
  have "rbt_ok rep F ?r s" using m s ord as d(2) fresh unfolding rbt_ok_def by simp
  then have "rbt_rep rep F ?r (pre fs @ (p, key, ?w) # post fs)" using s(5) unfolding rbt_rep_def by blast
  then show ?thesis using ins es by (intro exI[of _ p] exI[of _ ?r] exI[of _ "pre fs"] exI[of _ "post fs"]) simp
qed

end

end
