(* ===== verification/Rbt_Delete.thy ===== *)
theory Rbt_Delete
  imports Rbt_Insert
begin

text \<open>
  Deletion keeps the tree red-black: the repair of a subtree that has lost a black node terminates and restores the
  invariants; taking out a node removes exactly its key and value.
\<close>

section \<open>Local repairs\<close>

definition balanced :: "ptr \<Rightarrow> rstore \<Rightarrow> tree \<Rightarrow> (ptr \<times> u64 \<times> ptr) list \<Rightarrow> ptr set \<Rightarrow> bool" where
  "balanced root N s es D \<longleftrightarrow> trep root N s [] \<and> ino s = es \<and> invc s \<and> invh s \<and> \<not> red s \<and> dom N = D"

lemma balancedI:
  assumes "trep root N t fs" "invc t" "invh t" "finv (bh t) fs" "red t \<longrightarrow> fs \<noteq> [] \<and> \<not> fred fs" "pre fs @ ino t @ post fs = es"
  shows "\<exists>s. balanced root N s es (dom N)"
proof -
  have "invc (plug t fs) \<and> invh (plug t fs) \<and> (fs \<noteq> [] \<longrightarrow> \<not> red (plug t fs))"
    using plug_inv[OF assms(4,2,3)] assms(5) by blast
  moreover have "fs = [] \<Longrightarrow> \<not> red (plug t fs)" using assms(5) by simp
  ultimately have "balanced root N (plug t fs) es (dom N)"
    using assms(1,6) by (auto simp: balanced_def rep_plug ino_plug)
  then show ?thesis by blast
qed

lemma set_color2:
  assumes r: "trep root N t fs" and m: "a \<in> addrs t" "b \<in> addrs t"
  shows "\<exists>N1 N2. set_color a e N = Some N1 \<and> set_color b f N1 = Some N2 \<and> trep root N2 (paint b f (paint a e t)) fs \<and> dom N2 = dom N"
proof -
  obtain N1 where 1: "set_color a e N = Some N1" "trep root N1 (paint a e t) fs" "dom N1 = dom N" using set_color_ok[OF r m(1)] by blast
  have "b \<in> addrs (paint a e t)" using m(2) by simp
  from set_color_ok[OF 1(2) this] show ?thesis using 1 by fastforce
qed

text \<open>One round, with everything it reads.\<close>

lemma delete_step:
  assumes r: "trep root N t ((d, e, c, k, v, nd d s cs ks vs y z) # fs)"
  shows "delete_fixup root N e d =
    (if cs then do {
       (root1, N1) \<leftarrow> rotate root N e d;
       N2 \<leftarrow> set_color e True N1;
       N3 \<leftarrow> set_color s False N2;
       delete_fixup root1 N3 e d
     } else if red z then do {
       N1 \<leftarrow> set_color (root_of z) False N;
       N2 \<leftarrow> set_color s c N1;
       N3 \<leftarrow> set_color e False N2;
       rotate root N3 e d
     } else if red y then do {
       N1 \<leftarrow> set_color (root_of y) False N;
       N2 \<leftarrow> set_color s True N1;
       (root1, N3) \<leftarrow> rotate root N2 s (\<not> d);
       delete_fixup root1 N3 e d
     } else if c then do {
       N1 \<leftarrow> set_color e False N;
       N2 \<leftarrow> set_color s True N1;
       Some (root, N2)
     } else do {
       N1 \<leftarrow> set_color s True N;
       dir' \<leftarrow> (if par_of fs \<noteq> 0 then do { pn \<leftarrow> N1 (par_of fs); Some (e = children pn True) } else Some d);
       delete_fixup root N1 (par_of fs) dir'
     })"
proof -
  let ?y = "nd d s cs ks vs y z"
  have e: "N e = Some \<lparr>rkey = k, rvalue = v, color = c, parent = par_of fs, children = (\<lambda>e. if e = d then root_of t else s)\<rparr>" "e \<noteq> 0"
    using rep_frame[OF r] by (simp_all cong: if_cong)
  have y: "tr N e ?y" using r by (simp add: trep_def)
  then have s: "N s = Some \<lparr>rkey = ks, rvalue = vs, color = cs, parent = e, children = (\<lambda>e. if e = d then root_of y else root_of z)\<rparr>"
    and t: "tr N s y" "tr N s z" by simp_all
  show ?thesis
    using e s is_red_ok[OF y] is_red_ok[OF t(1)] is_red_ok[OF t(2)] by (subst delete_fixup.simps) (simp add: Let_def cong: if_cong)
qed

lemma delete_far:
  assumes r: "trep root N t ((d, e, c, k, v, nd d s False ks vs y z) # fs)" and z: "red z"
    and t: "invc t" "invh t" "\<not> red t" and f: "finv (bh t + 1) ((d, e, c, k, v, nd d s False ks vs y z) # fs)"
  shows "\<exists>root' N' u. delete_fixup root N e d = Some (root', N') \<and>
    balanced root' N' u (ino (plug t ((d, e, c, k, v, nd d s False ks vs y z) # fs))) (dom N)"
proof -
  obtain b kz vz z1 z2 where zn: "z = nd False b True kz vz z1 z2" using red_cases[OF z] by blast
  let ?t = "nd d e c k v t (nd d s False ks vs y z)" and ?z = "nd False b False kz vz z1 z2"
  have r0: "trep root N ?t fs" using r by (simp add: rep_Cons)
  have ne: "e \<noteq> s" "e \<noteq> b" "s \<noteq> b" "e \<notin> addrs t" "e \<notin> addrs y" "e \<notin> addrs z1" "e \<notin> addrs z2" "s \<notin> addrs t" "s \<notin> addrs y"
    "s \<notin> addrs z1" "s \<notin> addrs z2" "b \<notin> addrs t" "b \<notin> addrs y" "b \<notin> addrs z1" "b \<notin> addrs z2"
    using r0 zn by (auto simp: trep_def)
  have m: "b \<in> addrs ?t" "s \<in> addrs ?t" "e \<in> addrs (paint s c (paint b False ?t))" using zn by simp_all
  obtain N1 N2 where 2: "set_color b False N = Some N1" "set_color s c N1 = Some N2" "trep root N2 (paint s c (paint b False ?t)) fs" "dom N2 = dom N"
    using set_color2[OF r0 m(1,2)] by blast
  obtain N3 where 3: "set_color e False N2 = Some N3" "trep root N3 (paint e False (paint s c (paint b False ?t))) fs" "dom N3 = dom N2"
    using set_color_ok[OF 2(3) m(3)] by blast
  have "paint e False (paint s c (paint b False ?t)) = nd d e False k v t (nd d s c ks vs y ?z)" using ne zn by simp
  then obtain root' N4 where 4: "rotate root N3 e d = Some (root', N4)" "trep root' N4 (nd d s c ks vs (nd d e False k v t y) ?z) fs" "dom N4 = dom N3"
    using rotate_ok[of root N3 d e False k v t s c ks vs y ?z fs] 3(2) by auto
  have "delete_fixup root N e d = Some (root', N4)" using delete_step[OF r] z zn 2(1,2) 3(1) 4(1) by simp
  moreover have "\<exists>u. balanced root' N4 u (ino (plug t ((d, e, c, k, v, nd d s False ks vs y z) # fs))) (dom N4)"
    by (rule balancedI[OF 4(2)]) (use t f zn in \<open>auto simp: ino_plug ino_nd\<close>)
  ultimately show ?thesis using 2(4) 3(3) 4(3) by auto
qed

lemma delete_near:
  assumes r: "trep root N t ((d, e, c, k, v, nd d s False ks vs y z) # fs)" and y: "red y" and z: "\<not> red z"
    and t: "invc t" "invh t" "\<not> red t" and f: "finv (bh t + 1) ((d, e, c, k, v, nd d s False ks vs y z) # fs)"
  shows "\<exists>root' N' u. delete_fixup root N e d = Some (root', N') \<and>
    balanced root' N' u (ino (plug t ((d, e, c, k, v, nd d s False ks vs y z) # fs))) (dom N)"
proof -
  obtain q kq vq y1 y2 where yn: "y = nd d q True kq vq y1 y2" using red_cases[OF y] by blast
  let ?y = "nd d s False ks vs y z"
  have r0: "trep root N ?y ((\<not> d, e, c, k, v, t) # fs)" using r by (subst (asm) rep_flip)
  have ne: "s \<noteq> q" "s \<notin> addrs z" "s \<notin> addrs y1" "s \<notin> addrs y2" "q \<notin> addrs z" "q \<notin> addrs y1" "q \<notin> addrs y2"
    using r0 yn by (auto simp: trep_def)
  have m: "q \<in> addrs ?y" "s \<in> addrs ?y" using yn by simp_all
  obtain N1 N2 where 2: "set_color q False N = Some N1" "set_color s True N1 = Some N2"
    "trep root N2 (paint s True (paint q False ?y)) ((\<not> d, e, c, k, v, t) # fs)" "dom N2 = dom N"
    using set_color2[OF r0 m] by blast
  have "paint s True (paint q False ?y) = nd (\<not> d) s True ks vs z (nd (\<not> d) q False kq vq y2 y1)" using ne yn by (simp add: nd_flip)
  then obtain root1 N3 where 3: "rotate root N2 s (\<not> d) = Some (root1, N3)" "dom N3 = dom N2"
    "trep root1 N3 (nd (\<not> d) q False kq vq (nd (\<not> d) s True ks vs z y2) y1) ((\<not> d, e, c, k, v, t) # fs)"
    using rotate_ok[of root N2 "\<not> d" s True ks vs z q False kq vq y2 y1 "(\<not> d, e, c, k, v, t) # fs"] 2(3) by auto
  let ?y' = "nd d q False kq vq y1 (nd d s True ks vs y2 z)"
  have r3: "trep root1 N3 t ((d, e, c, k, v, ?y') # fs)" using 3(3) unfolding nd_flip by (subst (asm) rep_flip) simp
  have f3: "finv (bh t + 1) ((d, e, c, k, v, ?y') # fs)" using f yn z by auto
  have s: "delete_fixup root N e d = delete_fixup root1 N3 e d" using delete_step[OF r] y z yn 2(1,2) 3(1) by simp
  have i: "ino (plug t ((d, e, c, k, v, ?y') # fs)) = ino (plug t ((d, e, c, k, v, ?y) # fs))"
    using yn by (cases d) (simp_all add: ino_plug ino_nd)
  show ?thesis using delete_far[OF r3 _ t f3] unfolding s i using 2(4) 3(2) by simp
qed

lemma delete_red_parent:
  assumes r: "trep root N t ((d, e, True, k, v, nd d s False ks vs y z) # fs)" and y: "\<not> red y" and z: "\<not> red z"
    and t: "invc t" "invh t" "\<not> red t" and f: "finv (bh t + 1) ((d, e, True, k, v, nd d s False ks vs y z) # fs)"
  shows "\<exists>root' N' u. delete_fixup root N e d = Some (root', N') \<and>
    balanced root' N' u (ino (plug t ((d, e, True, k, v, nd d s False ks vs y z) # fs))) (dom N)"
proof -
  let ?t = "nd d e True k v t (nd d s False ks vs y z)"
  have r0: "trep root N ?t fs" using r by (simp add: rep_Cons)
  have ne: "e \<noteq> s" "e \<notin> addrs t" "e \<notin> addrs y" "e \<notin> addrs z" "s \<notin> addrs t" "s \<notin> addrs y" "s \<notin> addrs z"
    using r0 by (auto simp: trep_def)
  have m: "e \<in> addrs ?t" "s \<in> addrs ?t" by simp_all
  obtain N1 N2 where 2: "set_color e False N = Some N1" "set_color s True N1 = Some N2" "trep root N2 (paint s True (paint e False ?t)) fs" "dom N2 = dom N"
    using set_color2[OF r0 m] by blast
  have "paint s True (paint e False ?t) = nd d e False k v t (nd d s True ks vs y z)" using ne by simp
  then have r2: "trep root N2 (nd d e False k v t (nd d s True ks vs y z)) fs" using 2(3) by simp
  have "delete_fixup root N e d = Some (root, N2)" using delete_step[OF r] y z 2(1,2) by simp
  moreover have "\<exists>u. balanced root N2 u (ino (plug t ((d, e, True, k, v, nd d s False ks vs y z) # fs))) (dom N2)"
    by (rule balancedI[OF r2]) (use t f y z in \<open>auto simp: ino_plug ino_nd\<close>)
  ultimately show ?thesis using 2(4) by auto
qed

lemma delete_black_sibling:
  assumes r: "trep root N t ((d, e, c, k, v, w) # fs)" and t: "invc t" "invh t" "\<not> red t" and f: "finv (bh t + 1) ((d, e, c, k, v, w) # fs)"
    and w: "\<not> red w" "c \<or> (\<exists>s ks vs y z. w = nd d s False ks vs y z \<and> (red y \<or> red z))"
  shows "\<exists>root' N' u. delete_fixup root N e d = Some (root', N') \<and> balanced root' N' u (ino (plug t ((d, e, c, k, v, w) # fs))) (dom N)"
proof -
  have "bh w = bh t + 1" using f by simp
  then have "w \<noteq> Lf" by auto
  then obtain s ks vs y z where wn: "w = nd d s False ks vs y z" using black_cases[OF _ w(1)] by blast
  have inj: "red y \<or> red z \<or> c" using w(2) unfolding wn by (cases d) (auto simp: nd_def)
  consider "red z" | "\<not> red z" "red y" | "\<not> red z" "\<not> red y" c using inj by blast
  then show ?thesis
  proof cases
    case 1
    then show ?thesis using delete_far[OF r[unfolded wn] _ t f[unfolded wn]] wn by simp
  next
    case 2
    then show ?thesis using delete_near[OF r[unfolded wn] _ _ t f[unfolded wn]] wn by simp
  next
    case 3
    then have c: "c = True" by simp
    show ?thesis using delete_red_parent[OF r[unfolded wn c] 3(2,1) t f[unfolded wn c]] wn c by simp
  qed
qed

lemma delete_red_sibling:
  assumes r: "trep root N t ((d, e, False, k, v, nd d s True ks vs y z) # fs)"
  shows "\<exists>root1 N3. delete_fixup root N e d = delete_fixup root1 N3 e d \<and> dom N3 = dom N \<and>
    trep root1 N3 t ((d, e, True, k, v, y) # (d, s, False, ks, vs, z) # fs)"
proof -
  have r0: "trep root N (nd d e False k v t (nd d s True ks vs y z)) fs" using r by (simp add: rep_Cons)
  obtain root1 N1 where 1: "rotate root N e d = Some (root1, N1)" "trep root1 N1 (nd d s True ks vs (nd d e False k v t y) z) fs" "dom N1 = dom N"
    using rotate_ok[OF r0] by blast
  let ?t = "nd d s True ks vs (nd d e False k v t y) z"
  have ne: "e \<noteq> s" "e \<notin> addrs t" "e \<notin> addrs y" "e \<notin> addrs z" "s \<notin> addrs t" "s \<notin> addrs y" "s \<notin> addrs z"
    using r0 by (auto simp: trep_def)
  have m: "e \<in> addrs ?t" "s \<in> addrs ?t" by simp_all
  obtain N2 N3 where 3: "set_color e True N1 = Some N2" "set_color s False N2 = Some N3" "trep root1 N3 (paint s False (paint e True ?t)) fs" "dom N3 = dom N1"
    using set_color2[OF 1(2) m] by blast
  have "paint s False (paint e True ?t) = nd d s False ks vs (nd d e True k v t y) z" using ne by simp
  then have "trep root1 N3 t ((d, e, True, k, v, y) # (d, s, False, ks, vs, z) # fs)" using 3(3) by (simp add: rep_Cons)
  then show ?thesis using delete_step[OF r] 1 3 by auto
qed

lemma delete_climb:
  assumes r: "trep root N t ((d, e, False, k, v, nd d s False ks vs y z) # fs)" and y: "\<not> red y" "\<not> red z"
  shows "\<exists>N1. delete_fixup root N e d = delete_fixup root N1 (par_of fs) (hdir d fs) \<and> dom N1 = dom N \<and>
    trep root N1 (nd d e False k v t (nd d s True ks vs y z)) fs"
proof -
  let ?t = "nd d e False k v t (nd d s False ks vs y z)" and ?t' = "nd d e False k v t (nd d s True ks vs y z)"
  have r0: "trep root N ?t fs" using r by (simp add: rep_Cons)
  have ne: "e \<noteq> s" "s \<notin> addrs t" "s \<notin> addrs y" "s \<notin> addrs z" using r0 by (auto simp: trep_def)
  have m: "s \<in> addrs ?t" by simp
  obtain N1 where 1: "set_color s True N = Some N1" "trep root N1 (paint s True ?t) fs" "dom N1 = dom N"
    using set_color_ok[OF r0 m] by blast
  have r1: "trep root N1 ?t' fs" using 1(2) ne by simp
  have "(if par_of fs \<noteq> 0 then do { pn \<leftarrow> N1 (par_of fs); Some (e = children pn True) } else Some d) = Some (hdir d fs)"
  proof (cases fs)
    case Nil
    then show ?thesis by (simp add: hdir_def)
  next
    case (Cons f gs)
    obtain d' a c' k' v' w where f: "f = (d', a, c', k', v', w)" by (cases f)
    have r2: "trep root N1 ?t' ((d', a, c', k', v', w) # gs)" using r1 Cons f by simp
    obtain n where n: "N1 a = Some n" "a \<noteq> 0" using rep_frame[OF r2] by blast
    then show ?thesis using dir_read[OF r2 _ n(1)] Cons f by (simp add: hdir_def)
  qed
  then show ?thesis using delete_step[OF r] y 1 r1 by (auto simp del: if_split)
qed

section \<open>The loop\<close>

lemma delete_fixup_ok:
  assumes "trep root N t fs" "invc t" "invh t" "\<not> red t" "finv (bh t + 1) fs"
  shows "\<exists>root' N' u. delete_fixup root N (par_of fs) (hdir dir fs) = Some (root', N') \<and> balanced root' N' u (ino (plug t fs)) (dom N)"
  using assms
proof (induction "length fs" arbitrary: root N t fs dir rule: less_induct)
  case less
  note r = less.prems(1) and t = less.prems(2-4) and f = less.prems(5)
  show ?case
  proof (cases fs)
    case Nil
    then have "delete_fixup root N (par_of fs) (hdir dir fs) = Some (root, N)" by (subst delete_fixup.simps) simp
    then show ?thesis using r t Nil by (auto simp: balanced_def)
  next
    case (Cons fr gs)
    obtain d e c k v w where fr: "fr = (d, e, c, k, v, w)" by (cases fr)
    note fs = Cons[unfolded fr]
    have "bh w = bh t + 1" using f fs by simp
    then have "w \<noteq> Lf" by auto
    then obtain s cs ks vs y z where w: "w = nd d s cs ks vs y z" using tree_nd by blast
    have r1: "trep root N t ((d, e, c, k, v, nd d s cs ks vs y z) # gs)" and f1: "finv (bh t + 1) ((d, e, c, k, v, nd d s cs ks vs y z) # gs)"
      using r f unfolding fs w by blast+
    have hd: "par_of fs = e" "hdir dir fs = d" using fs by (simp_all add: hdir_def)
    show ?thesis
    proof (cases cs)
      case True
      have cF: "\<not> c" using f1 True by simp
      obtain root1 N3 where 3: "delete_fixup root N e d = delete_fixup root1 N3 e d" "dom N3 = dom N"
        "trep root1 N3 t ((d, e, True, k, v, y) # (d, s, False, ks, vs, z) # gs)"
        using delete_red_sibling[of root N t d e k v s ks vs y z gs] r1 True cF by auto
      have f3: "finv (bh t + 1) ((d, e, True, k, v, y) # (d, s, False, ks, vs, z) # gs)" using f1 True by auto
      obtain u root' N' where "delete_fixup root1 N3 e d = Some (root', N')"
          "balanced root' N' u (ino (plug t ((d, e, True, k, v, y) # (d, s, False, ks, vs, z) # gs))) (dom N3)"
        using delete_black_sibling[OF 3(3) t f3] f1 True by auto
      moreover have "ino (plug t ((d, e, True, k, v, y) # (d, s, False, ks, vs, z) # gs)) = ino (plug t fs)"
        using fs w by (simp add: ino_plug ino_nd)
      ultimately show ?thesis using 3 hd by auto
    next
      case False
      show ?thesis
      proof (cases "c \<or> red y \<or> red z")
        case True
        have wb: "\<not> red w" and wn: "w = nd d s False ks vs y z" using w False by simp_all
        have ex: "c \<or> (\<exists>s ks vs y z. w = nd d s False ks vs y z \<and> (red y \<or> red z))" using True wn by blast
        from delete_black_sibling[OF r[unfolded fs] t f[unfolded fs] wb ex] show ?thesis unfolding hd unfolding fs .
      next
        case b: False
        obtain N1 where 1: "delete_fixup root N e d = delete_fixup root N1 (par_of gs) (hdir d gs)" "dom N1 = dom N"
          "trep root N1 (nd d e False k v t (nd d s True ks vs y z)) gs"
          using delete_climb[of root N t d e k v s ks vs y z gs] r1 b False by auto
        let ?t = "nd d e False k v t (nd d s True ks vs y z)"
        have i: "invc ?t" "invh ?t" "\<not> red ?t" "finv (bh ?t + 1) gs" using f1 t b False by auto
        have "length gs < length fs" using fs by simp
        from less.hyps[OF this 1(3) i, of d] obtain root' N' u where
          "delete_fixup root N1 (par_of gs) (hdir d gs) = Some (root', N')" "balanced root' N' u (ino (plug ?t gs)) (dom N1)" by blast
        moreover have "ino (plug ?t gs) = ino (plug t fs)" using fs w by (simp add: ino_plug ino_nd)
        ultimately show ?thesis using 1 hd by auto
      qed
    qed
  qed
qed

end
