(* ===== verification/Rbt_Out.thy ===== *)
theory Rbt_Out
  imports Rbt_Delete
begin

text \<open>
  The node that a deletion takes out: the node itself or its successor, and how the links around it are closed.
\<close>

section \<open>The node that is taken out\<close>

lemma plug_append: "plug t (fs @ gs) = plug (plug t fs) gs"
  by (induction t fs rule: plug.induct) auto

lemma rep_plug_append: "trep root N (plug t hs) fs \<longleftrightarrow> trep root N t (hs @ fs)"
proof (induction hs arbitrary: t)
  case (Cons h hs)
  then show ?case by (cases h) (simp add: rep_Cons)
qed simp

lemma leftmost_ok:
  assumes "tr N par t" "t \<noteq> Lf"
  shows "\<exists>hs a c k v y. leftmost_loop N (root_of t) = Some a \<and> plug (Nd a c k v Lf y) hs = t \<and> pre hs = []"
  using assms
proof (induction t arbitrary: par)
  case (Nd a c k v l r)
  show ?case
  proof (cases "l = Lf")
    case True
    then have "leftmost_loop N a = Some a" using Nd.prems by (subst leftmost_loop.simps) simp
    then show ?thesis using True by (intro exI[of _ "[]"] exI[of _ a] exI[of _ c] exI[of _ k] exI[of _ v] exI[of _ r]) simp
  next
    case False
    have tl: "tr N a l" using Nd.prems by simp
    obtain hs b c' k' v' y where i: "leftmost_loop N (root_of l) = Some b" "plug (Nd b c' k' v' Lf y) hs = l" "pre hs = []"
      using Nd.IH(1)[OF tl False] by blast
    have "root_of l \<noteq> 0" using root_of_0[OF tl] False by simp
    then have "leftmost_loop N a = Some b" using Nd.prems i(1) by (subst leftmost_loop.simps) simp
    moreover have "plug (Nd b c' k' v' Lf y) (hs @ [(False, a, c, k, v, r)]) = Nd a c k v l r"
      unfolding plug_append i(2) by (simp add: nd_def)
    moreover have "pre (hs @ [(False, a, c, k, v, r)]) = []" using i(3)
      by (induction hs rule: pre.induct) (auto split: if_splits)
    ultimately show ?thesis
      by (intro exI[of _ "hs @ [(False, a, c, k, v, r)]"] exI[of _ b] exI[of _ c'] exI[of _ k'] exI[of _ v'] exI[of _ y]) simp
  qed
qed simp

lemma move_ok:
  assumes r: "trep root N (nd d a c k v x y) fs"
  shows "\<exists>N'. upd a (\<lambda>n. n\<lparr>rkey := k', rvalue := v'\<rparr>) N = Some N' \<and> trep root N' (nd d a c k' v' x y) fs \<and> dom N' = dom N"
proof -
  have "a \<notin> addrs x" "a \<notin> addrs y" "a \<notin> faddrs fs" using r by (auto simp: trep_def)
  then show ?thesis using r by (auto simp: trep_def upd_def fun_upd_apply)
qed

lemma delete_target_ok:
  assumes r: "trep root N (Nd a c k v l x) fs" and inv: "finv (bh (Nd a c k v l x)) fs" "invc (Nd a c k v l x)" "invh (Nd a c k v l x)"
      "c \<longrightarrow> fs \<noteq> [] \<and> \<not> fred fs"
  shows "\<exists>N1 b c' k' v' l' x' gs. delete_target N a = Some (N1, b) \<and> trep root N1 (Nd b c' k' v' l' x') gs \<and> dom N1 = dom N \<and>
    (l' = Lf \<or> x' = Lf) \<and> finv (bh (Nd b c' k' v' l' x')) gs \<and> invc (Nd b c' k' v' l' x') \<and> invh (Nd b c' k' v' l' x') \<and>
    (c' \<longrightarrow> gs \<noteq> [] \<and> \<not> fred gs) \<and>
    (b = a \<and> pre gs @ ino l' @ ino x' @ post gs = pre fs @ ino l @ ino x @ post fs \<or>
     (\<exists>zs. ino x = (b, k', v') # zs \<and> pre gs @ ino l' @ ino x' @ post gs = pre fs @ ino l @ (a, k', v') # zs @ post fs))"
proof (cases "l = Lf \<or> x = Lf")
  case True
  have t: "tr N a l" "tr N a x" using r by (simp_all add: trep_def)
  have "delete_target N a = Some (N, a)"
    using r True root_of_0[OF t(1)] root_of_0[OF t(2)] by (auto simp: delete_target_def trep_def)
  then show ?thesis using r inv True
    by (intro exI[of _ N] exI[of _ a] exI[of _ c] exI[of _ k] exI[of _ v] exI[of _ l] exI[of _ x] exI[of _ fs]) simp
next
  case False
  have t: "tr N a l" "tr N a x" and na: "N a = Some \<lparr>rkey = k, rvalue = v, color = c, parent = par_of fs, children = (\<lambda>e. if e then root_of x else root_of l)\<rparr>"
    using r by (simp_all add: trep_def)
  obtain hs b c' k' v' y where lm: "leftmost_loop N (root_of x) = Some b" "plug (Nd b c' k' v' Lf y) hs = x" "pre hs = []"
    using leftmost_ok[OF t(2)] False by blast
  have nb: "\<exists>n. N b = Some n \<and> rkey n = k' \<and> rvalue n = v'"
  proof -
    have "trep root N x ((True, a, c, k, v, l) # fs)" using r by (simp add: rep_Cons nd_def)
    then have "trep root N (Nd b c' k' v' Lf y) (hs @ (True, a, c, k, v, l) # fs)" unfolding lm(2)[symmetric] by (simp add: rep_plug_append)
    then show ?thesis by (auto simp: trep_def)
  qed
  have r0: "trep root N (nd True a c k v x l) fs" using r by (simp add: nd_def)
  obtain N1 where n1: "upd a (\<lambda>n. n\<lparr>rkey := k', rvalue := v'\<rparr>) N = Some N1" "trep root N1 (nd True a c k' v' x l) fs" "dom N1 = dom N"
    using move_ok[OF r0] by blast
  let ?gs = "hs @ (True, a, c, k', v', l) # fs" and ?t = "Nd b c' k' v' Lf y"
  have "trep root N1 x ((True, a, c, k', v', l) # fs)" using n1(2) by (simp add: rep_Cons)
  then have r1: "trep root N1 ?t ?gs" unfolding lm(2)[symmetric] by (simp add: rep_plug_append)
  have tgt: "delete_target N a = Some (N1, b)"
    using na False root_of_0[OF t(1)] root_of_0[OF t(2)] lm(1) nb n1(1) by (auto simp: delete_target_def)
  have pl: "plug ?t ?gs = plug (nd True a c k' v' x l) fs" by (simp add: plug_append lm(2))
  let ?u = "nd True a c k' v' x l"
  have u: "invc ?u" "invh ?u" "finv (bh ?u) fs" "red ?u \<longrightarrow> fs \<noteq> [] \<and> \<not> fred fs" using inv by (auto simp: nd_def)
  have "\<not> red (plug ?u fs)" using plug_inv[OF u(3,1,2)] u(4) by (cases "fs = []") auto
  then have fin: "finv (bh ?t) ?gs \<and> invc ?t \<and> invh ?t \<and> (red ?t \<longrightarrow> ?gs \<noteq> [] \<and> \<not> fred ?gs)"
    using unplug_inv[of ?t ?gs] plug_inv[OF u(3,1,2)] u(4) unfolding pl by blast
  have ix: "ino x = (b, k', v') # ino y @ post hs" using ino_plug[of ?t hs] lm(2,3) by simp
  have pp: "pre (hs @ gs) = pre gs @ pre hs" "post (hs @ gs) = post hs @ post gs" for gs
    by (induction hs rule: pre.induct) auto
  have "pre ?gs @ ino Lf @ ino y @ post ?gs = pre fs @ ino l @ (a, k', v') # (ino y @ post hs) @ post fs"
    using lm(3) by (simp add: pp)
  with ix have "\<exists>zs. ino x = (b, k', v') # zs \<and> pre ?gs @ ino Lf @ ino y @ post ?gs = pre fs @ ino l @ (a, k', v') # zs @ post fs" by blast
  moreover have "c' \<longrightarrow> ?gs \<noteq> [] \<and> \<not> fred ?gs" using fin by simp
  ultimately show ?thesis using tgt r1 n1(3) fin by blast
qed

lemma cx_replace:
  assumes "cx N p fs" "fsep fs" "p \<noteq> 0" "p \<notin> faddrs fs"
  shows "\<exists>N'. (if par_of fs = 0 then Some (q, N, False)
       else do {
         pn \<leftarrow> N (par_of fs);
         let dir = (p = children pn True);
         N1 \<leftarrow> set_child (par_of fs) dir q N;
         Some (top_of p fs, N1, dir)
       }) = Some (top_of q fs, N', hdir False fs) \<and> cx N' q fs \<and> (\<forall>a. a \<notin> faddrs fs \<longrightarrow> N' a = N a) \<and> dom N' = dom N"
proof (cases fs)
  case Nil
  then show ?thesis by (simp add: hdir_def)
next
  case (Cons f gs)
  obtain e g cg kg vg w where f: "f = (e, g, cg, kg, vg, w)" by (cases f)
  have "root_of w \<noteq> p" using assms Cons f by (intro root_of_neq) auto
  then show ?thesis
    using assms Cons f by (cases e) (auto simp: upd_def hdir_def)
qed

lemma delete_unlink_ok:
  assumes r: "trep root N (Nd a c k v l x) fs" and u: "l = Lf \<and> u = x \<or> x = Lf \<and> u = l"
  shows "\<exists>root' N'. delete_unlink root N a = Some (root', N', root_of u, hdir False fs) \<and>
    trep root' (N'(a := None)) u fs \<and> trep root' N' u fs \<and> dom N' = dom N"
proof -
  let ?n = "\<lparr>rkey = k, rvalue = v, color = c, parent = par_of fs, children = (\<lambda>e. if e then root_of x else root_of l)\<rparr>"
  have N: "N a = Some ?n" "a \<noteq> 0" and t: "tr N a l" "tr N a x" "cx N a fs" "root = top_of a fs"
    and s: "sep l" "sep x" "fsep fs" and na: "a \<notin> addrs l" "a \<notin> addrs x" "a \<notin> faddrs fs"
    and dj: "addrs l \<inter> faddrs fs = {}" "addrs x \<inter> faddrs fs = {}"
    using r by (auto simp: trep_def)
  have ch: "(if (if False then root_of x else root_of l) = 0 then root_of x else root_of l) = root_of u"
    using u root_of_0[OF t(1)] root_of_0[OF t(2)] by auto
  obtain N1 where 1: "(if par_of fs = 0 then Some (root_of u, N, False)
       else do {
         pn \<leftarrow> N (par_of fs);
         let dir = (a = children pn True);
         N1 \<leftarrow> set_child (par_of fs) dir (root_of u) N;
         Some (root, N1, dir)
       }) = Some (top_of (root_of u) fs, N1, hdir False fs)" "cx N1 (root_of u) fs"
       "\<And>b. b \<notin> faddrs fs \<Longrightarrow> N1 b = N b" "dom N1 = dom N"
    using cx_replace[OF t(3) s(3) N(2) na(3), of "root_of u"] t(4) by blast
  have uu: "tr N a u" "sep u" "a \<notin> addrs u" "addrs u \<inter> faddrs fs = {}" using u t s na dj by auto
  have "tr N1 a u = tr N a u" using uu(4) 1(3) by (intro tr_cong) blast
  with uu obtain N2 where 2: "(if root_of u \<noteq> 0 then set_parent (root_of u) (par_of fs) N1 else Some N1) = Some N2" "tr N2 (par_of fs) u"
    "\<And>b. b \<notin> addrs u \<Longrightarrow> N2 b = N1 b" "dom N2 = dom N1" using tr_reparent[of N1 a u "par_of fs"] by blast
  have "delete_unlink root N a = Some (top_of (root_of u) fs, N2, root_of u, hdir False fs)"
    unfolding delete_unlink_def by (simp only: N(1) bind.simps Let_def rbt_node.simps ch 1(1)[unfolded Let_def] 2(1) prod.case)
  moreover have "cx N2 (root_of u) fs = cx N1 (root_of u) fs" using uu(4) 2(3) by (intro cx_cong) blast
  then have "trep (top_of (root_of u) fs) N2 u fs" using 1(2) 2(2) uu s by (simp add: trep_def)
  moreover from this have "trep (top_of (root_of u) fs) (N2(a := None)) u fs" using uu(3) na(3) by (simp add: trep_def)
  ultimately show ?thesis using 2(4) 1(4) by blast
qed

end
