(* ===== verification/Rbt_Map.thy ===== *)
theory Rbt_Map
  imports Rbt_Out "HOL-Library.Multiset"
begin

text \<open>
  The red-black tree as an ordered map: the operations of \<open>rbt.c\<close> act on the entries in the order of their keys.
\<close>

section \<open>Taking a node out\<close>

text \<open>Emptying a link that is already empty changes nothing.\<close>

lemma cut_ok:
  assumes r: "trep root N Lf fs"
  shows "(if par_of fs \<noteq> 0 then set_child (par_of fs) (hdir False fs) 0 N else Some N) = Some N"
proof (cases fs)
  case (Cons f gs)
  obtain e g cg kg vg w where f: "f = (e, g, cg, kg, vg, w)" by (cases f)
  have "N g = Some \<lparr>rkey = kg, rvalue = vg, color = cg, parent = par_of gs, children = (\<lambda>i. if i = e then 0 else root_of w)\<rparr>"
    using r Cons f by (simp add: trep_def)
  then show ?thesis using Cons f by (simp add: hdir_def upd_def fun_upd_idem)
qed simp

lemma one_child:
  assumes "invc (Nd b c k v l x)" "invh (Nd b c k v l x)" "l = Lf \<and> u = x \<or> x = Lf \<and> u = l"
  shows "invc u" "invh u" "bh u = 0" "c \<Longrightarrow> \<not> red u" "\<not> red u \<Longrightarrow> u = Lf"
proof -
  show "invc u" "invh u" "bh u = 0" "c \<Longrightarrow> \<not> red u" using assms by auto
  then show "\<not> red u \<Longrightarrow> u = Lf" by (cases u) auto
qed

lemma delete_out_ok:
  assumes r: "trep (rbt_root (rtree r)) (rnodes r) (Nd b c k v l x) fs" and one: "l = Lf \<or> x = Lf"
    and inv: "finv (bh (Nd b c k v l x)) fs" "invc (Nd b c k v l x)" "invh (Nd b c k v l x)"
    and free: "dealloc b (rheap r) = Some h"
  shows "\<exists>root' N' s. delete_out dealloc b r = Some (r\<lparr>rnodes := N', rheap := h, rtree := (rtree r)\<lparr>rbt_root := root'\<rparr>\<rparr>) \<and>
    balanced root' N' s (pre fs @ ino l @ ino x @ post fs) (dom (rnodes r) - {b})"
proof -
  obtain u where u: "l = Lf \<and> u = x \<or> x = Lf \<and> u = l" using one by blast
  note uu = one_child[OF inv(2,3) u]
  have es: "pre fs @ ino u @ post fs = pre fs @ ino l @ ino x @ post fs" using u by auto
  have nb: "rnodes r b = Some \<lparr>rkey = k, rvalue = v, color = c, parent = par_of fs, children = (\<lambda>e. if e then root_of x else root_of l)\<rparr>"
    using r by (simp add: trep_def)
  obtain root1 N2 where 2: "delete_unlink (rbt_root (rtree r)) (rnodes r) b = Some (root1, N2, root_of u, hdir False fs)"
    "trep root1 (N2(b := None)) u fs" "trep root1 N2 u fs" "dom N2 = dom (rnodes r)"
    using delete_unlink_ok[OF r u] by blast
  have red: "is_red N2 (root_of u) = Some (red u)" using 2(3) is_red_ok[of N2 "par_of fs" u] by (simp add: trep_def)
  have d: "dom (N2(b := None)) = dom (rnodes r) - {b}" using 2(4) by auto
  consider "red u" | "\<not> red u" "c" | "\<not> red u" "\<not> c" by blast
  then show ?thesis
  proof cases
    case 1
    obtain a ku vu y z where un: "u = Nd a True ku vu y z" using 1 by (cases u) auto
    have bu: "a \<noteq> b" using r u un by (auto simp: trep_def)
    obtain n where n: "N2 a = Some n" "color n" using 2(3) un by (auto simp: trep_def)
    let ?N = "(N2(b := None))(a \<mapsto> n\<lparr>color := False\<rparr>)"
    have "a \<in> addrs u" using un by simp
    from set_color_ok[OF 2(2) this, of False] have "trep root1 ?N (paint a False u) fs" using n bu by (auto simp: upd_def)
    then have "trep root1 ?N (Nd a False ku vu y z) fs" using un 2(3) by (auto simp: trep_def)
    moreover have "invc (Nd a False ku vu y z)" "invh (Nd a False ku vu y z)" "bh (Nd a False ku vu y z) = bh (Nd b c k v l x)"
      using uu 1 un inv u by auto
    ultimately obtain s where s: "balanced root1 ?N s (pre fs @ ino (Nd a False ku vu y z) @ post fs) (dom ?N)"
      using balancedI[of root1 ?N "Nd a False ku vu y z" fs, OF _ _ _ _ _ refl] inv(1) by auto
    have sw: "N2(a \<mapsto> n\<lparr>color := False\<rparr>, b := None) = ?N" using bu by (simp add: fun_upd_twist)
    have "dom ?N = dom (rnodes r) - {b}" using d n(1) bu by (auto simp: fun_upd_apply split: if_splits)
    moreover have "pre fs @ ino (Nd a False ku vu y z) @ post fs = pre fs @ ino l @ ino x @ post fs" using es un by simp
    ultimately have "balanced root1 ?N s (pre fs @ ino l @ ino x @ post fs) (dom (rnodes r) - {b})" using s by (simp only:)
    moreover have "\<not> c" using uu(4) 1 by blast
    then have "delete_out dealloc b r = Some (r\<lparr>rnodes := ?N, rheap := h, rtree := (rtree r)\<lparr>rbt_root := root1\<rparr>\<rparr>)"
      using nb 2(1) red 1 free n sw un by (simp add: delete_out_def upd_def)
    ultimately show ?thesis by blast
  next
    case 2
    have "bh u = bh (Nd b c k v l x)" using uu(3) 2 inv(3) u by auto
    then obtain s where "balanced root1 (N2(b := None)) s (pre fs @ ino u @ post fs) (dom (N2(b := None)))"
      using balancedI[OF \<open>trep root1 (N2(b := None)) u fs\<close> uu(1,2) _ _ refl] inv(1) 2 by auto
    moreover have "delete_out dealloc b r = Some (r\<lparr>rnodes := N2(b := None), rheap := h, rtree := (rtree r)\<lparr>rbt_root := root1\<rparr>\<rparr>)"
      using nb \<open>delete_unlink _ _ _ = _\<close> red 2 free by (simp add: delete_out_def)
    ultimately show ?thesis unfolding d es by blast
  next
    case 3
    have uL: "u = Lf" using uu(5) 3 by blast
    have rL: "trep root1 (N2(b := None)) Lf fs" using 2(2) uL by simp
    have "finv (bh Lf + 1) fs" using inv(1,3) 3(2) uu(3) u uL by auto
    then obtain root' N' s where f: "delete_fixup root1 (N2(b := None)) (par_of fs) (hdir False fs) = Some (root', N')"
      "balanced root' N' s (ino (plug Lf fs)) (dom (N2(b := None)))" using delete_fixup_ok[OF rL, where dir = False] by auto
    have "delete_out dealloc b r = Some (r\<lparr>rnodes := N', rheap := h, rtree := (rtree r)\<lparr>rbt_root := root'\<rparr>\<rparr>)"
      using nb 2(1) red 3 free f(1) cut_ok[OF rL] by (cases "par_of fs = 0") (simp_all add: delete_out_def)
    moreover have "ino (plug Lf fs) = pre fs @ ino l @ ino x @ post fs" unfolding ino_plug using es uL by simp
    ultimately show ?thesis using f(2) unfolding d by auto
  qed
qed

text \<open>
  What a deletion leaves. Where the node has two children its successor's key and value move into it, and the successor's
  node is the one that is freed.
\<close>

definition removed :: "ptr \<Rightarrow> (ptr \<times> u64 \<times> ptr) list \<Rightarrow> ptr \<Rightarrow> (ptr \<times> u64 \<times> ptr) list \<Rightarrow> bool" where
  "removed p es b es' \<longleftrightarrow> (\<exists>xs k v ys. es = xs @ (p, k, v) # ys \<and>
     (b = p \<and> es' = xs @ ys \<or> (\<exists>k' v' zs. ys = (b, k', v') # zs \<and> es' = xs @ (p, k', v') # zs)))"

lemma split_unique:
  assumes "distinct (map fst (xs @ (p, e) # ys))" "xs @ (p, e) # ys = us @ (p, f) # vs"
  shows "xs = us \<and> e = f \<and> ys = vs"
  using assms
proof (induction xs arbitrary: us)
  case Nil
  then show ?case by (cases us) auto
next
  case (Cons x xs)
  obtain us' where us: "us = x # us'" using Cons.prems by (cases us) auto
  have "distinct (map fst (xs @ (p, e) # ys))" using Cons.prems(1) by simp
  moreover have "xs @ (p, e) # ys = us' @ (p, f) # vs" using Cons.prems(2) us by simp
  ultimately show ?case using Cons.IH us by blast
qed

lemma removed_at:
  assumes "removed p (xs @ (p, k, v) # ys) b es'" "distinct (map fst (xs @ (p, k, v) # ys))"
  shows "b = p \<and> es' = xs @ ys \<or> (\<exists>k' v' zs. ys = (b, k', v') # zs \<and> es' = xs @ (p, k', v') # zs)"
proof -
  obtain us k0 v0 vs where x: "xs @ (p, k, v) # ys = us @ (p, k0, v0) # vs"
    "b = p \<and> es' = us @ vs \<or> (\<exists>k' v' zs. vs = (b, k', v') # zs \<and> es' = us @ (p, k', v') # zs)"
    using assms(1) unfolding removed_def by blast
  then show ?thesis using split_unique[OF assms(2) x(1)] by simp
qed

lemma removed_entries:
  assumes "removed p es b es'"
  obtains k v where "(p, k, v) \<in> set es" "b \<in> fst ` set es" "mset (map snd es) = add_mset (k, v) (mset (map snd es'))"
    "mset (map fst es) = add_mset b (mset (map fst es'))" "ordered es \<Longrightarrow> ordered es'"
proof -
  obtain xs k v ys where x: "es = xs @ (p, k, v) # ys"
    "b = p \<and> es' = xs @ ys \<or> (\<exists>k' v' zs. ys = (b, k', v') # zs \<and> es' = xs @ (p, k', v') # zs)"
    using assms unfolding removed_def by blast
  then show thesis
    by (intro that[of k v]) (auto simp: sorted_wrt_append)
qed

lemma removed_addrs:
  assumes "removed p es b es'" "distinct (map fst es)"
  shows "fst ` set es' = fst ` set es - {b}"
proof -
  have m: "mset (map fst es) = mset (b # map fst es')" using assms(1) by (rule removed_entries) simp
  have "distinct (b # map fst es')" using assms(2) m by (metis mset_eq_imp_distinct_iff)
  moreover have "set (map fst es) = set (b # map fst es')" using m by (metis set_mset_mset)
  ultimately show ?thesis by auto
qed

lemma sep_distinct: "sep t \<Longrightarrow> distinct (map fst (ino t))"
  by (induction t) (auto simp: addrs_ino)

lemma rbt_delete_node_ok:
  assumes r: "trep (rbt_root (rtree r)) (rnodes r) t []" and inv: "invc t" "invh t" "\<not> red t" and p: "p \<in> addrs t"
  shows "\<exists>b es'. b \<in> addrs t \<and> removed p (ino t) b es' \<and> (\<forall>h. dealloc b (rheap r) = Some h \<longrightarrow>
    (\<exists>root' N' s. rbt_delete_node dealloc p r = Some (r\<lparr>rnodes := N', rheap := h, rtree := (rtree r)\<lparr>rbt_root := root'\<rparr>\<rparr>) \<and>
      balanced root' N' s es' (dom (rnodes r) - {b})))"
proof -
  obtain s0 fs where s0: "plug s0 fs = t" "root_of s0 = p" "s0 \<noteq> Lf" using focus_exists[OF p] by blast
  obtain c k v l x where s: "s0 = Nd p c k v l x" using s0(2,3) by (cases s0) auto
  have rf: "trep (rbt_root (rtree r)) (rnodes r) (Nd p c k v l x) fs" using r s0(1) s by (simp add: rep_plug flip: s0(1))
  have fi: "finv (bh (Nd p c k v l x)) fs" "invc (Nd p c k v l x)" "invh (Nd p c k v l x)" "c \<longrightarrow> fs \<noteq> [] \<and> \<not> fred fs"
    using unplug_inv[of "Nd p c k v l x" fs] inv s0(1) s by auto
  obtain N1 b c' k' v' l' x' gs where d: "delete_target (rnodes r) p = Some (N1, b)"
    "trep (rbt_root (rtree r)) N1 (Nd b c' k' v' l' x') gs" "dom N1 = dom (rnodes r)" "l' = Lf \<or> x' = Lf"
    "finv (bh (Nd b c' k' v' l' x')) gs" "invc (Nd b c' k' v' l' x')" "invh (Nd b c' k' v' l' x')"
    "b = p \<and> pre gs @ ino l' @ ino x' @ post gs = pre fs @ ino l @ ino x @ post fs \<or>
     (\<exists>zs. ino x = (b, k', v') # zs \<and> pre gs @ ino l' @ ino x' @ post gs = pre fs @ ino l @ (p, k', v') # zs @ post fs)"
    using delete_target_ok[OF rf fi] by metis
  have es: "ino t = pre fs @ ino l @ (p, k, v) # ino x @ post fs" using ino_plug[of s0 fs] s0(1) s by simp
  have rem: "removed p (ino t) b (pre gs @ ino l' @ ino x' @ post gs)"
    using d(8) unfolding removed_def es by (intro exI[of _ "pre fs @ ino l"] exI[of _ k] exI[of _ v] exI[of _ "ino x @ post fs"]) auto
  then have "b \<in> addrs t" unfolding addrs_ino removed_def by force
  moreover have "\<exists>root' N' s. rbt_delete_node dealloc p r = Some (r\<lparr>rnodes := N', rheap := h, rtree := (rtree r)\<lparr>rbt_root := root'\<rparr>\<rparr>) \<and>
      balanced root' N' s (pre gs @ ino l' @ ino x' @ post gs) (dom (rnodes r) - {b})" if "dealloc b (rheap r) = Some h" for h
    using delete_out_ok[of "r\<lparr>rnodes := N1\<rparr>" b c' k' v' l' x' gs dealloc h] d that by (simp add: rbt_delete_node_def)
  ultimately show ?thesis using rem by blast
qed

context allocator
begin

lemma rbt_delete_rep:
  assumes rp: "rbt_rep rep F r es" and p: "p \<in> fst ` set es"
  shows "\<exists>r' b es'. rbt_delete dealloc p r = Some r' \<and> removed p es b es' \<and> rbt_rep rep F r' es' \<and> rraw r' = rraw r"
proof -
  obtain t where t: "rbt_ok rep F r t" "ino t = es" using rp by (auto simp: rbt_rep_def)
  have m: "mutex_free (rbt_lock (rtree r))" and tr: "trep (rbt_root (rtree r)) (rnodes r) t []" "ordered (ino t)"
    and inv: "invc t" "invh t" "\<not> red t" and d: "dom (rnodes r) = addrs t" "F \<inter> addrs t = {}" and h: "holds rep (rheap r) (F \<union> addrs t)"
    using t(1) by (simp_all add: rbt_ok_def)
  have pt: "p \<in> addrs t" using p t(2) by (simp add: addrs_ino)
  obtain b es' where b: "b \<in> addrs t" "removed p (ino t) b es'" "\<And>h. dealloc b (rheap r) = Some h \<Longrightarrow>
    \<exists>root' N' s. rbt_delete_node dealloc p r = Some (r\<lparr>rnodes := N', rheap := h, rtree := (rtree r)\<lparr>rbt_root := root'\<rparr>\<rparr>) \<and>
      balanced root' N' s es' (dom (rnodes r) - {b})"
    using rbt_delete_node_ok[OF tr(1) inv pt, of dealloc] by blast
  have "b \<in> F \<union> addrs t" using b(1) by blast
  from dealloc_holds[OF h this] obtain h' where h': "dealloc b (rheap r) = Some h'" "holds rep h' (F \<union> addrs t - {b})" by blast
  obtain root' N' s where s: "rbt_delete_node dealloc p r = Some (r\<lparr>rnodes := N', rheap := h', rtree := (rtree r)\<lparr>rbt_root := root'\<rparr>\<rparr>)"
    "balanced root' N' s es' (dom (rnodes r) - {b})" using b(3)[OF h'(1)] by blast
  have rk: "ordered es'" using b(2) by (rule removed_entries) (use tr(2) in blast)
  have "distinct (map fst (ino t))" using tr(1) by (intro sep_distinct) (simp add: trep_def)
  then have as: "addrs s = addrs t - {b}" using removed_addrs[OF b(2)] s(2) by (simp add: addrs_ino balanced_def)
  have "F \<union> addrs s = F \<union> addrs t - {b}" using as d(2) b(1) by blast
  then have "rbt_ok rep F (r\<lparr>rnodes := N', rheap := h', rtree := (rtree r)\<lparr>rbt_root := root'\<rparr>\<rparr>) s"
    using m s(2) rk d h'(2) as unfolding rbt_ok_def balanced_def by auto
  moreover have "p \<noteq> 0" using tr_nonnull pt tr(1) by (metis trep_def)
  ultimately show ?thesis
    using s b(2) t(2) kmutex_lock_free[OF m] kmutex_unlock_free[OF m]
    by (intro exI[of _ "r\<lparr>rnodes := N', rheap := h', rtree := (rtree r)\<lparr>rbt_root := root'\<rparr>\<rparr>"] exI[of _ b] exI[of _ es'])
      (auto simp: rbt_delete_def rbt_rep_def balanced_def)
qed

lemma rbt_delete_null:
  assumes "rbt_rep rep F r es"
  shows "rbt_delete dealloc 0 r = Some r"
proof -
  have m: "mutex_free (rbt_lock (rtree r))" using assms by (auto simp: rbt_rep_def rbt_ok_def)
  show ?thesis using kmutex_lock_free[OF m] kmutex_unlock_free[OF m] by (simp add: rbt_delete_def)
qed

end

section \<open>The least key\<close>

lemma rbt_minimum_rep:
  assumes rp: "rbt_rep hrep F r es"
  shows "rbt_minimum r = Some (case es of [] \<Rightarrow> 0 | e # _ \<Rightarrow> fst e, r)"
proof -
  obtain t where t: "rbt_ok hrep F r t" "ino t = es" using rp by (auto simp: rbt_rep_def)
  have m: "mutex_free (rbt_lock (rtree r))" and tr: "trep (rbt_root (rtree r)) (rnodes r) t []"
    using t(1) by (simp_all add: rbt_ok_def)
  have root: "rbt_root (rtree r) = root_of t" "tr (rnodes r) 0 t" using tr by (simp_all add: trep_def)
  show ?thesis
  proof (cases "t = Lf")
    case True
    then show ?thesis using root t(2) by (auto simp: rbt_minimum_def)
  next
    case False
    obtain hs a c k v y where l: "leftmost_loop (rnodes r) (root_of t) = Some a" "plug (Nd a c k v Lf y) hs = t" "pre hs = []"
      using leftmost_ok[OF root(2) False] by blast
    have "es = (a, k, v) # ino y @ post hs" using ino_plug[of "Nd a c k v Lf y" hs] l(2,3) t(2) by simp
    moreover have "root_of t \<noteq> 0" using root_of_0[OF root(2)] False by simp
    ultimately show ?thesis using l(1) root(1) kmutex_lock_free[OF m] kmutex_unlock_free[OF m]
      by (simp add: rbt_minimum_def)
  qed
qed

section \<open>The depth of the tree\<close>

fun depth :: "tree \<Rightarrow> nat" where
  "depth Lf = 0"
| "depth (Nd a c k v l r) = Suc (max (depth l) (depth r))"

lemma depth_bh: "invc t \<Longrightarrow> invh t \<Longrightarrow> depth t \<le> 2 * bh t + (if red t then 1 else 0)"
proof (induction t)
  case (Nd a c k v l r)
  then show ?case by (cases "red l"; cases "red r") auto
qed simp

lemma bh_size: "invh t \<Longrightarrow> 2 ^ bh t \<le> length (ino t) + 1"
proof (induction t)
  case (Nd a c k v l r)
  then have "2 ^ bh l \<le> length (ino l) + 1" "2 ^ bh l \<le> length (ino r) + 1" "bh l = bh r" by auto
  then show ?case by (cases c) auto
qed simp

lemma depth_log:
  assumes "invc t" "invh t" "\<not> red t"
  shows "2 ^ depth t \<le> (length (ino t) + 1)\<^sup>2"
proof -
  have "(2::nat) ^ depth t \<le> 2 ^ (2 * bh t)" using depth_bh[OF assms(1,2)] assms(3) by (intro power_increasing) auto
  also have "\<dots> = (2 ^ bh t)\<^sup>2" by (simp add: power_mult mult.commute)
  also have "\<dots> \<le> (length (ino t) + 1)\<^sup>2" using bh_size[OF assms(2)] by (intro power_mono) auto
  finally show ?thesis .
qed

text \<open>The node that a sequence of turns leads to, \<open>NULL\<close> past the leaves.\<close>

fun descend :: "rstore \<Rightarrow> bool list \<Rightarrow> ptr \<Rightarrow> ptr" where
  "descend N [] p = p"
| "descend N (d # ds) p = (case N p of None \<Rightarrow> 0 | Some n \<Rightarrow> if p = 0 then 0 else descend N ds (children n d))"

lemma descend_null: "descend N ds 0 = 0"
  by (cases ds) (auto split: option.splits)

lemma descend_depth: "tr N par t \<Longrightarrow> descend N ds (root_of t) \<noteq> 0 \<Longrightarrow> length ds < depth t"
proof (induction t arbitrary: par ds)
  case (Nd a c k v l r)
  show ?case
  proof (cases ds)
    case (Cons d es)
    have t: "tr N a l" "tr N a r" and "descend N es (root_of (if d then r else l)) \<noteq> 0" using Nd.prems Cons by (auto split: if_splits)
    then have "length es < depth (if d then r else l)" using Nd.IH(1)[OF t(1)] Nd.IH(2)[OF t(2)] by (cases d) auto
    then show ?thesis using Cons by (cases d) auto
  qed simp
qed (simp add: descend_null)

lemma descend_bound:
  assumes rp: "rbt_rep hrep F r es" and d: "descend (rnodes r) ds (rbt_root (rtree r)) \<noteq> 0"
  shows "2 ^ Suc (length ds) \<le> (length es + 1)\<^sup>2"
proof -
  obtain t where t: "rbt_ok hrep F r t" "ino t = es" using rp by (auto simp: rbt_rep_def)
  have tr: "tr (rnodes r) 0 t" "rbt_root (rtree r) = root_of t" using t(1) by (simp_all add: rbt_ok_def trep_def)
  have "Suc (length ds) \<le> depth t" using descend_depth[OF tr(1), of ds] d tr(2) by simp
  then have "(2::nat) ^ Suc (length ds) \<le> 2 ^ depth t" by (intro power_increasing) auto
  also have "\<dots> \<le> (length es + 1)\<^sup>2" using depth_log[of t] t by (simp add: rbt_ok_def)
  finally show ?thesis .
qed

section \<open>Writing a value\<close>

text \<open>Clients store through the node that an insertion returns.\<close>

definition put_value :: "ptr \<Rightarrow> ptr \<Rightarrow> 's rbt \<Rightarrow> 's rbt option" where
  "put_value p v r = do {
     N \<leftarrow> upd p (\<lambda>n. n\<lparr>rvalue := v\<rparr>) (rnodes r);
     Some (r\<lparr>rnodes := N\<rparr>)
   }"

lemma put_value_rep:
  assumes rp: "rbt_rep hrep F r (xs @ (p, k, w) # ys)"
  shows "\<exists>r'. put_value p v r = Some r' \<and> rbt_rep hrep F r' (xs @ (p, k, v) # ys) \<and> rheap r' = rheap r \<and> rraw r' = rraw r"
proof -
  obtain t where t: "rbt_ok hrep F r t" "ino t = xs @ (p, k, w) # ys" using rp by (auto simp: rbt_rep_def)
  have tr: "trep (rbt_root (rtree r)) (rnodes r) t []" and inv: "invc t" "invh t" "\<not> red t" using t(1) by (simp_all add: rbt_ok_def)
  have "p \<in> addrs t" using t(2) by (simp add: addrs_ino)
  then obtain s0 fs where s0: "plug s0 fs = t" "root_of s0 = p" "s0 \<noteq> Lf" using focus_exists by blast
  obtain c k0 w0 l x where s: "s0 = Nd p c k0 w0 l x" using s0(2,3) by (cases s0) auto
  have es: "ino t = (pre fs @ ino l) @ (p, k0, w0) # (ino x @ post fs)" using ino_plug[of s0 fs] s0(1) s by simp
  have "distinct (map fst (ino t))" using tr by (intro sep_distinct) (simp add: trep_def)
  then have eq: "xs = pre fs @ ino l" "k0 = k" "w0 = w" "ys = ino x @ post fs"
    using split_unique[OF _ es[unfolded t(2)]] t(2) by simp_all
  have "trep (rbt_root (rtree r)) (rnodes r) (nd True p c k w x l) fs" using tr s0(1) s eq by (simp add: rep_plug nd_def flip: s0(1))
  then obtain N' where N': "upd p (\<lambda>n. n\<lparr>rkey := k, rvalue := v\<rparr>) (rnodes r) = Some N'"
    "trep (rbt_root (rtree r)) N' (nd True p c k v x l) fs" "dom N' = dom (rnodes r)" using move_ok by blast
  have "rnodes r p = Some \<lparr>rkey = k, rvalue = w, color = c, parent = par_of fs, children = (\<lambda>e. if e then root_of x else root_of l)\<rparr>"
    using \<open>trep _ _ (nd True p c k w x l) fs\<close> by (simp add: trep_def nd_def)
  then have u: "upd p (\<lambda>n. n\<lparr>rvalue := v\<rparr>) (rnodes r) = Some N'" using N'(1) by (simp add: upd_def)
  let ?t = "plug (Nd p c k v l x) fs"
  have fi: "finv (bh (Nd p c k w l x)) fs" "invc (Nd p c k w l x)" "invh (Nd p c k w l x)" "c \<longrightarrow> fs \<noteq> [] \<and> \<not> fred fs"
    using unplug_inv[of "Nd p c k w l x" fs] inv s0(1) s eq by auto
  have "invc ?t \<and> invh ?t \<and> (fs \<noteq> [] \<longrightarrow> \<not> red ?t)" using plug_inv[of "Nd p c k v l x" fs] fi by auto
  moreover have "fs = [] \<Longrightarrow> \<not> red ?t" using fi(4) by simp
  moreover have it: "ino ?t = xs @ (p, k, v) # ys" using ino_plug[of "Nd p c k v l x" fs] eq by simp
  moreover have "addrs ?t = addrs t" using s0(1) s by (auto simp: addrs_plug)
  moreover have "trep (rbt_root (rtree r)) N' ?t []" using N'(2) by (simp add: rep_plug nd_def)
  moreover have "ekeys (ino ?t) = ekeys (ino t)" using it t(2) by simp
  ultimately have "rbt_ok hrep F (r\<lparr>rnodes := N'\<rparr>) ?t" using t(1) N'(3) unfolding rbt_ok_def by auto
  then show ?thesis using u it by (auto simp: put_value_def rbt_rep_def)
qed

section \<open>Clearing\<close>

abbreviation vals :: "tree \<Rightarrow> ptr set" where
  "vals t \<equiv> (\<lambda>e. snd (snd e)) ` set (ino t)"

context allocator
begin

lemma rbt_clear_ok:
  assumes "tr N par t" "sep t" "holds rep h A" "addrs t \<union> vals t \<subseteq> A"
    "distinct (map (\<lambda>e. snd (snd e)) (ino t))" "addrs t \<inter> vals t = {}"
  shows "\<exists>h'. rbt_clear dealloc (root_of t) N h = Some (\<lambda>a. if a \<in> addrs t then None else N a, h') \<and>
    holds rep h' (A - (addrs t \<union> vals t))"
  using assms
proof (induction t arbitrary: par N h A)
  case Lf
  then show ?case by (subst rbt_clear.simps) simp
next
  case (Nd a c k v l r)
  have t: "tr N a l" "tr N a r" "a \<noteq> 0" "sep l" "sep r" "a \<notin> addrs l" "a \<notin> addrs r" "addrs l \<inter> addrs r = {}"
    and n: "N a = Some \<lparr>rkey = k, rvalue = v, color = c, parent = par, children = (\<lambda>e. if e then root_of r else root_of l)\<rparr>"
    using Nd.prems by auto
  have v: "vals (Nd a c k v l r) = insert v (vals l \<union> vals r)" by auto
  have d: "distinct (map (\<lambda>e. snd (snd e)) (ino l))" "distinct (map (\<lambda>e. snd (snd e)) (ino r))"
    "vals l \<inter> vals r = {}" "v \<notin> vals l" "v \<notin> vals r" using Nd.prems(5) by auto
  have sub: "insert a (insert v (addrs l \<union> addrs r \<union> vals l \<union> vals r)) \<subseteq> A" using Nd.prems(4) unfolding v by auto
  have dj: "insert a (addrs l \<union> addrs r) \<inter> insert v (vals l \<union> vals r) = {}" using Nd.prems(6) unfolding v by simp
  have dl: "addrs l \<inter> vals l = {}" and dr: "addrs r \<inter> vals r = {}" using dj by blast+
  have sl: "addrs l \<union> vals l \<subseteq> A" using sub by blast
  from Nd.IH(1)[OF t(1,4) Nd.prems(3) sl d(1) dl]
  obtain h1 where h1: "rbt_clear dealloc (root_of l) N h = Some (\<lambda>a. if a \<in> addrs l then None else N a, h1)"
    "holds rep h1 (A - (addrs l \<union> vals l))" by blast
  let ?N1 = "\<lambda>a. if a \<in> addrs l then None else N a"
  have "tr ?N1 a r = tr N a r" using t(8) by (intro tr_cong) auto
  then have tr1: "tr ?N1 a r" using t(2) by blast
  have sr: "addrs r \<union> vals r \<subseteq> A - (addrs l \<union> vals l)" using sub dj t(8) d(3) by blast
  from Nd.IH(2)[OF tr1 t(5) h1(2) sr d(2) dr]
  obtain h2 where h2: "rbt_clear dealloc (root_of r) ?N1 h1 = Some (\<lambda>a. if a \<in> addrs r then None else ?N1 a, h2)"
    "holds rep h2 (A - (addrs l \<union> vals l) - (addrs r \<union> vals r))" by blast
  have "v \<in> A - (addrs l \<union> vals l) - (addrs r \<union> vals r)" using sub dj d by blast
  from dealloc_holds[OF h2(2) this] obtain h3 where h3: "dealloc v h2 = Some h3"
    "holds rep h3 (A - (addrs l \<union> vals l) - (addrs r \<union> vals r) - {v})" by blast
  have "a \<in> A - (addrs l \<union> vals l) - (addrs r \<union> vals r) - {v}" using sub dj t by blast
  from dealloc_holds[OF h3(2) this] obtain h4 where h4: "dealloc a h3 = Some h4"
    "holds rep h4 (A - (addrs l \<union> vals l) - (addrs r \<union> vals r) - {v} - {a})" by blast
  have "A - (addrs l \<union> vals l) - (addrs r \<union> vals r) - {v} - {a} = A - (addrs (Nd a c k v l r) \<union> vals (Nd a c k v l r))"
    unfolding v by auto
  moreover have "(\<lambda>b. if b \<in> addrs r then None else ?N1 b)(a := None) = (\<lambda>b. if b \<in> addrs (Nd a c k v l r) then None else N b)"
    by (auto simp: fun_eq_iff fun_upd_apply)
  moreover have "rbt_clear dealloc a N h = Some ((\<lambda>b. if b \<in> addrs r then None else ?N1 b)(a := None), h4)"
    using n t h1(1) h2(1) h3(1) h4(1) by (subst rbt_clear.simps) simp
  ultimately show ?case using h4(2) by simp
qed

text \<open>
  Where the values are distinct blocks of their own, clearing returns them and the nodes to the heap; what the rest of the
  kernel holds stays.
\<close>

lemma rbt_clear_rep:
  assumes rp: "rbt_rep rep F r es" and v: "distinct (map (\<lambda>e. snd (snd e)) es)" "(\<lambda>e. snd (snd e)) ` set es \<subseteq> F"
  shows "\<exists>r'. rbt_clear_tree dealloc r = Some r' \<and> rnodes r' = (\<lambda>_. None) \<and>
    holds rep (rheap r') (F - (\<lambda>e. snd (snd e)) ` set es) \<and> rbt_root (rtree r') = rbt_root (rtree r)"
proof -
  obtain t where t: "rbt_ok rep F r t" "ino t = es" using rp by (auto simp: rbt_rep_def)
  have m: "mutex_free (rbt_lock (rtree r))" and tr: "tr (rnodes r) 0 t" "sep t" "rbt_root (rtree r) = root_of t"
    and d: "dom (rnodes r) = addrs t" "F \<inter> addrs t = {}" and h: "holds rep (rheap r) (F \<union> addrs t)"
    using t(1) by (simp_all add: rbt_ok_def trep_def)
  have vt: "addrs t \<union> vals t \<subseteq> F \<union> addrs t" "distinct (map (\<lambda>e. snd (snd e)) (ino t))" "addrs t \<inter> vals t = {}"
    using v d(2) unfolding t(2) by auto
  from rbt_clear_ok[OF tr(1,2) h vt] obtain h' where
    c: "rbt_clear dealloc (root_of t) (rnodes r) (rheap r) = Some (\<lambda>a. if a \<in> addrs t then None else rnodes r a, h')"
      "holds rep h' (F \<union> addrs t - (addrs t \<union> vals t))" by blast
  have "(\<lambda>a. if a \<in> addrs t then None else rnodes r a) = (\<lambda>_. None)" using d(1) by (auto simp: fun_eq_iff)
  moreover have "F \<union> addrs t - (addrs t \<union> vals t) = F - (\<lambda>e. snd (snd e)) ` set es" using d(2) t(2) by auto
  ultimately show ?thesis using c tr(3) kmutex_lock_free[OF m] kmutex_unlock_free[OF m] by (simp add: rbt_clear_tree_def)
qed

end

section \<open>The contract\<close>

text \<open>
  What the clients rely on: a search returns the node with the key, an insertion that node or a new one, a deletion takes
  exactly one entry away, and the minimum is the node with the least key. The entries are listed in the order of their keys.
\<close>

definition entries :: "(ptr \<times> u64 \<times> ptr) list \<Rightarrow> u64 \<rightharpoonup> ptr" where
  "entries es = map_of (map snd es)"

lemma entries_none: "entries es k = None \<longleftrightarrow> k \<notin> set (ekeys es)"
  by (auto simp: entries_def map_of_eq_None_iff set_ekeys entry_key_def image_image)

lemma entries_at:
  assumes "k \<notin> set (ekeys xs)"
  shows "entries (xs @ (p, k, v) # ys) = (entries (xs @ ys))(k \<mapsto> v)"
  using assms by (induction xs) (auto simp: entries_def fun_upd_apply entry_key_def fun_eq_iff)

lemma ordered_at:
  assumes "ordered (xs @ (p, k, v) # ys)"
  shows "k \<notin> set (ekeys xs)" "k \<notin> set (ekeys ys)"
  using assms by (auto simp: sorted_wrt_append)

lemma node_at: "k \<notin> set (ekeys xs) \<Longrightarrow> node_with k (xs @ (p, k, v) # ys) = p"
  using node_with_here[of "(p, k, v)" ys] by (simp add: node_with_skip)

lemma entry_split:
  assumes "k \<in> set (ekeys es)"
  obtains xs p v ys where "es = xs @ (p, k, v) # ys"
proof -
  obtain p v where "(p, k, v) \<in> set es" using assms by (auto simp: set_ekeys)
  then show thesis using that by (auto dest!: split_list)
qed

definition bind_key :: "(u64 \<Rightarrow> 'q \<Rightarrow> (ptr \<times> 'q) option) \<Rightarrow> (ptr \<Rightarrow> ptr \<Rightarrow> 'q \<Rightarrow> 'q option) \<Rightarrow> u64 \<Rightarrow> ptr \<Rightarrow> 'q \<Rightarrow> (ptr \<times> 'q) option" where
  "bind_key ins put k v q = do {
     (p, q1) \<leftarrow> ins k q;
     q2 \<leftarrow> put p v q1;
     Some (p, q2)
   }"

definition value_of :: "(u64 \<Rightarrow> 'q \<Rightarrow> (ptr \<times> 'q) option) \<Rightarrow> ('q \<Rightarrow> ptr \<Rightarrow> ptr option) \<Rightarrow> u64 \<Rightarrow> 'q \<Rightarrow> (ptr option \<times> 'q) option" where
  "value_of look get k q = do {
     (p, q1) \<leftarrow> look k q;
     if p = 0 then Some (None, q1) else do { v \<leftarrow> get q1 p; Some (Some v, q1) }
   }"

definition get_value :: "'s rbt \<Rightarrow> ptr \<Rightarrow> ptr option" where
  "get_value r p = do { n \<leftarrow> rnodes r p; Some (rvalue n) }"

locale ordered_map =
  fixes ins look :: "u64 \<Rightarrow> 'q \<Rightarrow> (ptr \<times> 'q) option"
    and del :: "ptr \<Rightarrow> 'q \<Rightarrow> 'q option"
    and least :: "'q \<Rightarrow> (ptr \<times> 'q) option"
    and put :: "ptr \<Rightarrow> ptr \<Rightarrow> 'q \<Rightarrow> 'q option"
    and get :: "'q \<Rightarrow> ptr \<Rightarrow> ptr option"
    and orep :: "'q \<Rightarrow> (ptr \<times> u64 \<times> ptr) list \<Rightarrow> bool"
    and room :: "'q \<Rightarrow> bool"
  assumes sorted_rep: "orep q es \<Longrightarrow> ordered es"
    and distinct_rep: "orep q es \<Longrightarrow> distinct (map fst es)"
    and nonnull_rep: "orep q es \<Longrightarrow> e \<in> set es \<Longrightarrow> fst e \<noteq> 0"
    and look_rep: "orep q es \<Longrightarrow> look k q = Some (node_with k es, q)"
    and ins_present: "orep q es \<Longrightarrow> k \<in> set (ekeys es) \<Longrightarrow> ins k q = Some (node_with k es, q)"
    and ins_absent: "orep q es \<Longrightarrow> k \<notin> set (ekeys es) \<Longrightarrow> room q \<Longrightarrow>
      \<exists>p q' xs ys w. ins k q = Some (p, q') \<and> es = xs @ ys \<and> orep q' (xs @ (p, k, w) # ys)"
    and del_rep: "orep q es \<Longrightarrow> p \<in> fst ` set es \<Longrightarrow> \<exists>q' b es'. del p q = Some q' \<and> removed p es b es' \<and> orep q' es'"
    and del_null: "orep q es \<Longrightarrow> del 0 q = Some q"
    and least_rep: "orep q es \<Longrightarrow> least q = Some (case es of [] \<Rightarrow> 0 | e # _ \<Rightarrow> fst e, q)"
    and put_rep: "orep q (xs @ (p, k, w) # ys) \<Longrightarrow> \<exists>q'. put p v q = Some q' \<and> orep q' (xs @ (p, k, v) # ys)"
    and get_rep: "orep q es \<Longrightarrow> (p, k, v) \<in> set es \<Longrightarrow> get q p = Some v"
begin

lemma value_of_rep:
  assumes r: "orep q es"
  shows "value_of look get k q = Some (entries es k, q)"
proof (cases "k \<in> set (ekeys es)")
  case True
  then obtain xs p v ys where es: "es = xs @ (p, k, v) # ys" by (rule entry_split)
  have kx: "k \<notin> set (ekeys xs)" using sorted_rep[OF r] ordered_at unfolding es by blast
  have "node_with k es = p" "entries es k = Some v" using node_at[OF kx] entries_at[OF kx] es by simp_all
  moreover have "p \<noteq> 0" "get q p = Some v" using nonnull_rep[OF r, of "(p, k, v)"] get_rep[OF r, of p k v] es by auto
  ultimately show ?thesis using look_rep[OF r] by (simp add: value_of_def)
next
  case False
  then show ?thesis using look_rep[OF r] node_with_none[OF False] entries_none[of es k] by (simp add: value_of_def)
qed

text \<open>Inserting a key and storing through the node binds the key; the other nodes keep their keys and values.\<close>

lemma bind_key_rep:
  assumes r: "orep q es" and room: "k \<in> set (ekeys es) \<or> room q"
  shows "\<exists>p q' es'. bind_key ins put k v q = Some (p, q') \<and> orep q' es' \<and> entries es' = (entries es)(k \<mapsto> v) \<and>
    set es' = insert (p, k, v) {e \<in> set es. entry_key e \<noteq> k} \<and> p \<noteq> 0"
proof (cases "k \<in> set (ekeys es)")
  case True
  then obtain xs p w ys where es: "es = xs @ (p, k, w) # ys" by (rule entry_split)
  have kx: "k \<notin> set (ekeys xs)" "k \<notin> set (ekeys ys)" using sorted_rep[OF r] ordered_at unfolding es by blast+
  obtain q' where q': "put p v q = Some q'" "orep q' (xs @ (p, k, v) # ys)" using put_rep r es by blast
  have "p \<noteq> 0" using nonnull_rep[OF r, of "(p, k, w)"] es by simp
  moreover have "bind_key ins put k v q = Some (p, q')"
    using ins_present[OF r True] node_at[OF kx(1)] q'(1) es by (simp add: bind_key_def)
  moreover have "set (xs @ (p, k, v) # ys) = insert (p, k, v) {e \<in> set es. entry_key e \<noteq> k}"
    using kx unfolding es set_ekeys by auto
  ultimately show ?thesis using q'(2) entries_at[OF kx(1)] es by (intro exI[of _ p] exI[of _ q'] exI[of _ "xs @ (p, k, v) # ys"]) auto
next
  case False
  then obtain p q1 xs ys w where i: "ins k q = Some (p, q1)" "es = xs @ ys" "orep q1 (xs @ (p, k, w) # ys)"
    using ins_absent[OF r False] room by blast
  obtain q' where q': "put p v q1 = Some q'" "orep q' (xs @ (p, k, v) # ys)" using put_rep[OF i(3)] by blast
  have kx: "k \<notin> set (ekeys xs)" "k \<notin> set (ekeys ys)" using sorted_rep[OF i(3)] ordered_at by blast+
  have "p \<noteq> 0" using nonnull_rep[OF q'(2), of "(p, k, v)"] by simp
  moreover have "set (xs @ (p, k, v) # ys) = insert (p, k, v) {e \<in> set es. entry_key e \<noteq> k}"
    using kx unfolding i(2) set_ekeys by auto
  ultimately show ?thesis using q' i entries_at[OF kx(1)] by (intro exI[of _ p] exI[of _ q'] exI[of _ "xs @ (p, k, v) # ys"]) (auto simp: bind_key_def)
qed

lemma bind_same:
  assumes r: "orep q es" and e: "(p, k, v) \<in> set es"
  shows "\<exists>q'. bind_key ins put k v q = Some (p, q') \<and> orep q' es"
proof -
  obtain xs ys where es: "es = xs @ (p, k, v) # ys" using e by (auto dest: split_list)
  have kx: "k \<notin> set (ekeys xs)" using sorted_rep[OF r] ordered_at unfolding es by blast
  have "k \<in> set (ekeys es)" using es by simp
  then have "ins k q = Some (p, q)" using ins_present[OF r] node_at[OF kx] es by simp
  moreover obtain q' where "put p v q = Some q'" "orep q' es" using put_rep r es by blast
  ultimately show ?thesis by (simp add: bind_key_def)
qed

text \<open>Deleting the node with a key unbinds the key.\<close>

lemma unbind_key_rep:
  assumes r: "orep q es"
  shows "\<exists>q' es'. do { (p, q1) \<leftarrow> look k q; del p q1 } = Some q' \<and> orep q' es' \<and> entries es' = (entries es)(k := None) \<and>
    length es' = length es - (if k \<in> set (ekeys es) then 1 else 0)"
proof (cases "k \<in> set (ekeys es)")
  case True
  then obtain xs p w ys where es: "es = xs @ (p, k, w) # ys" by (rule entry_split)
  have kx: "k \<notin> set (ekeys xs)" "k \<notin> set (ekeys ys)" using sorted_rep[OF r] ordered_at unfolding es by blast+
  have "p \<in> fst ` set es" using es by simp
  from del_rep[OF r this] obtain q' b es' where d: "del p q = Some q'" "removed p es b es'" "orep q' es'" by blast
  have ms: "map snd es' = map snd (xs @ ys)" using removed_at[of p xs k w ys b es'] d(2) distinct_rep[OF r] unfolding es by auto
  have "k \<notin> set (ekeys (xs @ ys))" using kx by simp
  then have "(entries (xs @ ys))(k := None) = entries (xs @ ys)" using entries_none by (intro fun_upd_idem) blast
  then have "entries es' = (entries es)(k := None)" using entries_at[OF kx(1)] es ms by (simp add: entries_def)
  moreover have "length es' = length es - 1" using ms es by (metis add_diff_cancel_right' length_Cons length_append length_map Suc_eq_plus1 add_Suc_right)
  ultimately have "entries es' = (entries es)(k := None) \<and> length es' = length es - 1" by blast
  then show ?thesis using d look_rep[OF r] node_at[OF kx(1)] es True by auto
next
  case False
  then show ?thesis using r look_rep[OF r] node_with_none[OF False] del_null[OF r] entries_none[of es k]
    by (intro exI[of _ q] exI[of _ es]) (simp add: fun_upd_idem)
qed

end

section \<open>The tree keeps the contract\<close>

lemma rbt_rep_facts:
  assumes "rbt_rep hrep F r es"
  shows "ordered es" "distinct (map fst es)" "e \<in> set es \<Longrightarrow> fst e \<noteq> 0" "(p, k, v) \<in> set es \<Longrightarrow> get_value r p = Some v"
proof -
  obtain t where t: "rbt_ok hrep F r t" "ino t = es" using assms by (auto simp: rbt_rep_def)
  have tr: "tr (rnodes r) 0 t" "sep t" using t(1) by (simp_all add: rbt_ok_def trep_def)
  show "ordered es" using t by (simp add: rbt_ok_def)
  show "distinct (map fst es)" using sep_distinct[OF tr(2)] t(2) by simp
  show "fst e \<noteq> 0" if "e \<in> set es" using tr_nonnull[OF tr(1)] that t(2) by (force simp: addrs_ino)
  have "(p, k, v) \<in> set (ino u) \<Longrightarrow> tr N par u \<Longrightarrow> \<exists>n. N p = Some n \<and> rvalue n = v" for N par u
    by (induction u arbitrary: par) auto
  then show "get_value r p = Some v" if "(p, k, v) \<in> set es" using that t(2) tr(1) by (fastforce simp: get_value_def)
qed

interpretation rm: ordered_map "rbt_insert vmalloc" rbt_search "rbt_delete vmfree" rbt_minimum put_value get_value
  "rbt_rep (vmheap_rep E) F" "rbt_room vmalloc"
proof (unfold_locales, goal_cases)
  case (5 q es k)
  then show ?case using vh.rbt_insert_present by blast
next
  case (6 q es k)
  then show ?case using vh.rbt_insert_absent by blast
next
  case (7 q es p)
  then show ?case using vh.rbt_delete_rep by blast
next
  case (8 q es)
  then show ?case using vh.rbt_delete_null by blast
next
  case (10 q xs p k w ys v)
  then show ?case using put_value_rep by blast
qed (erule (1) rbt_rep_facts | erule rbt_rep_facts rbt_search_rep rbt_minimum_rep)+

lemma rbt_empty_rep:
  assumes "vmheap_rep E v L" "pad (rbt_lock rt) = 0"
  shows "rbt_rep (vmheap_rep E) {} \<lparr>rtree = rbt_init rt, rnodes = Map.empty, rraw = raw, rheap = v\<rparr> []"
  using assms by (auto simp: rbt_rep_def rbt_ok_def rbt_init_def trep_def holds_def kmutex_init_def mutex_free_def word64_def w64_def intro!: exI[of _ Lf])

text \<open>A tree with a single node, in the block of the example heap.\<close>

definition rbt_one :: "vmheap rbt" where
  "rbt_one = \<lparr>rtree = \<lparr>rbt_root = KERNEL_VIRTUAL_START + 4008, rbt_leftmost = 0, rbt_lock = kmutex_zero\<rparr>,
     rnodes = [KERNEL_VIRTUAL_START + 4008 \<mapsto> \<lparr>rkey = 7, rvalue = 0, color = False, parent = 0, children = (\<lambda>_. 0)\<rparr>],
     rraw = (\<lambda>_. \<lparr>rkey = 0, rvalue = 0, color = False, parent = 0, children = (\<lambda>_. 0)\<rparr>), rheap = vmheap_one (pm_boot kqueue_one)\<rparr>"

lemma rbt_one_rep: "rbt_rep (vmheap_rep {}) {} rbt_one [(KERNEL_VIRTUAL_START + 4008, 7, 0)]"
proof -
  have "holds (vmheap_rep {}) (vmheap_one (pm_boot kqueue_one)) {KERNEL_VIRTUAL_START + 4008}"
    using vmheap_one_rep[OF pmm_rep_wf[OF pm_boot_one(1)]] by (auto simp: holds_def)
  then have "rbt_ok (vmheap_rep {}) {} rbt_one (Nd (KERNEL_VIRTUAL_START + 4008) False 7 0 Lf Lf)"
    by (simp add: rbt_ok_def rbt_one_def trep_def kmutex_zero_def mutex_free_def word64_def w64_def)
  then show ?thesis by (auto simp: rbt_rep_def)
qed

section \<open>Properties\<close>

text \<open>
  C6. The red-black tree implements an ordered map. On every tree that satisfies the invariant (search order, no red node
  under a red one, equal black heights, every node a block of the heap), inserting a key and storing a value through the
  returned node yields such a tree in which the key, and no other, is bound anew; every lookup then returns the bound
  value, and the minimum is the node with the least key. A new node is taken only for a new key, and then the heap has to
  provide it, since the code does not check the allocation.
\<close>

theorem rbt_bind_spec:
  assumes "rbt_rep (vmheap_rep E) F r es" "key \<in> set (ekeys es) \<or> rbt_room vmalloc r"
  shows "\<exists>p r' es'. bind_key (rbt_insert vmalloc) put_value key v r = Some (p, r') \<and> rbt_rep (vmheap_rep E) F r' es' \<and>
    set es' = insert (p, key, v) {e \<in> set es. entry_key e \<noteq> key} \<and> sorted_wrt (<) (ekeys es') \<and>
    (\<forall>k. value_of rbt_search get_value k r' = Some (if k = key then Some v else entries es k, r')) \<and>
    rbt_minimum r' = Some (fst (hd es'), r')"
proof -
  obtain p r' es' where b: "bind_key (rbt_insert vmalloc) put_value key v r = Some (p, r')" "rbt_rep (vmheap_rep E) F r' es'"
    "entries es' = (entries es)(key \<mapsto> v)" "set es' = insert (p, key, v) {e \<in> set es. entry_key e \<noteq> key}"
    using rm.bind_key_rep[OF assms] by blast
  have "es' \<noteq> []" using b(4) by auto
  then have "rbt_minimum r' = Some (fst (hd es'), r')" using rbt_minimum_rep[OF b(2)] by (auto split: list.splits)
  moreover have "value_of rbt_search get_value k r' = Some (if k = key then Some v else entries es k, r')" for k
    using rm.value_of_rep[OF b(2), of k] b(3) by (simp add: fun_upd_apply)
  ultimately show ?thesis using b rbt_rep_facts(1)[OF b(2)] by blast
qed

theorem rbt_bind_spec_witness:
  "\<exists>p r' es'. bind_key (rbt_insert vmalloc) put_value 7 16 rbt_one = Some (p, r') \<and> rbt_rep (vmheap_rep {}) {} r' es' \<and>
    set es' = {(p, 7, 16)} \<and> value_of rbt_search get_value 7 r' = Some (Some 16, r')"
  using rbt_bind_spec[OF rbt_one_rep, of 7 16] by force

text \<open>
  C1. Deleting a key from a tree that satisfies the invariant returns, whatever the shape of the tree: the repair loop
  terminates, the invariant holds again, exactly this key is unbound, and at most one entry is gone. The key that is not
  there leaves the map as it was.
\<close>

theorem rbt_delete_spec:
  assumes "rbt_rep (vmheap_rep E) F r es"
  shows "\<exists>r' es'. rbt_delete_key vmfree key r = Some r' \<and> rbt_rep (vmheap_rep E) F r' es' \<and>
    (\<forall>k. value_of rbt_search get_value k r' = Some (if k = key then None else entries es k, r')) \<and>
    length es' = length es - (if key \<in> set (ekeys es) then 1 else 0)"
proof -
  obtain r' es' where b: "rbt_delete_key vmfree key r = Some r'" "rbt_rep (vmheap_rep E) F r' es'"
    "entries es' = (entries es)(key := None)" "length es' = length es - (if key \<in> set (ekeys es) then 1 else 0)"
    using rm.unbind_key_rep[OF assms, of key] unfolding rbt_delete_key_def by blast
  have "value_of rbt_search get_value k r' = Some (if k = key then None else entries es k, r')" for k
    using rm.value_of_rep[OF b(2), of k] b(3) by (simp add: fun_upd_apply)
  then show ?thesis using b by blast
qed

theorem rbt_delete_spec_witness:
  "\<exists>r'. rbt_delete_key vmfree 7 rbt_one = Some r' \<and> rbt_rep (vmheap_rep {}) {} r' [] \<and>
    value_of rbt_search get_value 7 r' = Some (None, r')"
  using rbt_delete_spec[OF rbt_one_rep, of 7] by auto



end
