(* ===== verification/Process.thy ===== *)
theory Process
  imports Rbt_Map Clock
begin

text \<open>
  Processes and the scheduler: \<open>src/kernel/memory/kstack.c\<close> (kernel stacks), \<open>src/kernel/tasking/process.c\<close> (the table of
  processes and the ready list), \<open>src/kernel/cpu/scheduler/scheduler.c\<close> (whose turn it is) and
  \<open>src/kernel/tasking/proc_sleep.c\<close> (sleeping until a deadline), with \<open>clean_process\<close> and \<open>wait_process\<close> of
  \<open>src/kernel/tasking/tasking.c\<close>. The table and the sleepers are red-black trees over the virtual heap, the ready list is a
  ring of processes linked in both directions. Saving and loading registers is left out: a switch of context is the change
  of \<open>current_running\<close>. Log output is left out as well.
\<close>

section \<open>Kernel stacks\<close>

abbreviation KSTACK_FLAGS :: nat where
  "KSTACK_FLAGS \<equiv> PAGE_PRESENT OR PAGE_WRITE OR PAGE_GLOBAL"

text \<open>An entry that is empty gets a fresh page; the code does not check whether there was one.\<close>

definition kstack_new_entry :: "nat \<Rightarrow> nat \<Rightarrow> pm \<Rightarrow> pm option" where
  "kstack_new_entry tab i p = do {
     (a, p1) \<leftarrow> pmm_calloc p;
     Some (wr p1 tab i (a OR KSTACK_FLAGS))
   }"

fun kstack_find_pdt :: "nat \<Rightarrow> nat list \<Rightarrow> pm \<Rightarrow> (nat option \<times> pm) option" where
  "kstack_find_pdt PDT [] p = Some (None, p)"
| "kstack_find_pdt PDT (j # js) p =
     (if rd p PDT j = 0 then do { p1 \<leftarrow> kstack_new_entry PDT j p; Some (Some j, p1) }
      else kstack_find_pdt PDT js p)"

fun kstack_find_pdpt :: "nat \<Rightarrow> nat list \<Rightarrow> pm \<Rightarrow> ((nat \<times> nat \<times> nat) option \<times> pm) option" where
  "kstack_find_pdpt PDPT [] p = Some (None, p)"
| "kstack_find_pdpt PDPT (i # is) p = do {
     p1 \<leftarrow> (if rd p PDPT i = 0 then kstack_new_entry PDPT i p else Some p);
     let PDT = P2V (STRIP_FLAGS (rd p1 PDPT i));
     (r, p2) \<leftarrow> kstack_find_pdt PDT [0..<512] p1;
     case r of
       Some j \<Rightarrow> Some (Some (i, j, P2V (STRIP_FLAGS (rd p2 PDT j))), p2)
     | None \<Rightarrow> kstack_find_pdpt PDPT is p2
   }"

definition kstack_find_free_pt :: "nat \<Rightarrow> pm \<Rightarrow> (nat \<times> nat \<times> pm) option" where
  "kstack_find_free_pt vaddr p = do {
     let PML4T = P2V (vmm_get_kernel_pml4t p);
     let PDPT = P2V (STRIP_FLAGS (rd p PML4T 511));
     (r, p1) \<leftarrow> kstack_find_pdpt PDPT [384..<510] p;
     case r of
       Some (i, j, PT) \<Rightarrow> Some (PT, vaddr OR PML4T_TO_VIRT 511 OR PDPT_TO_VIRT i OR PDT_TO_VIRT j, p1)
     | None \<Rightarrow> Some (0, vaddr, p1)
   }"

fun kstack_fill :: "nat \<Rightarrow> nat list \<Rightarrow> pm \<Rightarrow> pm option" where
  "kstack_fill PT [] p = Some p"
| "kstack_fill PT (i # is) p = do { p1 \<leftarrow> kstack_new_entry PT i p; kstack_fill PT is p1 }"

definition kstack_alloc :: "pm \<Rightarrow> (nat \<times> pm) option" where
  "kstack_alloc p = do {
     (PT, vaddr, p1) \<leftarrow> kstack_find_free_pt 0 p;
     if PT = 0 then Some (0, p1)
     else do {
       p2 \<leftarrow> kstack_fill PT (rev [506..<512]) p1;
       Some (w64 ((KERNEL_OFFSET OR vaddr) + 4096 * 511), p2)
     }
   }"

fun kstack_release :: "nat \<Rightarrow> nat list \<Rightarrow> pm \<Rightarrow> pm option" where
  "kstack_release PT [] p = Some p"
| "kstack_release PT (i # is) p =
     (if rd p PT i \<noteq> 0 then do {
        p1 \<leftarrow> pmm_free (STRIP_FLAGS (rd p PT i)) p;
        kstack_release PT is (wr p1 PT i 0)
      } else kstack_release PT is p)"

definition kstack_free :: "nat \<Rightarrow> pm \<Rightarrow> pm option" where
  "kstack_free addr p = do {
     let PML4T = P2V (vmm_get_kernel_pml4t p);
     let PDPT = P2V (STRIP_FLAGS (rd p PML4T (PML4T_OFFSET addr)));
     let PDT = P2V (STRIP_FLAGS (rd p PDPT (PDPT_OFFSET addr)));
     let PT = P2V (STRIP_FLAGS (rd p PDT (PDT_OFFSET addr)));
     p1 \<leftarrow> kstack_release PT [0..<512] p;
     if rd p1 PDT (PDT_OFFSET addr) \<noteq> 0 then do {
       p2 \<leftarrow> pmm_free (STRIP_FLAGS (rd p1 PDT (PDT_OFFSET addr))) p1;
       Some (wr p2 PDT (PDT_OFFSET addr) 0)
     } else Some p1
   }"

section \<open>Processes\<close>

definition PROCESS_STATE_READY :: u8 where "PROCESS_STATE_READY = 0"
definition PROCESS_STATE_RUNNING :: u8 where "PROCESS_STATE_RUNNING = 1"
definition PROCESS_STATE_WAITING :: u8 where "PROCESS_STATE_WAITING = 2"
definition PROCESS_STATE_DEAD :: u8 where "PROCESS_STATE_DEAD = 3"
definition PROCESS_STATE_ZOMBIE :: u8 where "PROCESS_STATE_ZOMBIE = 4"
definition PROCESS_STATE_SLEEPING :: u8 where "PROCESS_STATE_SLEEPING = 5"

lemmas state_defs = PROCESS_STATE_READY_def PROCESS_STATE_RUNNING_def PROCESS_STATE_WAITING_def
  PROCESS_STATE_DEAD_def PROCESS_STATE_ZOMBIE_def PROCESS_STATE_SLEEPING_def

text \<open>The fields of a process that these files use.\<close>

record process =
  pprev :: ptr
  pid :: int
  kernel_stack_top :: nat
  exec :: u8
  PML4T :: nat
  wait_size :: u8
  waiting :: "int list"
  child :: u8
  state :: u8
  forked_memory :: u8
  cwd :: ptr
  sleeper_node :: ptr
  pnext :: ptr

record process_list =
  phead :: ptr
  psize :: u32
  ptail :: ptr

record sleeper_data =
  sprocess :: ptr
  stime :: timespec

definition sizeof_sleeper_data :: nat where
  "sizeof_sleeper_data = 24"

text \<open>
  The variables of the kernel that are read and written here. \<open>kstack_to_clean\<close> shares the kernel heap with the queue of the
  physical memory manager, the two trees share the virtual heap; \<open>raw_node\<close> is what the memory of a new tree node holds.
\<close>

record sys =
  procs :: "ptr \<rightharpoonup> process"
  sleepers :: "ptr \<rightharpoonup> sleeper_data"
  process_tree :: rbt_tree
  process_nodes :: rstore
  sleeper_tree :: rbt_tree
  sleeper_nodes :: rstore
  raw_node :: "ptr \<Rightarrow> rbt_node"
  heap :: vmheap
  rdy_proc_list :: process_list
  current_running :: ptr
  kstack_to_clean :: "kheap qstate"
  timer :: pit
  cr3 :: nat

definition table_view :: "sys \<Rightarrow> vmheap rbt" where
  "table_view s = \<lparr>rtree = process_tree s, rnodes = process_nodes s, rraw = raw_node s, rheap = heap s\<rparr>"

definition set_table :: "vmheap rbt \<Rightarrow> sys \<Rightarrow> sys" where
  "set_table r s = s\<lparr>process_tree := rtree r, process_nodes := rnodes r, heap := rheap r\<rparr>"

definition sleeper_view :: "sys \<Rightarrow> vmheap rbt" where
  "sleeper_view s = \<lparr>rtree = sleeper_tree s, rnodes = sleeper_nodes s, rraw = raw_node s, rheap = heap s\<rparr>"

definition set_sleepers :: "vmheap rbt \<Rightarrow> sys \<Rightarrow> sys" where
  "set_sleepers r s = s\<lparr>sleeper_tree := rtree r, sleeper_nodes := rnodes r, heap := rheap r\<rparr>"

definition on_pm :: "(pm \<Rightarrow> pm option) \<Rightarrow> sys \<Rightarrow> sys option" where
  "on_pm f s = do { p \<leftarrow> f (vpm (heap s)); Some (s\<lparr>heap := (heap s)\<lparr>vpm := p\<rparr>\<rparr>) }"

definition kstack_view :: "sys \<Rightarrow> kheap qstate" where
  "kstack_view s = (kstack_to_clean s)\<lparr>qheap := qheap (last_free_q (vpm (heap s)))\<rparr>"

definition set_kstacks :: "kheap qstate \<Rightarrow> sys \<Rightarrow> sys" where
  "set_kstacks q s = (let p = vpm (heap s) in
     s\<lparr>kstack_to_clean := q, heap := (heap s)\<lparr>vpm := p\<lparr>last_free_q := (last_free_q p)\<lparr>qheap := qheap q\<rparr>\<rparr>\<rparr>\<rparr>)"

text \<open>Writing through a pointer to a process; any other address faults.\<close>

definition upd_proc :: "ptr \<Rightarrow> (process \<Rightarrow> process) \<Rightarrow> (ptr \<rightharpoonup> process) \<Rightarrow> (ptr \<rightharpoonup> process) option" where
  "upd_proc p f P = do { n \<leftarrow> P p; Some (P(p \<mapsto> f n)) }"

section \<open>The ready list\<close>

definition init_process :: "sys \<Rightarrow> int \<times> sys" where
  "init_process s = (0, s\<lparr>process_tree := rbt_init (process_tree s), sleeper_tree := rbt_init (sleeper_tree s)\<rparr>)"

definition ready_insert :: "ptr \<Rightarrow> (ptr \<rightharpoonup> process) \<Rightarrow> process_list \<Rightarrow> ((ptr \<rightharpoonup> process) \<times> process_list) option" where
  "ready_insert p P l = do {
     (P2, l2) \<leftarrow> (if phead l = 0 then
         (if ptail l \<noteq> 0 then None
          else do {
            P1 \<leftarrow> upd_proc p (\<lambda>n. n\<lparr>pnext := p, pprev := 0\<rparr>) P;
            Some (P1, l\<lparr>phead := p, ptail := p\<rparr>)
          })
       else do {
         P1 \<leftarrow> upd_proc p (\<lambda>n. n\<lparr>pnext := phead l, pprev := ptail l\<rparr>) P;
         P2 \<leftarrow> upd_proc (ptail l) (\<lambda>n. n\<lparr>pnext := p\<rparr>) P1;
         Some (P2, l\<lparr>ptail := p\<rparr>)
       });
     P3 \<leftarrow> upd_proc (phead l2) (\<lambda>n. n\<lparr>pprev := ptail l2\<rparr>) P2;
     P4 \<leftarrow> upd_proc p (\<lambda>n. n\<lparr>state := PROCESS_STATE_READY\<rparr>) P3;
     Some (P4, l2\<lparr>psize := psize l2 + 1\<rparr>)
   }"

definition proc_insert_to_ready_queue :: "ptr \<Rightarrow> sys \<Rightarrow> sys option" where
  "proc_insert_to_ready_queue p s = do {
     n \<leftarrow> procs s p;
     (node, r) \<leftarrow> bind_key (rbt_insert vmalloc) put_value (word_of_int (pid n)) p (table_view s);
     let s1 = set_table r s;
     (P, l) \<leftarrow> ready_insert p (procs s1) (rdy_proc_list s1);
     Some (s1\<lparr>procs := P, rdy_proc_list := l\<rparr>)
   }"

definition ready_remove :: "ptr \<Rightarrow> (ptr \<rightharpoonup> process) \<Rightarrow> process_list \<Rightarrow> ((ptr \<rightharpoonup> process) \<times> process_list) option" where
  "ready_remove p P l = do {
     n \<leftarrow> P p;
     (P2, l2) \<leftarrow> (if psize l = 1 then Some (P, l\<lparr>phead := 0, ptail := 0\<rparr>)
       else if p = phead l then do {
         P1 \<leftarrow> upd_proc (pnext n) (\<lambda>m. m\<lparr>pprev := ptail l\<rparr>) P;
         n1 \<leftarrow> P1 p;
         P2 \<leftarrow> upd_proc (ptail l) (\<lambda>m. m\<lparr>pnext := pnext n1\<rparr>) P1;
         n2 \<leftarrow> P2 p;
         Some (P2, l\<lparr>phead := pnext n2\<rparr>)
       }
       else if p = ptail l then do {
         P1 \<leftarrow> upd_proc (pprev n) (\<lambda>m. m\<lparr>pnext := phead l\<rparr>) P;
         n1 \<leftarrow> P1 p;
         P2 \<leftarrow> upd_proc (phead l) (\<lambda>m. m\<lparr>pprev := pprev n1\<rparr>) P1;
         n2 \<leftarrow> P2 p;
         Some (P2, l\<lparr>ptail := pprev n2\<rparr>)
       }
       else do {
         P1 \<leftarrow> upd_proc (pprev n) (\<lambda>m. m\<lparr>pnext := pnext n\<rparr>) P;
         n1 \<leftarrow> P1 p;
         P2 \<leftarrow> upd_proc (pnext n1) (\<lambda>m. m\<lparr>pprev := pprev n1\<rparr>) P1;
         Some (P2, l)
       });
     Some (P2, l2\<lparr>psize := psize l2 - 1\<rparr>)
   }"

definition proc_transfert_to_wait :: "ptr \<Rightarrow> sys \<Rightarrow> (int \<times> sys) option" where
  "proc_transfert_to_wait p s = do {
     n \<leftarrow> procs s p;
     if state n = PROCESS_STATE_READY \<or> state n = PROCESS_STATE_RUNNING then do {
       (P, l) \<leftarrow> ready_remove p (procs s) (rdy_proc_list s);
       Some (0, s\<lparr>procs := P, rdy_proc_list := l\<rparr>)
     } else Some (-1, s)
   }"

definition proc_get_process :: "int \<Rightarrow> sys \<Rightarrow> (ptr \<times> sys) option" where
  "proc_get_process i s = do {
     (v, r) \<leftarrow> value_of rbt_search get_value (word_of_int i) (table_view s);
     Some (case v of Some p \<Rightarrow> p | None \<Rightarrow> 0, set_table r s)
   }"

definition proc_transfert_to_ready :: "int \<Rightarrow> u8 \<Rightarrow> sys \<Rightarrow> sys option" where
  "proc_transfert_to_ready i expected_state s = do {
     (p, s1) \<leftarrow> proc_get_process i s;
     if p = 0 then Some s1
     else do {
       n \<leftarrow> procs s1 p;
       s2 \<leftarrow> (if state n = expected_state then proc_insert_to_ready_queue p s1 else Some s1);
       n2 \<leftarrow> procs s2 p;
       if state n2 AND expected_state \<noteq> 0 then do {
         P \<leftarrow> upd_proc p (\<lambda>m. m\<lparr>state := state m XOR expected_state\<rparr>) (procs s2);
         Some (s2\<lparr>procs := P\<rparr>)
       } else Some s2
     }
   }"

definition proc_transfert_to_waiting :: "int \<Rightarrow> sys \<Rightarrow> sys option" where
  "proc_transfert_to_waiting i s = do {
     (p, s1) \<leftarrow> proc_get_process i s;
     if p = 0 then Some s1
     else do {
       (r, s2) \<leftarrow> proc_transfert_to_wait p s1;
       if r = 0 then do {
         P \<leftarrow> upd_proc p (\<lambda>m. m\<lparr>state := (state m XOR (PROCESS_STATE_READY OR PROCESS_STATE_RUNNING)) OR PROCESS_STATE_WAITING\<rparr>) (procs s2);
         Some (s2\<lparr>procs := P\<rparr>)
       } else Some s2
     }
   }"

definition proc_add_to_waiting :: "int \<Rightarrow> int \<Rightarrow> sys \<Rightarrow> (int \<times> sys) option" where
  "proc_add_to_waiting i to_wait_pid s = do {
     (p, s1) \<leftarrow> proc_get_process to_wait_pid s;
     if p = 0 then Some (-1, s1)
     else do {
       n \<leftarrow> procs s1 p;
       if wait_size n < 5 then do {
         P \<leftarrow> upd_proc p (\<lambda>m. m\<lparr>waiting := (waiting m)[unat (wait_size m) := i], wait_size := wait_size m + 1\<rparr>) (procs s1);
         Some (0, s1\<lparr>procs := P\<rparr>)
       } else Some (-1, s1)
     }
   }"

definition proc_remove :: "ptr \<Rightarrow> sys \<Rightarrow> (int \<times> sys) option" where
  "proc_remove p s = do {
     n \<leftarrow> procs s p;
     if state n = PROCESS_STATE_DEAD \<or> state n = PROCESS_STATE_ZOMBIE then do {
       r \<leftarrow> rbt_delete_key vmfree (word_of_int (pid n)) (table_view s);
       Some (0, set_table r s)
     } else Some (-1, s)
   }"

definition proc_remove_process :: "int \<Rightarrow> sys \<Rightarrow> (int \<times> sys) option" where
  "proc_remove_process i s = do {
     (p, s1) \<leftarrow> proc_get_process i s;
     proc_remove p s1
   }"

fun proc_wake_process :: "int list \<Rightarrow> sys \<Rightarrow> sys option" where
  "proc_wake_process [] s = Some s"
| "proc_wake_process (i # is) s = do {
     s1 \<leftarrow> (if i \<noteq> 0 then proc_transfert_to_ready i PROCESS_STATE_WAITING s else Some s);
     proc_wake_process is s1
   }"

section \<open>The scheduler\<close>

partial_function (option) clean_kstacks :: "sys \<Rightarrow> sys option" where
  "clean_kstacks s = do {
     e \<leftarrow> queue_empty (kstack_view s);
     if e then Some s
     else do {
       (v, q) \<leftarrow> queue_dequeue kfree (kstack_view s);
       let s1 = set_kstacks q s;
       s2 \<leftarrow> (case v of Some k \<Rightarrow> on_pm (kstack_free k) s1 | None \<Rightarrow> Some s1);
       clean_kstacks s2
     }
   }"

definition resume :: "ptr \<Rightarrow> sys \<Rightarrow> sys option" where
  "resume p s = do {
     n \<leftarrow> procs s p;
     P \<leftarrow> upd_proc p (\<lambda>m. if exec m = 0 then m\<lparr>exec := 1\<rparr> else m) (procs s);
     Some (s\<lparr>procs := P, current_running := p, cr3 := PML4T n\<rparr>)
   }"

definition gothmog_schedule :: "sys \<Rightarrow> sys option" where
  "gothmog_schedule s =
     (if phead (rdy_proc_list s) = 0 then Some s
      else if current_running s \<noteq> 0 then do {
        s1 \<leftarrow> clean_kstacks s;
        n \<leftarrow> procs s1 (current_running s1);
        resume (pnext n) s1
      } else resume (phead (rdy_proc_list s)) s)"

definition proc_to_sleep :: "int \<Rightarrow> u8 \<Rightarrow> sys \<Rightarrow> sys option" where
  "proc_to_sleep i set_state s = do {
     let cur = current_running s;
     (p, s1) \<leftarrow> proc_get_process i s;
     if p = 0 then Some s1
     else do {
       (r, s2) \<leftarrow> proc_transfert_to_wait p s1;
       if r = 0 then do {
         P \<leftarrow> upd_proc p (\<lambda>m. m\<lparr>state := (state m AND (NOT PROCESS_STATE_READY AND NOT PROCESS_STATE_RUNNING)) OR set_state\<rparr>) (procs s2);
         let s3 = s2\<lparr>procs := P\<rparr>;
         if p = cur then do {
           n \<leftarrow> procs s3 cur;
           gothmog_schedule (if p = pnext n then s3\<lparr>current_running := 0\<rparr> else s3)
         } else Some s3
       } else Some s2
     }
   }"

definition wait_process :: "int \<Rightarrow> sys \<Rightarrow> (int \<times> sys) option" where
  "wait_process pid_to_wait s = do {
     n \<leftarrow> procs s (current_running s);
     (r, s1) \<leftarrow> proc_add_to_waiting (pid n) pid_to_wait s;
     if r = 0 then do {
       n1 \<leftarrow> procs s1 (current_running s);
       s2 \<leftarrow> proc_to_sleep (pid n1) PROCESS_STATE_WAITING s1;
       Some (0, s2)
     } else Some (-1, s1)
   }"

section \<open>Sleeping\<close>

definition get_tree_key :: "timespec \<Rightarrow> u64" where
  "get_tree_key t = sec t * 1000 + ucast (msec t)"

definition sleep :: "timespec \<Rightarrow> ptr \<Rightarrow> sys \<Rightarrow> sys option" where
  "sleep t p s = do {
     (node, r) \<leftarrow> rbt_insert vmalloc (get_tree_key t) (sleeper_view s);
     let s1 = set_sleepers r s;
     (slpr, h) \<leftarrow> vmalloc sizeof_sleeper_data (heap s1);
     let s2 = s1\<lparr>heap := h\<rparr>;
     if slpr = 0 then None
     else do {
       P \<leftarrow> upd_proc p (\<lambda>m. m\<lparr>sleeper_node := node\<rparr>) (procs s2);
       let s3 = s2\<lparr>procs := P, sleepers := (sleepers s2)(slpr \<mapsto> \<lparr>sprocess = p, stime = t\<rparr>)\<rparr>;
       r2 \<leftarrow> put_value node slpr (sleeper_view s3);
       let s4 = set_sleepers r2 s3;
       n \<leftarrow> procs s4 p;
       proc_to_sleep (pid n) PROCESS_STATE_SLEEPING s4
     }
   }"

definition remove_sleeper :: "ptr \<Rightarrow> sys \<Rightarrow> sys option" where
  "remove_sleeper p s = do {
     n \<leftarrow> procs s p;
     if sleeper_node n = 0 then Some s
     else do {
       r \<leftarrow> rbt_delete vmfree (sleeper_node n) (sleeper_view s);
       let s1 = set_sleepers r s;
       P \<leftarrow> upd_proc p (\<lambda>m. m\<lparr>sleeper_node := 0\<rparr>) (procs s1);
       Some (s1\<lparr>procs := P\<rparr>)
     }
   }"

text \<open>What \<open>wake_up\<close> does with the process of a sleeper whose time has come.\<close>

definition wake_one :: "ptr \<Rightarrow> sys \<Rightarrow> sys option" where
  "wake_one p s =
     (if p = 0 then Some s
      else do {
        n \<leftarrow> procs s p;
        if state n AND PROCESS_STATE_SLEEPING \<noteq> 0 then do {
          s1 \<leftarrow> (if state n = PROCESS_STATE_SLEEPING then proc_transfert_to_ready (pid n) PROCESS_STATE_SLEEPING s
            else do {
              P \<leftarrow> upd_proc p (\<lambda>m. m\<lparr>state := state m XOR PROCESS_STATE_SLEEPING\<rparr>) (procs s);
              Some (s\<lparr>procs := P\<rparr>)
            });
          P \<leftarrow> upd_proc p (\<lambda>m. m\<lparr>sleeper_node := 0\<rparr>) (procs s1);
          Some (s1\<lparr>procs := P\<rparr>)
        } else Some s
      })"

definition delete_sleeper :: "ptr \<Rightarrow> sys \<Rightarrow> sys option" where
  "delete_sleeper node s = do {
     r \<leftarrow> rbt_delete vmfree node (sleeper_view s);
     Some (set_sleepers r s)
   }"

partial_function (option) wake_up :: "sys \<Rightarrow> sys option" where
  "wake_up s = do {
     (node, r) \<leftarrow> rbt_minimum (sleeper_view s);
     let s0 = set_sleepers r s;
     if node = 0 then Some s0
     else do {
       slpr \<leftarrow> get_value (sleeper_view s0) node;
       if slpr = 0 then do {
         s1 \<leftarrow> delete_sleeper node s0;
         wake_up s1
       } else do {
         d \<leftarrow> sleepers s0 slpr;
         if \<not> pit_compare (timer s0) (stime d) then Some s0
         else do {
           s1 \<leftarrow> wake_one (sprocess d) s0;
           s2 \<leftarrow> delete_sleeper node s1;
           h \<leftarrow> vmfree slpr (heap s2);
           wake_up (s2\<lparr>heap := h, sleepers := (sleepers s2)(slpr := None)\<rparr>)
         }
       }
     }
   }"

section \<open>The end of a process\<close>

definition clean_process :: "ptr \<Rightarrow> bool \<Rightarrow> sys \<Rightarrow> (int \<times> sys) option" where
  "clean_process p clean_memory s = do {
     n \<leftarrow> procs s p;
     s1 \<leftarrow> on_pm (\<lambda>q. do { (r, q1) \<leftarrow> vmm_clean_page_table (PML4T n) (\<not> clean_memory) q; Some q1 }) s;
     s2 \<leftarrow> (if cwd n \<noteq> 0 then do { h \<leftarrow> vmfree (cwd n) (heap s1); Some (s1\<lparr>heap := h\<rparr>) } else Some s1);
     s3 \<leftarrow> (if sleeper_node n \<noteq> 0 then remove_sleeper p s2 else Some s2);
     h \<leftarrow> vmfree p (heap s3);
     Some (0, s3\<lparr>heap := h, procs := (procs s3)(p := None)\<rparr>)
   }"

text \<open>
  The result says whether the caller goes on: a process that kills itself leaves its stack for good with the switch to
  another one, unless there is none.
\<close>

definition proc_kill_now :: "ptr \<Rightarrow> sys \<Rightarrow> (bool \<times> sys) option" where
  "proc_kill_now p s = do {
     P \<leftarrow> upd_proc p (\<lambda>m. m\<lparr>state := PROCESS_STATE_DEAD\<rparr>) (procs s);
     n \<leftarrow> P p;
     s1 \<leftarrow> (if wait_size n \<noteq> 0 then proc_wake_process (take (unat (wait_size n)) (waiting n)) (s\<lparr>procs := P\<rparr>) else Some (s\<lparr>procs := P\<rparr>));
     (r, s2) \<leftarrow> proc_remove p s1;
     let was_running = (p = current_running s2);
     n2 \<leftarrow> procs s2 p;
     let s3 = (if was_running then s2\<lparr>cr3 := vmm_get_kernel_pml4t (vpm (heap s2))\<rparr> else s2);
     (c, s4) \<leftarrow> clean_process p (child n2 = 0 \<or> forked_memory n2 = 0) s3;
     s5 \<leftarrow> on_pm (pmm_free (PML4T n2)) s4;
     if was_running then do {
       q \<leftarrow> queue_enqueue kmalloc (kernel_stack_top n2) (kstack_view s5);
       let s6 = (set_kstacks q s5)\<lparr>current_running := 0\<rparr>;
       s7 \<leftarrow> gothmog_schedule s6;
       Some (phead (rdy_proc_list s6) = 0, s7)
     } else do {
       s6 \<leftarrow> on_pm (kstack_free (kernel_stack_top n2)) s5;
       Some (True, s6)
     }
   }"

definition proc_kill_process :: "int \<Rightarrow> sys \<Rightarrow> (bool \<times> sys) option" where
  "proc_kill_process i s = do {
     (p, s1) \<leftarrow> proc_get_process i s;
     if p = 0 then Some (True, s1)
     else do {
       (r, s2) \<leftarrow> proc_transfert_to_wait p s1;
       if r = 0 then proc_kill_now p s2 else Some (True, s2)
     }
   }"

definition proc_kill :: "ptr \<Rightarrow> bool \<Rightarrow> sys \<Rightarrow> (bool \<times> sys) option" where
  "proc_kill p force_schedule s = do {
     n \<leftarrow> procs s p;
     (r, s1) \<leftarrow> (if state n AND PROCESS_STATE_WAITING \<noteq> 0 \<or> state n AND PROCESS_STATE_SLEEPING \<noteq> 0 \<or>
           state n = PROCESS_STATE_DEAD \<or> state n = PROCESS_STATE_ZOMBIE
         then Some (0, s) else proc_transfert_to_wait p s);
     if r = 0 then do {
       (on, s2) \<leftarrow> proc_kill_now p s1;
       if on \<and> force_schedule then do { s3 \<leftarrow> gothmog_schedule s2; Some (True, s3) } else Some (on, s2)
     } else Some (True, s1)
   }"

end
