(* ===== verification/Ready.thy ===== *)
theory Ready
  imports Process
begin

text \<open>
  The ready list is a ring of processes, linked in both directions; inserting and removing keep it, and the scheduler goes round it.
\<close>

section \<open>The ring\<close>

definition nx :: "(ptr \<rightharpoonup> process) \<Rightarrow> ptr \<Rightarrow> ptr option" where
  "nx P a = map_option pnext (P a)"

definition pv :: "(ptr \<rightharpoonup> process) \<Rightarrow> ptr \<Rightarrow> ptr option" where
  "pv P a = map_option pprev (P a)"

text \<open>A process without the links of the ring and the flag that it has run.\<close>

definition core :: "(ptr \<rightharpoonup> process) \<Rightarrow> ptr \<Rightarrow> process option" where
  "core P a = map_option (\<lambda>n. n\<lparr>pnext := 0, pprev := 0, exec := 0\<rparr>) (P a)"

definition links :: "(ptr \<rightharpoonup> process) \<Rightarrow> ptr list \<Rightarrow> bool" where
  "links P xs \<longleftrightarrow> map (nx P) xs = map Some (rotate1 xs) \<and> map (pv P) (rotate1 xs) = map Some xs"

definition ring :: "(ptr \<rightharpoonup> process) \<Rightarrow> process_list \<Rightarrow> ptr list \<Rightarrow> bool" where
  "ring P l xs \<longleftrightarrow> distinct xs \<and> 0 \<notin> set xs \<and> unat (psize l) = length xs \<and>
     phead l = (if xs = [] then 0 else hd xs) \<and> ptail l = (if xs = [] then 0 else last xs) \<and>
     links P xs"

lemma nx_upd [simp]: "nx (P(a \<mapsto> n)) = (nx P)(a \<mapsto> pnext n)" "pv (P(a \<mapsto> n)) = (pv P)(a \<mapsto> pprev n)"
  "core (P(a \<mapsto> n)) = (core P)(a \<mapsto> n\<lparr>pnext := 0, pprev := 0, exec := 0\<rparr>)"
  by (auto simp: nx_def pv_def core_def fun_eq_iff fun_upd_apply)

lemma nx_SomeD: "nx P a = Some b \<Longrightarrow> \<exists>n. P a = Some n \<and> pnext n = b"
  by (auto simp: nx_def)

lemma pv_SomeD: "pv P a = Some b \<Longrightarrow> \<exists>n. P a = Some n \<and> pprev n = b"
  by (auto simp: pv_def)

lemma core_idem: "P a = Some n \<Longrightarrow> (core P)(a \<mapsto> n\<lparr>pnext := 0, pprev := 0, exec := 0\<rparr>) = core P"
  by (auto simp: core_def fun_eq_iff fun_upd_apply)

lemma ring_in:
  assumes "ring P l xs" "a \<in> set xs"
  obtains n where "P a = Some n"
proof -
  have "nx P a \<in> set (map (nx P) xs)" using assms(2) by simp
  also have "set (map (nx P) xs) = Some ` set xs" using assms(1) by (simp only: ring_def links_def set_map set_rotate1)
  finally show thesis using that by (auto simp: nx_def)
qed

lemma ring_head: "ring P l xs \<Longrightarrow> a \<in> set xs \<Longrightarrow> phead l \<noteq> 0 \<and> a \<noteq> 0"
  by (cases xs; cases "a = 0") (auto simp: ring_def)

text \<open>Only links differ, but for the process \<open>p\<close>, which becomes \<open>n\<close>.\<close>

definition only_links :: "(ptr \<rightharpoonup> process) \<Rightarrow> (ptr \<rightharpoonup> process) \<Rightarrow> bool" where
  "only_links P P' \<longleftrightarrow> (\<forall>a. core P' a = core P a)"

lemma only_links_refl [simp]: "only_links P P"
  by (simp add: only_links_def)

lemma only_links_trans: "only_links P P' \<Longrightarrow> only_links P' P'' \<Longrightarrow> only_links P P''"
  by (simp add: only_links_def)

lemma only_links_upd [simp]:
  "P a = Some n \<Longrightarrow> only_links P (P(a \<mapsto> n\<lparr>pnext := x\<rparr>))" "P a = Some n \<Longrightarrow> only_links P (P(a \<mapsto> n\<lparr>pprev := x\<rparr>))"
  "P a = Some n \<Longrightarrow> only_links P (P(a \<mapsto> n\<lparr>pnext := x, pprev := y\<rparr>))"
  by (auto simp: only_links_def core_def fun_upd_apply)

lemma ready_insert_ok:
  assumes r: "ring P l xs" and p: "p \<notin> set xs" "p \<noteq> 0" "P p = Some n" and len: "length xs + 1 < 2 ^ 32"
  shows "\<exists>P' l'. ready_insert p P l = Some (P', l') \<and> ring P' l' (xs @ [p]) \<and>
    only_links (P(p \<mapsto> n\<lparr>state := PROCESS_STATE_READY\<rparr>)) P'"
proof -
  have sz: "unat (psize l + 1) = length xs + 1" using r len by (subst unat_add_lem[THEN iffD1]) (simp_all add: ring_def links_def)
  show ?thesis
  proof (cases xs)
    case Nil
    then show ?thesis using r p sz by (auto simp: ring_def links_def ready_insert_def upd_proc_def only_links_def core_def fun_upd_apply)
  next
    case (Cons h ys)
    show ?thesis
    proof (cases ys rule: rev_cases)
      case Nil
      obtain m where m: "P h = Some m" "h \<noteq> 0" "h \<noteq> p" using r Cons Nil p by (auto simp: ring_def links_def dest: nx_SomeD)
      let ?P = "P(p \<mapsto> n\<lparr>pnext := h, pprev := h, state := PROCESS_STATE_READY\<rparr>, h \<mapsto> m\<lparr>pnext := p, pprev := p\<rparr>)"
      have "ready_insert p P l = Some (?P, l\<lparr>ptail := p, psize := psize l + 1\<rparr>)"
        using r Cons Nil p m by (simp add: ring_def links_def ready_insert_def upd_proc_def fun_upd_twist)
      moreover have "ring ?P (l\<lparr>ptail := p, psize := psize l + 1\<rparr>) (xs @ [p])" using r Cons Nil p m sz by (simp add: ring_def links_def)
      moreover have "only_links (P(p \<mapsto> n\<lparr>state := PROCESS_STATE_READY\<rparr>)) ?P" using m by (auto simp: only_links_def core_def fun_upd_apply)
      ultimately show ?thesis by blast
    next
      case (snoc zs t)
      obtain m where m: "P h = Some m" using ring_in[OF r, of h] Cons by auto
      obtain k where k: "P t = Some k" using ring_in[OF r, of t] Cons snoc by auto
      have ht: "h \<noteq> t" "h \<noteq> 0" "t \<noteq> 0" "h \<notin> set zs" "t \<notin> set zs" "p \<noteq> h" "p \<noteq> t" "p \<notin> set zs" using r p Cons snoc by (auto simp: ring_def links_def)
      have f: "nx P h = Some (pnext m)" "pv P t = Some (pprev k)" using m k by (simp_all add: nx_def pv_def)
      let ?P = "P(p \<mapsto> n\<lparr>pnext := h, pprev := t, state := PROCESS_STATE_READY\<rparr>, t \<mapsto> k\<lparr>pnext := p\<rparr>, h \<mapsto> m\<lparr>pprev := p\<rparr>)"
      have "ready_insert p P l = Some (?P, l\<lparr>ptail := p, psize := psize l + 1\<rparr>)"
        using r Cons snoc p m k ht by (simp add: ring_def links_def ready_insert_def upd_proc_def fun_upd_twist)
      moreover have "ring ?P (l\<lparr>ptail := p, psize := psize l + 1\<rparr>) (xs @ [p])" using r Cons snoc p f ht sz by (simp add: ring_def links_def)
      moreover have "only_links (P(p \<mapsto> n\<lparr>state := PROCESS_STATE_READY\<rparr>)) ?P" using m k ht by (auto simp: only_links_def core_def fun_upd_apply)
      ultimately show ?thesis by blast
    qed
  qed
qed

text \<open>The ring has no first element of its own.\<close>

lemma links_rotate: "links P xs \<Longrightarrow> links P (List.rotate k xs)"
proof (induction k)
  case (Suc k)
  then have l: "map (nx P) (List.rotate k xs) = map Some (rotate1 (List.rotate k xs))" "map (pv P) (rotate1 (List.rotate k xs)) = map Some (List.rotate k xs)"
    by (simp_all add: links_def)
  have "map (nx P) (rotate1 (List.rotate k xs)) = map Some (rotate1 (rotate1 (List.rotate k xs)))"
    using arg_cong[OF l(1), of rotate1] by (simp only: rotate1_map)
  moreover have "map (pv P) (rotate1 (rotate1 (List.rotate k xs))) = map Some (rotate1 (List.rotate k xs))"
    using arg_cong[OF l(2), of rotate1] by (simp only: rotate1_map)
  ultimately show ?case by (simp add: links_def)
qed simp

lemma links_swap: "links P (us @ vs) \<Longrightarrow> links P (vs @ us)"
  using links_rotate[of P "us @ vs" "length us"] by (simp add: rotate_append)

lemma links_ends:
  assumes "links P (p # ys)" "ys \<noteq> []"
  shows "nx P p = Some (hd ys)" "pv P p = Some (last ys)"
proof -
  show "nx P p = Some (hd ys)" using assms by (cases ys) (simp_all add: links_def)
  have "last (map (pv P) (ys @ [p])) = last (map Some (p # ys))" using assms(1) by (simp only: links_def rotate1.simps)
  then show "pv P p = Some (last ys)" using assms(2) by (simp add: last_map)
qed

lemma links_drop:
  assumes l: "links P (p # ys)" and ys: "ys \<noteq> []" "distinct (p # ys)"
    and P': "\<And>a. a \<noteq> p \<Longrightarrow> nx P' a = (if a = last ys then Some (hd ys) else nx P a)"
      "\<And>a. a \<noteq> p \<Longrightarrow> pv P' a = (if a = hd ys then Some (last ys) else pv P a)"
  shows "links P' ys"
proof -
  obtain zs t where zt: "ys = zs @ [t]" using ys(1) by (cases ys rule: rev_cases) auto
  obtain h ws where hw: "ys = h # ws" using ys(1) by (cases ys) auto
  have "map (nx P) (p # ys) = map Some (ys @ [p])" using l by (simp only: links_def rotate1.simps)
  then have "map (nx P) (zs @ [t]) = map Some (ws @ [p])" unfolding zt[symmetric] using hw by simp
  then have nz: "map (nx P) zs = map Some ws" by simp
  have "nx P' a = nx P a" if "a \<in> set zs" for a using P'(1)[of a] ys(2) zt that by (cases "a = p"; cases "a = t") auto
  then have "map (nx P') zs = map (nx P) zs" by simp
  moreover have "nx P' t = Some h" using P'(1)[of t] ys(2) hw unfolding zt by (metis distinct.simps(2) in_set_conv_decomp last_snoc list.sel(1) zt)
  ultimately have "map (nx P') ys = map Some (ws @ [h])" unfolding zt using nz by simp
  have "pv P' a = pv P a" if "a \<in> set ws" for a using P'(2)[of a] ys(2) hw that by (cases "a = p"; cases "a = h") auto
  then have "map (pv P') ws = map (pv P) ws" by simp
  moreover have "pv P' h = pv P p" using links_ends(2)[OF l ys(1)] P'(2)[of h] ys(2) hw by simp
  moreover have "map (pv P) (ws @ [p]) = map Some ys" using l hw by (simp add: links_def)
  ultimately have "map (pv P') (ws @ [h]) = map Some ys" by (simp del: map_eq_conv)
  then show ?thesis using \<open>map (nx P') ys = _\<close> hw by (simp add: links_def)
qed

definition relink :: "ptr \<Rightarrow> ptr \<Rightarrow> (ptr \<rightharpoonup> process) \<Rightarrow> (ptr \<rightharpoonup> process)" where
  "relink a b P = (\<lambda>c. map_option (\<lambda>n. n\<lparr>pnext := if c = a then b else pnext n, pprev := if c = b then a else pprev n\<rparr>) (P c))"

lemma relink_upd:
  assumes "P a = Some na" "P b = Some nb"
  shows "do { P1 \<leftarrow> upd_proc a (\<lambda>m. m\<lparr>pnext := b\<rparr>) P; upd_proc b (\<lambda>m. m\<lparr>pprev := a\<rparr>) P1 } = Some (relink a b P)"
    "do { P1 \<leftarrow> upd_proc b (\<lambda>m. m\<lparr>pprev := a\<rparr>) P; upd_proc a (\<lambda>m. m\<lparr>pnext := b\<rparr>) P1 } = Some (relink a b P)"
  using assms by (auto simp: upd_proc_def relink_def fun_eq_iff fun_upd_apply option.map_ident)

lemma ready_remove_step:
  assumes n: "P p = Some n" and ab: "P (pprev n) = Some na" "P (pnext n) = Some nb" "pprev n \<noteq> p" "pnext n \<noteq> p" and sz: "psize l \<noteq> 1"
    and hd: "p = phead l \<Longrightarrow> ptail l = pprev n" and tl: "p = ptail l \<Longrightarrow> phead l = pnext n"
  shows "ready_remove p P l = Some (relink (pprev n) (pnext n) P,
    l\<lparr>phead := if p = phead l then pnext n else phead l, ptail := if p = ptail l then pprev n else ptail l, psize := psize l - 1\<rparr>)"
proof -
  let ?a = "pprev n" and ?b = "pnext n"
  obtain P1 where 1: "upd_proc ?a (\<lambda>m. m\<lparr>pnext := ?b\<rparr>) P = Some P1" "upd_proc ?b (\<lambda>m. m\<lparr>pprev := ?a\<rparr>) P1 = Some (relink ?a ?b P)" "P1 p = Some n"
    using relink_upd(1)[OF ab(1,2)] n ab by (auto simp: bind_eq_Some_conv upd_proc_def)
  obtain P2 where 2: "upd_proc ?b (\<lambda>m. m\<lparr>pprev := ?a\<rparr>) P = Some P2" "upd_proc ?a (\<lambda>m. m\<lparr>pnext := ?b\<rparr>) P2 = Some (relink ?a ?b P)" "P2 p = Some n"
    using relink_upd(2)[OF ab(1,2)] n ab by (auto simp: bind_eq_Some_conv upd_proc_def)
  have r: "relink ?a ?b P p = Some n" using n ab(3,4) by (simp add: relink_def)
  consider "p = phead l" | "p \<noteq> phead l" "p = ptail l" | "p \<noteq> phead l" "p \<noteq> ptail l" by blast
  then show ?thesis
  proof cases
    case 1
    then have "p \<noteq> ptail l" using hd ab(3) by auto
    then show ?thesis using 1 2 hd n sz r by (simp add: ready_remove_def)
  next
    case 2
    then show ?thesis using \<open>upd_proc ?a _ P = Some P1\<close> \<open>upd_proc ?b _ P1 = _\<close> \<open>P1 p = _\<close> tl n sz r by (simp add: ready_remove_def)
  next
    case 3
    then show ?thesis using 1 n sz by (simp add: ready_remove_def)
  qed
qed

lemma ready_remove_ok:
  assumes r: "ring P l xs" and p: "p \<in> set xs"
  shows "\<exists>P' l'. ready_remove p P l = Some (P', l') \<and> ring P' l' (remove1 p xs) \<and> only_links P P' \<and> nx P' p = nx P p"
proof -
  have d: "distinct xs" "0 \<notin> set xs" "unat (psize l) = length xs" "phead l = hd xs" "ptail l = last xs" "links P xs"
    using r p by (auto simp: ring_def)
  have sz: "unat (psize l - 1) = length xs - 1" "psize l = 1 \<longleftrightarrow> length xs = 1"
  proof -
    have "1 \<le> length xs" using p by (cases xs) auto
    then show "unat (psize l - 1) = length xs - 1" using d(3) by (simp add: unat_sub_if')
    show "psize l = 1 \<longleftrightarrow> length xs = 1" using d(3) by (metis unat_1 word_unat_eq_iff)
  qed
  obtain us vs where xs: "xs = us @ p # vs" using p split_list by metis
  have rm: "remove1 p xs = us @ vs" using d(1) xs by (simp add: remove1_append)
  obtain n where n: "P p = Some n" using ring_in[OF r p] by blast
  define ys where "ys = vs @ us"
  have lp: "links P (p # ys)" using links_swap[of P us "p # vs"] d(6) xs by (simp add: ys_def)
  have dy: "distinct (p # ys)" using d(1) xs by (auto simp: ys_def)
  show ?thesis
  proof (cases "ys = []")
    case True
    then show ?thesis using d n sz xs rm by (auto simp: ring_def ready_remove_def ys_def links_def)
  next
    case False
    define a b where ab: "a = last ys" "b = hd ys"
    have nn: "pnext n = b" "pprev n = a" using links_ends[OF lp False] n ab by (simp_all add: nx_def pv_def)
    have in_y: "a \<in> set ys" "b \<in> set ys" using False ab by simp_all
    then have in_x: "a \<in> set xs" "b \<in> set xs" using xs by (auto simp: ys_def)
    obtain na where na: "P a = Some na" using ring_in[OF r in_x(1)] .
    obtain nb where nb: "P b = Some nb" using ring_in[OF r in_x(2)] .
    have ne: "a \<noteq> p" "b \<noteq> p" using in_y dy by auto
    have hp: "p = hd xs \<longleftrightarrow> us = []" "p = last xs \<longleftrightarrow> vs = []" using d(1) xs by (auto simp: hd_append)
    let ?P = "relink a b P" and ?l = "l\<lparr>phead := hd (us @ vs), ptail := last (us @ vs), psize := psize l - 1\<rparr>"
    have sz1: "psize l \<noteq> 1" using sz(2) False xs by (auto simp: ys_def)
    have ends: "us = [] \<Longrightarrow> last xs = a" "vs = [] \<Longrightarrow> hd xs = b" using False xs ab by (auto simp: ys_def)
    have hl: "(if p = phead l then b else phead l) = hd (us @ vs)" "(if p = ptail l then a else ptail l) = last (us @ vs)"
      using hp d(4,5) xs ab False by (auto simp: ys_def hd_append)
    have "ready_remove p P l = Some (?P, ?l)"
      using ready_remove_step[of P p n na nb l] n na nb ne sz1 hp ends d(4,5) unfolding nn hl by blast
    moreover have "links ?P ys" using na nb ab ne by (intro links_drop[OF lp False dy]) (auto simp: nx_def pv_def relink_def option.map_comp o_def)
    then have "ring ?P ?l (us @ vs)" using d xs sz False links_swap[of ?P vs us] by (auto simp: ring_def ys_def)
    moreover have "only_links P ?P" by (auto simp: only_links_def core_def relink_def option.map_comp o_def)
    moreover have "nx ?P p = nx P p" using ne n by (simp add: nx_def relink_def)
    ultimately show ?thesis unfolding rm by blast
  qed
qed

lemma ring_cong:
  assumes "ring P l xs" "\<And>a. a \<in> set xs \<Longrightarrow> nx P' a = nx P a \<and> pv P' a = pv P a"
  shows "ring P' l xs"
proof -
  have "map (nx P') xs = map (nx P) xs" "map (pv P') (rotate1 xs) = map (pv P) (rotate1 xs)" using assms(2) by simp_all
  then show ?thesis using assms(1) by (simp add: ring_def links_def del: map_eq_conv)
qed

section \<open>The scheduler\<close>

lemma gothmog_next:
  assumes "phead (rdy_proc_list s) \<noteq> 0" "current_running s \<noteq> 0" "queue_empty (kstack_view s) = Some True"
    "procs s (current_running s) = Some n" "procs s (pnext n) = Some m"
  shows "gothmog_schedule s = Some (s\<lparr>procs := (procs s)(pnext n \<mapsto> if exec m = 0 then m\<lparr>exec := 1\<rparr> else m),
    current_running := pnext n, cr3 := PML4T m\<rparr>)"
proof -
  have "clean_kstacks s = Some s" using assms(3) by (subst clean_kstacks.simps) simp
  then show ?thesis using assms by (simp add: gothmog_schedule_def resume_def upd_proc_def)
qed

lemma ring_exec:
  assumes "ring P l xs" "P a = Some m"
  shows "ring (P(a \<mapsto> if exec m = 0 then m\<lparr>exec := 1\<rparr> else m)) l xs"
    "only_links P (P(a \<mapsto> if exec m = 0 then m\<lparr>exec := 1\<rparr> else m))"
proof -
  show "ring (P(a \<mapsto> if exec m = 0 then m\<lparr>exec := 1\<rparr> else m)) l xs"
    using assms(2) by (intro ring_cong[OF assms(1)]) (auto simp: nx_def pv_def fun_upd_apply)
  show "only_links P (P(a \<mapsto> if exec m = 0 then m\<lparr>exec := 1\<rparr> else m))"
    using assms(2) by (auto simp: only_links_def core_def fun_upd_apply)
qed

lemma ring_next:
  assumes "ring P l xs" "i < length xs" "P (xs ! i) = Some n"
  shows "pnext n = xs ! (Suc i mod length xs)"
proof -
  have "map (nx P) xs ! i = map Some (rotate1 xs) ! i" using assms(1) by (simp only: ring_def links_def)
  then show ?thesis using assms by (simp add: nx_def nth_rotate1)
qed

text \<open>One call gives the turn to the next process of the ring.\<close>

lemma gothmog_turn:
  assumes r: "ring (procs s) (rdy_proc_list s) xs" and i: "i < length xs" "current_running s = xs ! i"
    and q: "queue_empty (kstack_view s) = Some True"
  shows "\<exists>s'. gothmog_schedule s = Some s' \<and> ring (procs s') (rdy_proc_list s') xs \<and> current_running s' = xs ! (Suc i mod length xs) \<and>
    queue_empty (kstack_view s') = Some True \<and> only_links (procs s) (procs s') \<and>
    s' = s\<lparr>procs := procs s', current_running := current_running s', cr3 := cr3 s'\<rparr>"
proof -
  have nz: "xs ! i \<noteq> 0" "phead (rdy_proc_list s) \<noteq> 0" using r i by (auto simp: ring_def in_set_conv_nth hd_conv_nth)
  obtain n where n: "procs s (xs ! i) = Some n" using ring_in[OF r] i(1) by (metis nth_mem)
  let ?b = "xs ! (Suc i mod length xs)"
  have "Suc i mod length xs < length xs" using i(1) by (intro mod_less_divisor) auto
  then obtain m where m: "procs s ?b = Some m" using ring_in[OF r] by (metis nth_mem)
  have pn: "pnext n = ?b" using ring_next[OF r i(1) n] .
  let ?s = "s\<lparr>procs := (procs s)(?b \<mapsto> if exec m = 0 then m\<lparr>exec := 1\<rparr> else m), current_running := ?b, cr3 := PML4T m\<rparr>"
  have "gothmog_schedule s = Some ?s" using gothmog_next[of s n m] nz i(2) q n m pn by simp
  moreover have "kstack_view ?s = kstack_view s" by (simp add: kstack_view_def)
  ultimately show ?thesis using ring_exec[OF r m] q by (intro exI[of _ ?s]) simp
qed

text \<open>When no process runs, it is the turn of the first one; when none is ready, nothing changes.\<close>

lemma gothmog_first:
  assumes r: "ring (procs s) (rdy_proc_list s) xs" and c: "current_running s = 0" and ne: "xs \<noteq> []"
  shows "\<exists>s'. gothmog_schedule s = Some s' \<and> ring (procs s') (rdy_proc_list s') xs \<and> current_running s' = hd xs \<and>
    only_links (procs s) (procs s') \<and> s' = s\<lparr>procs := procs s', current_running := current_running s', cr3 := cr3 s'\<rparr>"
proof -
  have h: "hd xs \<in> set xs" "phead (rdy_proc_list s) = hd xs" using ne r by (simp_all add: ring_def)
  obtain m where m: "procs s (hd xs) = Some m" using ring_in[OF r h(1)] .
  let ?s = "s\<lparr>procs := (procs s)(hd xs \<mapsto> if exec m = 0 then m\<lparr>exec := 1\<rparr> else m), current_running := hd xs, cr3 := PML4T m\<rparr>"
  have "gothmog_schedule s = Some ?s" using c h m ring_head[OF r h(1)] by (simp add: gothmog_schedule_def resume_def upd_proc_def)
  then show ?thesis using ring_exec[OF r m] by (intro exI[of _ ?s]) simp
qed

lemma gothmog_idle: "ring (procs s) (rdy_proc_list s) [] \<Longrightarrow> gothmog_schedule s = Some s"
  by (simp add: ring_def gothmog_schedule_def)

fun turns :: "nat \<Rightarrow> sys \<Rightarrow> sys option" where
  "turns 0 s = Some s"
| "turns (Suc k) s = do { s1 \<leftarrow> gothmog_schedule s; turns k s1 }"

lemma turns_ok:
  assumes "ring (procs s) (rdy_proc_list s) xs" "i < length xs" "current_running s = xs ! i" "queue_empty (kstack_view s) = Some True"
  shows "\<exists>s'. turns k s = Some s' \<and> current_running s' = xs ! ((i + k) mod length xs) \<and> ring (procs s') (rdy_proc_list s') xs"
  using assms
proof (induction k arbitrary: i s)
  case (Suc k)
  obtain s1 where s1: "gothmog_schedule s = Some s1" "ring (procs s1) (rdy_proc_list s1) xs" "current_running s1 = xs ! (Suc i mod length xs)"
    "queue_empty (kstack_view s1) = Some True" using gothmog_turn[OF Suc.prems] by blast
  have "Suc i mod length xs < length xs" using Suc.prems(2) by (intro mod_less_divisor) auto
  from Suc.IH[OF s1(2) this s1(3,4)] show ?case using s1(1) by (simp add: mod_add_left_eq)
qed simp

end
