(* ===== verification/Sleep.thy ===== *)
theory Sleep
  imports Ready
begin

text \<open>
  Sleepers: the two trees in one heap, the invariant of processes, ready list and sleepers, and what going to sleep and waking up do to it.
\<close>

section \<open>Two trees in one heap\<close>

lemma rbt_rep_holds: "rbt_rep hrep F r es \<Longrightarrow> holds hrep (rheap r) (F \<union> fst ` set es)"
  by (auto simp: rbt_rep_def rbt_ok_def addrs_ino)

lemma rbt_rep_disjoint: "rbt_rep hrep F r es \<Longrightarrow> F \<inter> fst ` set es = {}"
  by (auto simp: rbt_rep_def rbt_ok_def addrs_ino)

lemma rbt_rep_heap:
  assumes "rbt_rep hrep F r es" "holds hrep (rheap r') (G \<union> fst ` set es)" "G \<inter> fst ` set es = {}"
    "rtree r' = rtree r" "rnodes r' = rnodes r"
  shows "rbt_rep hrep G r' es"
  using assms by (auto simp: rbt_rep_def rbt_ok_def addrs_ino)

definition tables :: "ptr set \<Rightarrow> ptr set \<Rightarrow> sys \<Rightarrow> (ptr \<times> u64 \<times> ptr) list \<Rightarrow> (ptr \<times> u64 \<times> ptr) list \<Rightarrow> bool" where
  "tables E F s pes ses \<longleftrightarrow> rbt_rep (vmheap_rep E) (F \<union> fst ` set ses) (table_view s) pes \<and>
     rbt_rep (vmheap_rep E) (F \<union> fst ` set pes) (sleeper_view s) ses"

lemma set_view [simp]: "table_view (set_table r s) = r\<lparr>rraw := raw_node s\<rparr>" "sleeper_view (set_sleepers r s) = r\<lparr>rraw := raw_node s\<rparr>"
  by (simp_all add: table_view_def set_table_def sleeper_view_def set_sleepers_def)

lemma view_raw [simp]: "(table_view s)\<lparr>rraw := raw_node s\<rparr> = table_view s" "(sleeper_view s)\<lparr>rraw := raw_node s\<rparr> = sleeper_view s"
  by (simp_all add: table_view_def sleeper_view_def)

lemma rep_raw [simp]: "rbt_rep hrep F (r\<lparr>rraw := w\<rparr>) es = rbt_rep hrep F r es"
  by (simp add: rbt_rep_def rbt_ok_def)

lemma tables_table:
  assumes t: "tables E F s pes ses" and r: "rbt_rep (vmheap_rep E) (F \<union> fst ` set ses) r pes'"
  shows "tables E F (set_table r s) pes' ses"
proof -
  have s2: "rbt_rep (vmheap_rep E) (F \<union> fst ` set pes) (sleeper_view s) ses" using t by (simp add: tables_def)
  have d: "F \<inter> fst ` set ses = {}" using rbt_rep_disjoint[OF s2] by blast
  have "(F \<union> fst ` set pes') \<inter> fst ` set ses = {}" using d rbt_rep_disjoint[OF r] by blast
  moreover have "holds (vmheap_rep E) (rheap r) (F \<union> fst ` set pes' \<union> fst ` set ses)"
    using rbt_rep_holds[OF r] by (simp add: Un_ac)
  ultimately have "rbt_rep (vmheap_rep E) (F \<union> fst ` set pes') (sleeper_view (set_table r s)) ses"
    by (intro rbt_rep_heap[OF s2]) (simp_all add: sleeper_view_def set_table_def)
  then show ?thesis using r by (simp add: tables_def)
qed

lemma tables_sleepers:
  assumes t: "tables E F s pes ses" and r: "rbt_rep (vmheap_rep E) (F \<union> fst ` set pes) r ses'"
  shows "tables E F (set_sleepers r s) pes ses'"
proof -
  have s1: "rbt_rep (vmheap_rep E) (F \<union> fst ` set ses) (table_view s) pes" using t by (simp add: tables_def)
  have d: "F \<inter> fst ` set pes = {}" using rbt_rep_disjoint[OF s1] by blast
  have "(F \<union> fst ` set ses') \<inter> fst ` set pes = {}" using d rbt_rep_disjoint[OF r] by blast
  moreover have "holds (vmheap_rep E) (rheap r) (F \<union> fst ` set ses' \<union> fst ` set pes)"
    using rbt_rep_holds[OF r] by (simp add: Un_ac)
  ultimately have "rbt_rep (vmheap_rep E) (F \<union> fst ` set ses') (table_view (set_sleepers r s)) pes"
    by (intro rbt_rep_heap[OF s1]) (simp_all add: table_view_def set_sleepers_def)
  then show ?thesis using r by (simp add: tables_def)
qed

text \<open>Only the trees and the heap matter.\<close>

lemma tables_cong:
  assumes "process_tree s' = process_tree s" "process_nodes s' = process_nodes s" "sleeper_tree s' = sleeper_tree s"
    "sleeper_nodes s' = sleeper_nodes s" "heap s' = heap s"
  shows "tables E F s' pes ses = tables E F s pes ses"
  using assms by (simp add: tables_def rbt_rep_def rbt_ok_def table_view_def sleeper_view_def)

lemma tables_free:
  assumes t: "tables E F s pes ses" and p: "p \<in> F"
  shows "\<exists>h. vmfree p (heap s) = Some h \<and> tables E (F - {p}) (s\<lparr>heap := h\<rparr>) pes ses"
proof -
  let ?A = "fst ` set pes" and ?B = "fst ` set ses"
  have r: "rbt_rep (vmheap_rep E) (F \<union> ?B) (table_view s) pes" "rbt_rep (vmheap_rep E) (F \<union> ?A) (sleeper_view s) ses"
    using t by (simp_all add: tables_def)
  have d: "F \<inter> ?A = {}" "F \<inter> ?B = {}" "?A \<inter> ?B = {}" using rbt_rep_disjoint[OF r(1)] rbt_rep_disjoint[OF r(2)] by blast+
  have h: "holds (vmheap_rep E) (heap s) (F \<union> ?B \<union> ?A)" using rbt_rep_holds[OF r(1)] by (simp add: table_view_def)
  have "p \<in> F \<union> ?B \<union> ?A" using p by blast
  from vh.dealloc_holds[OF h this] obtain h' where h': "vmfree p (heap s) = Some h'" "holds (vmheap_rep E) h' (F \<union> ?B \<union> ?A - {p})" by blast
  have "F \<union> ?B \<union> ?A - {p} = F - {p} \<union> ?B \<union> ?A" using d p by blast
  then have g: "holds (vmheap_rep E) h' (F - {p} \<union> ?B \<union> ?A)" "holds (vmheap_rep E) h' (F - {p} \<union> ?A \<union> ?B)" using h'(2) by (simp_all add: Un_ac)
  have "rbt_rep (vmheap_rep E) (F - {p} \<union> ?B) (table_view (s\<lparr>heap := h'\<rparr>)) pes"
    using g(1) d by (intro rbt_rep_heap[OF r(1)]) (auto simp: table_view_def)
  moreover have "rbt_rep (vmheap_rep E) (F - {p} \<union> ?A) (sleeper_view (s\<lparr>heap := h'\<rparr>)) ses"
    using g(2) d by (intro rbt_rep_heap[OF r(2)]) (auto simp: sleeper_view_def)
  ultimately show ?thesis using h'(1) by (simp add: tables_def)
qed

section \<open>The invariant\<close>

definition proc_at :: "sys \<Rightarrow> ptr \<Rightarrow> process" where
  "proc_at s p = the (procs s p)"

definition table_ok :: "sys \<Rightarrow> (ptr \<times> u64 \<times> ptr) list \<Rightarrow> ptr list \<Rightarrow> bool" where
  "table_ok s pes xs \<longleftrightarrow> (\<forall>(node, k, p) \<in> set pes. p \<noteq> 0 \<and> procs s p \<noteq> None \<and> k = word_of_int (pid (proc_at s p)) \<and>
     (state (proc_at s p) = PROCESS_STATE_READY \<longleftrightarrow> p \<in> set xs)) \<and> set xs \<subseteq> (\<lambda>e. snd (snd e)) ` set pes \<and> length pes < 2 ^ 32"

definition sleep_ok :: "ptr set \<Rightarrow> sys \<Rightarrow> (ptr \<times> u64 \<times> ptr) list \<Rightarrow> (u64 \<times> ptr) list \<Rightarrow> bool" where
  "sleep_ok F s pes ss \<longleftrightarrow> distinct (map snd ss) \<and> distinct (map (\<lambda>e. sprocess (the (sleepers s (snd e)))) ss) \<and>
     (\<forall>(k, d) \<in> set ss. d \<noteq> 0 \<and> d \<in> F \<and> sleepers s d \<noteq> None \<and> k = get_tree_key (stime (the (sleepers s d))) \<and>
       sprocess (the (sleepers s d)) \<in> (\<lambda>e. snd (snd e)) ` set pes \<and>
       state (proc_at s (sprocess (the (sleepers s d)))) = PROCESS_STATE_SLEEPING)"

definition sys_ok :: "ptr set \<Rightarrow> ptr set \<Rightarrow> sys \<Rightarrow> (ptr \<times> u64 \<times> ptr) list \<Rightarrow> (ptr \<times> u64 \<times> ptr) list \<Rightarrow> ptr list \<Rightarrow> bool" where
  "sys_ok E F s pes ses xs \<longleftrightarrow> tables E F s pes ses \<and> ring (procs s) (rdy_proc_list s) xs \<and> table_ok s pes xs \<and>
     sleep_ok F s pes (map snd ses)"

section \<open>Looking up and waking\<close>

lemma set_table_view [simp]: "set_table (table_view s) s = s" "set_sleepers (sleeper_view s) s = s"
  by (simp_all add: set_table_def table_view_def set_sleepers_def sleeper_view_def)

lemma proc_get_process_ok:
  assumes "tables E F s pes ses"
  shows "proc_get_process i s = Some (case entries pes (word_of_int i) of Some p \<Rightarrow> p | None \<Rightarrow> 0, s)"
proof -
  have "rbt_rep (vmheap_rep E) (F \<union> fst ` set ses) (table_view s) pes" using assms by (simp add: tables_def)
  from rm.value_of_rep[OF this] show ?thesis by (simp add: proc_get_process_def)
qed

lemma entries_member: "ordered pes \<Longrightarrow> (node, k, p) \<in> set pes \<Longrightarrow> entries pes k = Some p"
proof -
  assume o: "ordered pes" and "(node, k, p) \<in> set pes"
  then obtain xs ys where es: "pes = xs @ (node, k, p) # ys" by (auto dest: split_list)
  then show ?thesis using entries_at[of k xs node p ys] ordered_at[of xs node k p ys] o by simp
qed

lemma tables_ordered: "tables E F s pes ses \<Longrightarrow> ordered pes \<and> ordered ses"
  using rbt_rep_facts(1) by (auto simp: tables_def)

lemma proc_find:
  assumes s: "sys_ok E F s pes ses xs" and p: "p \<in> (\<lambda>e. snd (snd e)) ` set pes"
  obtains n node where "procs s p = Some n" "p \<noteq> 0" "proc_get_process (pid n) s = Some (p, s)" "(node, word_of_int (pid n), p) \<in> set pes"
    "state n = PROCESS_STATE_READY \<longleftrightarrow> p \<in> set xs"
proof -
  have t: "tables E F s pes ses" "table_ok s pes xs" using s by (simp_all add: sys_ok_def)
  obtain node k where e: "(node, k, p) \<in> set pes" using p by auto
  then have k: "p \<noteq> 0" "procs s p \<noteq> None" "k = word_of_int (pid (proc_at s p))" "state (proc_at s p) = PROCESS_STATE_READY \<longleftrightarrow> p \<in> set xs"
    using t(2) unfolding table_ok_def by blast+
  obtain n where n: "procs s p = Some n" using k(2) by blast
  have "entries pes k = Some p" using entries_member[OF _ e] tables_ordered[OF t(1)] by blast
  then have "proc_get_process (pid n) s = Some (p, s)" using proc_get_process_ok[OF t(1), of "pid n"] k(3) n by (simp add: proc_at_def)
  then show thesis using that n k e by (simp add: proc_at_def)
qed

text \<open>What neither the ready list nor the trees are part of.\<close>

abbreviation rest :: "sys \<Rightarrow> (ptr \<rightharpoonup> sleeper_data) \<times> pit \<times> ptr \<times> kheap qstate" where
  "rest s \<equiv> (sleepers s, timer s, current_running s, kstack_to_clean s)"

lemma core_fields:
  assumes "core P' q = core P q"
  shows "(P' q = None) = (P q = None)" "P q = Some n \<Longrightarrow> \<exists>n'. P' q = Some n' \<and> state n' = state n \<and> pid n' = pid n \<and> wait_size n' = wait_size n"
proof -
  show "(P' q = None) = (P q = None)" using assms by (auto simp: core_def)
  have f: "state m' = state m \<and> pid m' = pid m \<and> wait_size m' = wait_size m"
    if "m'\<lparr>pnext := 0, pprev := 0, exec := 0\<rparr> = m\<lparr>pnext := 0, pprev := 0, exec := 0\<rparr>" for m m'
    using that by (cases m; cases m') simp
  show "\<exists>n'. P' q = Some n' \<and> state n' = state n \<and> pid n' = pid n \<and> wait_size n' = wait_size n" if "P q = Some n"
    using assms that f by (auto simp: core_def)
qed

lemma proc_insert_ok:
  assumes t: "tables E F s pes ses" and r: "ring (procs s) (rdy_proc_list s) xs" and p: "p \<notin> set xs" "p \<noteq> 0" "procs s p = Some n"
    and e: "(node, word_of_int (pid n), p) \<in> set pes" and len: "length xs + 1 < 2 ^ 32"
  shows "\<exists>s'. proc_insert_to_ready_queue p s = Some s' \<and> tables E F s' pes ses \<and> ring (procs s') (rdy_proc_list s') (xs @ [p]) \<and>
    only_links ((procs s)(p \<mapsto> n\<lparr>state := PROCESS_STATE_READY\<rparr>)) (procs s') \<and> rest s' = rest s"
proof -
  have rp: "rbt_rep (vmheap_rep E) (F \<union> fst ` set ses) (table_view s) pes" using t by (simp add: tables_def)
  obtain r' where b: "bind_key (rbt_insert vmalloc) put_value (word_of_int (pid n)) p (table_view s) = Some (node, r')"
    "rbt_rep (vmheap_rep E) (F \<union> fst ` set ses) r' pes" using rm.bind_same[OF rp e] by blast
  obtain P' l' where i: "ready_insert p (procs s) (rdy_proc_list s) = Some (P', l')" "ring P' l' (xs @ [p])"
    "only_links ((procs s)(p \<mapsto> n\<lparr>state := PROCESS_STATE_READY\<rparr>)) P'" using ready_insert_ok[OF r p len] by blast
  let ?s = "(set_table r' s)\<lparr>procs := P', rdy_proc_list := l'\<rparr>"
  have s1: "procs (set_table r' s) = procs s" "rdy_proc_list (set_table r' s) = rdy_proc_list s" "rest (set_table r' s) = rest s"
    by (simp_all add: set_table_def)
  have "proc_insert_to_ready_queue p s = Some ?s" using p(3) b(1) i(1) s1 by (simp add: proc_insert_to_ready_queue_def)
  moreover have "tables E F ?s pes ses" using tables_table[OF t b(2)] tables_cong[of ?s "set_table r' s"] by simp
  ultimately show ?thesis using i(2,3) s1 by (intro exI[of _ ?s]) simp
qed

lemma wake_one_ok:
  assumes t: "tables E F s pes ses" and r: "ring (procs s) (rdy_proc_list s) xs" and p: "p \<notin> set xs" "p \<noteq> 0" "procs s p = Some n"
    and e: "(node, word_of_int (pid n), p) \<in> set pes" and g: "proc_get_process (pid n) s = Some (p, s)"
    and st: "state n = PROCESS_STATE_SLEEPING" and len: "length xs + 1 < 2 ^ 32"
  shows "\<exists>s'. wake_one p s = Some s' \<and> tables E F s' pes ses \<and> ring (procs s') (rdy_proc_list s') (xs @ [p]) \<and>
    only_links ((procs s)(p \<mapsto> n\<lparr>state := PROCESS_STATE_READY, sleeper_node := 0\<rparr>)) (procs s') \<and> rest s' = rest s"
proof -
  obtain s1 where i: "proc_insert_to_ready_queue p s = Some s1" "tables E F s1 pes ses" "ring (procs s1) (rdy_proc_list s1) (xs @ [p])"
    "only_links ((procs s)(p \<mapsto> n\<lparr>state := PROCESS_STATE_READY\<rparr>)) (procs s1)" "rest s1 = rest s"
    using proc_insert_ok[OF t r p e len] by blast
  have c: "core (procs s1) a = core ((procs s)(p \<mapsto> n\<lparr>state := PROCESS_STATE_READY\<rparr>)) a" for a using i(4) by (simp add: only_links_def)
  obtain n1 where n1: "procs s1 p = Some n1" "state n1 = PROCESS_STATE_READY" using core_fields(2)[OF c, of p] by auto
  have tr: "proc_transfert_to_ready (pid n) PROCESS_STATE_SLEEPING s = Some s1"
    using g p st i(1) n1 by (simp add: proc_transfert_to_ready_def state_defs)
  let ?s = "s1\<lparr>procs := (procs s1)(p \<mapsto> n1\<lparr>sleeper_node := 0\<rparr>)\<rparr>"
  have "wake_one p s = Some ?s" using p st tr n1 by (simp add: wake_one_def state_defs upd_proc_def)
  moreover have "tables E F ?s pes ses" using i(2) tables_cong[of ?s s1] by simp
  moreover have "ring (procs ?s) (rdy_proc_list ?s) (xs @ [p])"
    using ring_cong[OF i(3), of "procs ?s"] n1 by (simp add: nx_def pv_def fun_upd_apply)
  moreover have "n1\<lparr>pnext := 0, pprev := 0, exec := 0\<rparr> = n\<lparr>state := PROCESS_STATE_READY, pnext := 0, pprev := 0, exec := 0\<rparr>" using c[of p] n1 by (simp add: core_def)
  then have "n1\<lparr>sleeper_node := 0, pnext := 0, pprev := 0, exec := 0\<rparr> = n\<lparr>state := PROCESS_STATE_READY, sleeper_node := 0, pnext := 0, pprev := 0, exec := 0\<rparr>"
    by (cases n; cases n1) simp
  then have "only_links ((procs s)(p \<mapsto> n\<lparr>state := PROCESS_STATE_READY, sleeper_node := 0\<rparr>)) (procs ?s)"
    using c by (auto simp: only_links_def core_def fun_upd_apply)
  ultimately show ?thesis using i(5) by (intro exI[of _ ?s]) simp
qed

lemma removed_head:
  assumes "removed p ((p, k, v) # ys) b es'" "distinct (map fst ((p, k, v) # ys))"
  shows "map snd es' = map snd ys"
  using removed_at[of p "[]" k v ys b es'] assms by auto

lemma delete_sleeper_ok:
  assumes t: "tables E F s pes ((node, k, d) # ses)"
  shows "\<exists>s' ses'. delete_sleeper node s = Some s' \<and> tables E F s' pes ses' \<and> map snd ses' = map snd ses \<and>
    procs s' = procs s \<and> rdy_proc_list s' = rdy_proc_list s \<and> rest s' = rest s"
proof -
  have r: "rbt_rep (vmheap_rep E) (F \<union> fst ` set pes) (sleeper_view s) ((node, k, d) # ses)" using t by (simp add: tables_def)
  have "node \<in> fst ` set ((node, k, d) # ses)" by simp
  from vh.rbt_delete_rep[OF r this] obtain r' b ses' where d: "rbt_delete vmfree node (sleeper_view s) = Some r'"
    "removed node ((node, k, d) # ses) b ses'" "rbt_rep (vmheap_rep E) (F \<union> fst ` set pes) r' ses'" by blast
  have "map snd ses' = map snd ses" using removed_head[OF d(2)] rbt_rep_facts(2)[OF r] by blast
  moreover have "tables E F (set_sleepers r' s) pes ses'" using tables_sleepers[OF t d(3)] .
  ultimately show ?thesis using d(1) by (intro exI[of _ "set_sleepers r' s"] exI[of _ ses']) (simp add: delete_sleeper_def set_sleepers_def)
qed

lemma wake_min:
  assumes t: "tables E F s pes ses"
  shows "rbt_minimum (sleeper_view s) = Some (case ses of [] \<Rightarrow> 0 | e # _ \<Rightarrow> fst e, sleeper_view s)"
    "(node, k, d) \<in> set ses \<Longrightarrow> node \<noteq> 0 \<and> get_value (sleeper_view s) node = Some d"
proof -
  have r: "rbt_rep (vmheap_rep E) (F \<union> fst ` set pes) (sleeper_view s) ses" using t by (simp add: tables_def)
  show "rbt_minimum (sleeper_view s) = Some (case ses of [] \<Rightarrow> 0 | e # _ \<Rightarrow> fst e, sleeper_view s)" by (rule rbt_minimum_rep[OF r])
  show "(node, k, d) \<in> set ses \<Longrightarrow> node \<noteq> 0 \<and> get_value (sleeper_view s) node = Some d"
    using rbt_rep_facts(3,4)[OF r] by fastforce
qed

lemma ready_room:
  assumes "table_ok s pes xs" "distinct xs" "p \<in> (\<lambda>e. snd (snd e)) ` set pes" "p \<notin> set xs"
  shows "length xs + 1 < 2 ^ 32"
proof -
  have "insert p (set xs) \<subseteq> (\<lambda>e. snd (snd e)) ` set pes" using assms by (auto simp: table_ok_def)
  then have "card (insert p (set xs)) \<le> card ((\<lambda>e. snd (snd e)) ` set pes)" by (intro card_mono) auto
  also have "\<dots> \<le> length pes" by (metis card_image_le card_length finite_set le_trans)
  finally show ?thesis using assms by (auto simp: table_ok_def distinct_card)
qed

abbreviation sleeper_of :: "sys \<Rightarrow> ptr \<Rightarrow> sleeper_data" where
  "sleeper_of s d \<equiv> the (sleepers s d)"

lemma woken_fields:
  assumes o: "only_links ((procs s)(p \<mapsto> n\<lparr>state := st, sleeper_node := x\<rparr>)) P'" and n: "procs s p = Some n" and q: "procs s q \<noteq> None"
  shows "P' q \<noteq> None \<and> pid (the (P' q)) = pid (proc_at s q) \<and> state (the (P' q)) = (if q = p then st else state (proc_at s q))"
proof -
  have c: "core P' q = core ((procs s)(p \<mapsto> n\<lparr>state := st, sleeper_node := x\<rparr>)) q" using o by (simp add: only_links_def)
  obtain m where m: "procs s q = Some m" using q by blast
  then show ?thesis using core_fields(2)[OF c, of "if q = p then n\<lparr>state := st, sleeper_node := x\<rparr> else m"] n
    by (auto simp: proc_at_def fun_upd_apply split: if_splits)
qed

lemma table_change:
  assumes t: "table_ok s pes xs" and xs': "set xs' \<subseteq> (\<lambda>e. snd (snd e)) ` set pes"
    and k: "\<And>q. procs s q \<noteq> None \<Longrightarrow> (state (proc_at s q) = PROCESS_STATE_READY \<longleftrightarrow> q \<in> set xs) \<Longrightarrow>
      procs s' q \<noteq> None \<and> pid (proc_at s' q) = pid (proc_at s q) \<and> (state (proc_at s' q) = PROCESS_STATE_READY \<longleftrightarrow> q \<in> set xs')"
  shows "table_ok s' pes xs'"
proof -
  have "q \<noteq> 0 \<and> procs s' q \<noteq> None \<and> i = word_of_int (pid (proc_at s' q)) \<and> (state (proc_at s' q) = PROCESS_STATE_READY \<longleftrightarrow> q \<in> set xs')"
    if "(a, i, q) \<in> set pes" for a i q
  proof -
    have "q \<noteq> 0" "procs s q \<noteq> None" "i = word_of_int (pid (proc_at s q))" "state (proc_at s q) = PROCESS_STATE_READY \<longleftrightarrow> q \<in> set xs"
      using t that unfolding table_ok_def by blast+
    then show ?thesis using k[of q] by simp
  qed
  then show ?thesis using t xs' unfolding table_ok_def by auto
qed

lemma table_wake:
  assumes t: "table_ok s pes xs" and p: "p \<in> (\<lambda>e. snd (snd e)) ` set pes"
    and k: "\<And>q. procs s q \<noteq> None \<Longrightarrow> procs s' q \<noteq> None \<and> pid (proc_at s' q) = pid (proc_at s q) \<and>
      state (proc_at s' q) = (if q = p then PROCESS_STATE_READY else state (proc_at s q))"
  shows "table_ok s' pes (xs @ [p])"
  by (rule table_change[OF t]) (use t p k in \<open>auto simp: table_ok_def\<close>)

lemma sleep_change:
  assumes "sleep_ok F s pes ss" "sleepers s' = sleepers s"
    "\<And>q. q \<in> (\<lambda>e. snd (snd e)) ` set pes \<Longrightarrow> state (proc_at s' q) = state (proc_at s q)"
  shows "sleep_ok F s' pes ss"
  using assms by (simp add: sleep_ok_def case_prod_beta)

lemma sleep_wake:
  assumes t: "table_ok s pes xs" and l: "sleep_ok F s pes ((i, d) # ss)"
    and k: "\<And>q. procs s q \<noteq> None \<Longrightarrow> procs s' q \<noteq> None \<and> pid (proc_at s' q) = pid (proc_at s q) \<and>
      state (proc_at s' q) = (if q = sprocess (sleeper_of s d) then PROCESS_STATE_READY else state (proc_at s q))"
    and sl: "sleepers s' = (sleepers s)(d := None)"
  shows "sleep_ok (F - {d}) s' pes ss"
proof -
  have dd: "d \<notin> set (map snd ss)" "distinct (map snd ss)" and dp: "distinct (map (\<lambda>e. sprocess (sleeper_of s (snd e))) ss)"
    "sprocess (sleeper_of s d) \<notin> (\<lambda>e. sprocess (sleeper_of s (snd e))) ` set ss" using l by (auto simp: sleep_ok_def)
  have same: "sleepers s' (snd e) = sleepers s (snd e)" if "e \<in> set ss" for e using that dd(1) sl by (auto simp: fun_upd_apply)
  have m: "map (\<lambda>e. sprocess (sleeper_of s' (snd e))) ss = map (\<lambda>e. sprocess (sleeper_of s (snd e))) ss" using same by simp
  have "a \<noteq> 0 \<and> a \<in> F - {d} \<and> sleepers s' a \<noteq> None \<and> j = get_tree_key (stime (sleeper_of s' a)) \<and>
      sprocess (sleeper_of s' a) \<in> (\<lambda>e. snd (snd e)) ` set pes \<and> state (proc_at s' (sprocess (sleeper_of s' a))) = PROCESS_STATE_SLEEPING"
    if e: "(j, a) \<in> set ss" for j a
  proof -
    have o: "a \<noteq> 0" "a \<in> F" "sleepers s a \<noteq> None" "j = get_tree_key (stime (sleeper_of s a))" "sprocess (sleeper_of s a) \<in> (\<lambda>e. snd (snd e)) ` set pes"
      "state (proc_at s (sprocess (sleeper_of s a))) = PROCESS_STATE_SLEEPING" using l e unfolding sleep_ok_def by auto
    have "a \<noteq> d" "sprocess (sleeper_of s a) \<noteq> sprocess (sleeper_of s d)" using dd(1) dp(2) e by force+
    moreover have "procs s (sprocess (sleeper_of s a)) \<noteq> None" using t o(5) unfolding table_ok_def by auto
    ultimately show ?thesis using o same[OF e] k by simp
  qed
  moreover have "distinct (map (\<lambda>e. sprocess (sleeper_of s' (snd e))) ss)" unfolding m by (rule dp(1))
  ultimately show ?thesis using dd(2) unfolding sleep_ok_def by auto
qed

lemma wake_step:
  assumes s: "sys_ok E F s pes ((node, k, d) # ses) xs" and c: "pit_compare (timer s) (stime (sleeper_of s d))"
  shows "\<exists>s' ses'. wake_up s = wake_up s' \<and> sys_ok E (F - {d}) s' pes ses' (xs @ [sprocess (sleeper_of s d)]) \<and>
    map snd ses' = map snd ses \<and> timer s' = timer s \<and> sleepers s' = (sleepers s)(d := None) \<and>
    current_running s' = current_running s \<and> kstack_to_clean s' = kstack_to_clean s"
proof -
  have t: "tables E F s pes ((node, k, d) # ses)" "ring (procs s) (rdy_proc_list s) xs" "table_ok s pes xs" "sleep_ok F s pes ((k, d) # map snd ses)"
    using s by (simp_all add: sys_ok_def)
  let ?p = "sprocess (sleeper_of s d)"
  have d: "d \<noteq> 0" "d \<in> F" "sleepers s d \<noteq> None" "?p \<in> (\<lambda>e. snd (snd e)) ` set pes" "state (proc_at s ?p) = PROCESS_STATE_SLEEPING"
    using t(4) by (auto simp: sleep_ok_def)
  obtain n pnode where n: "procs s ?p = Some n" "?p \<noteq> 0" "proc_get_process (pid n) s = Some (?p, s)" "(pnode, word_of_int (pid n), ?p) \<in> set pes"
    "state n = PROCESS_STATE_READY \<longleftrightarrow> ?p \<in> set xs" using proc_find[OF s d(4)] by blast
  have st: "state n = PROCESS_STATE_SLEEPING" using d(5) n(1) by (simp add: proc_at_def)
  have nx: "?p \<notin> set xs" using n(5) st by (simp add: state_defs)
  have "length xs + 1 < 2 ^ 32" using ready_room[OF t(3) _ d(4) nx] t(2) by (simp add: ring_def)
  from wake_one_ok[OF t(1,2) nx n(2,1,4,3) st this] obtain s1 where
    w: "wake_one ?p s = Some s1" "tables E F s1 pes ((node, k, d) # ses)" "ring (procs s1) (rdy_proc_list s1) (xs @ [?p])"
      "only_links ((procs s)(?p \<mapsto> n\<lparr>state := PROCESS_STATE_READY, sleeper_node := 0\<rparr>)) (procs s1)" "rest s1 = rest s" by blast
  obtain s2 ses' where e: "delete_sleeper node s1 = Some s2" "tables E F s2 pes ses'" "map snd ses' = map snd ses"
    "procs s2 = procs s1" "rdy_proc_list s2 = rdy_proc_list s1" "rest s2 = rest s1" using delete_sleeper_ok[OF w(2)] by blast
  obtain h where f: "vmfree d (heap s2) = Some h" "tables E (F - {d}) (s2\<lparr>heap := h\<rparr>) pes ses'" using tables_free[OF e(2) d(2)] by blast
  let ?s = "s2\<lparr>heap := h, sleepers := (sleepers s2)(d := None)\<rparr>"
  have "wake_up s = wake_up ?s"
    using wake_min(1)[OF t(1)] wake_min(2)[OF t(1), of node k d] d(1,3) c w(1) e(1) f(1) by (subst wake_up.simps) auto
  moreover have "tables E (F - {d}) ?s pes ses'" using f(2) tables_cong[of ?s "s2\<lparr>heap := h\<rparr>"] by simp
  moreover have k: "procs ?s q \<noteq> None \<and> pid (proc_at ?s q) = pid (proc_at s q) \<and>
      state (proc_at ?s q) = (if q = ?p then PROCESS_STATE_READY else state (proc_at s q))" if "procs s q \<noteq> None" for q
    using woken_fields[OF w(4) n(1) that] e(4) by (simp add: proc_at_def)
  have "table_ok ?s pes (xs @ [?p])" using table_wake[OF t(3) d(4) k] .
  moreover have "sleep_ok (F - {d}) ?s pes (map snd ses')"
    using sleep_wake[OF t(3,4) k] w(5) e(3,6) by simp
  ultimately show ?thesis using w e by (intro exI[of _ ?s] exI[of _ ses']) (simp add: sys_ok_def)
qed

definition due :: "sys \<Rightarrow> ptr \<Rightarrow> bool" where
  "due s d \<longleftrightarrow> pit_compare (timer s) (stime (sleeper_of s d))"

lemma wake_run:
  assumes "sys_ok E F s pes ses xs" "map (\<lambda>e. snd (snd e)) ses = ds"
  shows "\<exists>s' ses'. wake_up s = Some s' \<and>
    sys_ok E (F - set (takeWhile (due s) ds)) s' pes ses' (xs @ map (\<lambda>d. sprocess (sleeper_of s d)) (takeWhile (due s) ds)) \<and>
    map (\<lambda>e. snd (snd e)) ses' = dropWhile (due s) ds \<and> (\<forall>a\<in>set (dropWhile (due s) ds). sleepers s' a = sleepers s a) \<and>
    current_running s' = current_running s \<and> kstack_to_clean s' = kstack_to_clean s"
  using assms
proof (induction ds arbitrary: F s ses xs)
  case Nil
  have "tables E F s pes ses" using Nil.prems by (simp add: sys_ok_def)
  then have "wake_up s = Some s" using wake_min(1)[of E F s pes ses] Nil.prems(2) by (subst wake_up.simps) simp
  then show ?case using Nil.prems by auto
next
  case (Cons d ds)
  obtain node k ses0 where ses: "ses = (node, k, d) # ses0" "map (\<lambda>e. snd (snd e)) ses0 = ds" using Cons.prems(2) by (cases ses) auto
  have s: "sys_ok E F s pes ((node, k, d) # ses0) xs" using Cons.prems(1) ses(1) by simp
  have t: "tables E F s pes ((node, k, d) # ses0)" "sleep_ok F s pes ((k, d) # map snd ses0)" using s by (simp_all add: sys_ok_def)
  have d: "d \<noteq> 0" "sleepers s d \<noteq> None" "d \<notin> set ds" using t(2) ses(2) by (auto simp: sleep_ok_def)
  show ?case
  proof (cases "due s d")
    case False
    have "wake_up s = Some s" using wake_min(1)[OF t(1)] wake_min(2)[OF t(1), of node k d] False d by (subst wake_up.simps) (auto simp: due_def)
    then show ?thesis using Cons.prems False by (intro exI[of _ s] exI[of _ ses]) simp
  next
    case True
    obtain s1 ses1 where w: "wake_up s = wake_up s1" "sys_ok E (F - {d}) s1 pes ses1 (xs @ [sprocess (sleeper_of s d)])"
      "map snd ses1 = map snd ses0" "timer s1 = timer s" "sleepers s1 = (sleepers s)(d := None)"
      "current_running s1 = current_running s" "kstack_to_clean s1 = kstack_to_clean s"
      using wake_step[OF s] True by (auto simp: due_def)
    have "map (\<lambda>e. snd (snd e)) ses1 = map snd (map snd ses1)" by simp
    then have ds1: "map (\<lambda>e. snd (snd e)) ses1 = ds" using w(3) ses(2) by (simp add: o_def)
    have so: "sleeper_of s1 a = sleeper_of s a" if "a \<in> set ds" for a using that d(3) w(5) by (auto simp: fun_upd_apply)
    have du: "takeWhile (due s1) ds = takeWhile (due s) ds" "dropWhile (due s1) ds = dropWhile (due s) ds"
      using so w(4) by (auto simp: due_def intro!: takeWhile_cong dropWhile_cong)
    have sp: "map (\<lambda>d. sprocess (sleeper_of s1 d)) (takeWhile (due s) ds) = map (\<lambda>d. sprocess (sleeper_of s d)) (takeWhile (due s) ds)"
      using so by (intro map_cong) (auto dest: set_takeWhileD)
    from Cons.IH[OF w(2) ds1] obtain s' ses' where i: "wake_up s1 = Some s'"
      "sys_ok E (F - {d} - set (takeWhile (due s1) ds)) s' pes ses' ((xs @ [sprocess (sleeper_of s d)]) @ map (\<lambda>d. sprocess (sleeper_of s1 d)) (takeWhile (due s1) ds))"
      "map (\<lambda>e. snd (snd e)) ses' = dropWhile (due s1) ds" "\<forall>a\<in>set (dropWhile (due s1) ds). sleepers s' a = sleepers s1 a"
      "current_running s' = current_running s1" "kstack_to_clean s' = kstack_to_clean s1" by blast
    have rem: "sleepers s1 a = sleepers s a" if "a \<in> set (dropWhile (due s) ds)" for a
      using set_dropWhileD[OF that] d(3) w(5) by (auto simp: fun_upd_apply)
    have "F - {d} - set (takeWhile (due s) ds) = F - set (takeWhile (due s) (d # ds))" using True by auto
    then show ?thesis using i w(1,6,7) True rem unfolding du sp by (intro exI[of _ s'] exI[of _ ses']) simp
  qed
qed

text \<open>Deadlines whose key does not wrap around are in the tree in the order of time.\<close>

definition key_fits :: "timespec \<Rightarrow> bool" where
  "key_fits t \<longleftrightarrow> unat (msec t) < 1000 \<and> unat (sec t) * 1000 + 999 < 2 ^ 64"

lemma unat_tree_key: "key_fits t \<Longrightarrow> unat (get_tree_key t) = unat (sec t) * 1000 + unat (msec t)"
proof -
  assume f: "key_fits t"
  have "unat (ucast (msec t) :: u64) = unat (msec t)" using unsigned_less[of "msec t", where 'a = nat] by (simp add: unsigned_ucast_eq take_bit_nat_eq_self)
  moreover have "unat (sec t * 1000) = unat (sec t) * 1000"
    using f by (subst unat_mult_lem[THEN iffD1]) (simp_all add: key_fits_def)
  moreover from this have "unat (sec t * 1000) + unat (ucast (msec t) :: u64) < 2 ^ 64" using f calculation by (simp add: key_fits_def)
  ultimately show ?thesis unfolding get_tree_key_def by (subst unat_add_lem[THEN iffD1]) simp_all
qed

lemma due_down:
  assumes "key_fits t" "key_fits u" "get_tree_key t < get_tree_key u" "pit_compare now u"
  shows "pit_compare now t"
proof -
  have k: "unat (sec t) * 1000 + unat (msec t) < unat (sec u) * 1000 + unat (msec u)"
    using assms(3) unat_tree_key[OF assms(1)] unat_tree_key[OF assms(2)] by (simp add: word_less_nat_alt)
  have "unat (msec u) < 1000" "unat (msec t) < 1000" using assms(1,2) by (simp_all add: key_fits_def)
  then have "unat (sec t) < unat (sec u) \<or> unat (sec t) = unat (sec u) \<and> unat (msec t) < unat (msec u)" using k by linarith
  then show ?thesis using assms(4) by (auto simp: pit_compare_def word_less_nat_alt word_unat_eq_iff)
qed

lemma filter_down:
  assumes "sorted_wrt R xs" "\<And>x y. x \<in> set xs \<Longrightarrow> y \<in> set xs \<Longrightarrow> R x y \<Longrightarrow> P y \<Longrightarrow> P x"
  shows "takeWhile P xs = filter P xs \<and> dropWhile P xs = filter (\<lambda>x. \<not> P x) xs"
  using assms
proof (induction xs)
  case (Cons x xs)
  have ih: "takeWhile P xs = filter P xs \<and> dropWhile P xs = filter (\<lambda>x. \<not> P x) xs" using Cons by auto
  show ?case
  proof (cases "P x")
    case False
    then have "\<forall>y\<in>set xs. \<not> P y" using Cons.prems by auto
    then show ?thesis using False by simp
  qed (use ih in simp)
qed simp

section \<open>Going to sleep\<close>

lemma tables_alloc:
  assumes t: "tables E F s pes ses" and n: "n < 2 ^ 36"
  shows "\<exists>p h. vmalloc n (heap s) = Some (p, h) \<and> (p \<noteq> 0 \<longrightarrow> p \<notin> F \<and> tables E (insert p F) (s\<lparr>heap := h\<rparr>) pes ses)"
proof -
  let ?A = "fst ` set pes" and ?B = "fst ` set ses"
  have r: "rbt_rep (vmheap_rep E) (F \<union> ?B) (table_view s) pes" "rbt_rep (vmheap_rep E) (F \<union> ?A) (sleeper_view s) ses"
    using t by (simp_all add: tables_def)
  have d: "F \<inter> ?A = {}" "F \<inter> ?B = {}" "?A \<inter> ?B = {}" using rbt_rep_disjoint[OF r(1)] rbt_rep_disjoint[OF r(2)] by blast+
  have h: "holds (vmheap_rep E) (heap s) (F \<union> ?B \<union> ?A)" using rbt_rep_holds[OF r(1)] by (simp add: table_view_def)
  define A where "A = F \<union> ?B \<union> ?A"
  have "holds (vmheap_rep E) (heap s) A" using h by (simp add: A_def)
  from vh.alloc_holds[OF this n] obtain p h' where p: "vmalloc n (heap s) = Some (p, h')"
    "p \<noteq> 0 \<Longrightarrow> p \<notin> A \<and> holds (vmheap_rep E) h' (insert p A)" by blast
  have "p \<notin> F \<and> tables E (insert p F) (s\<lparr>heap := h'\<rparr>) pes ses" if "p \<noteq> 0"
  proof -
    have f: "p \<notin> F" "p \<notin> ?A" "p \<notin> ?B" and g: "holds (vmheap_rep E) h' (insert p F \<union> ?B \<union> ?A)" "holds (vmheap_rep E) h' (insert p F \<union> ?A \<union> ?B)"
      using p(2)[OF that] by (simp_all add: A_def Un_ac)
    have "rbt_rep (vmheap_rep E) (insert p F \<union> ?B) (table_view (s\<lparr>heap := h'\<rparr>)) pes"
      using g(1) d f by (intro rbt_rep_heap[OF r(1)]) (auto simp: table_view_def)
    moreover have "rbt_rep (vmheap_rep E) (insert p F \<union> ?A) (sleeper_view (s\<lparr>heap := h'\<rparr>)) ses"
      using g(2) d f by (intro rbt_rep_heap[OF r(2)]) (auto simp: sleeper_view_def)
    ultimately show ?thesis using f(1) by (simp add: tables_def)
  qed
  then show ?thesis using p(1) by blast
qed

lemma next_other:
  assumes "distinct xs" "i < length xs" "xs ! i = p" "xs \<noteq> [p]"
  shows "xs ! (Suc i mod length xs) \<noteq> p" "xs ! (Suc i mod length xs) \<in> set (remove1 p xs)"
proof -
  have "length xs \<noteq> 1" using assms(2-4) by (auto simp: length_Suc_conv)
  then have l: "1 < length xs" using assms(2) by linarith
  have m: "Suc i mod length xs < length xs" "Suc i mod length xs \<noteq> i" using assms(2) l by (auto simp: mod_Suc)
  then show "xs ! (Suc i mod length xs) \<noteq> p" using assms(1-3) nth_eq_iff_index_eq[OF assms(1), of "Suc i mod length xs" i] by simp
  then show "xs ! (Suc i mod length xs) \<in> set (remove1 p xs)" using m(1) by (metis in_set_remove1 nth_mem)
qed

lemma proc_to_sleep_ok:
  assumes t: "tables E F s pes ses" and r: "ring (procs s) (rdy_proc_list s) xs" and p: "p \<in> set xs" "procs s p = Some n"
    and g: "proc_get_process (pid n) s = Some (p, s)" and st: "state n = PROCESS_STATE_READY"
    and q: "queue_empty (kstack_view s) = Some True"
  shows "\<exists>s'. proc_to_sleep (pid n) st s = Some s' \<and> tables E F s' pes ses \<and> ring (procs s') (rdy_proc_list s') (remove1 p xs) \<and>
    only_links ((procs s)(p \<mapsto> n\<lparr>state := st\<rparr>)) (procs s') \<and> sleepers s' = sleepers s \<and> timer s' = timer s \<and>
    kstack_to_clean s' = kstack_to_clean s \<and>
    current_running s' = (if current_running s = p then if xs = [p] then 0 else pnext n else current_running s) \<and>
    (xs \<noteq> [p] \<longrightarrow> pnext n \<in> set (remove1 p xs))"
proof -
  have p0: "p \<noteq> 0" using r p(1) unfolding ring_def by metis
  obtain P l where rm: "ready_remove p (procs s) (rdy_proc_list s) = Some (P, l)" "ring P l (remove1 p xs)" "only_links (procs s) P" "nx P p = nx (procs s) p"
    using ready_remove_ok[OF r p(1)] by blast
  obtain n1 where n1: "P p = Some n1" "state n1 = PROCESS_STATE_READY" "pnext n1 = pnext n"
  proof -
    have "core P p = core (procs s) p" using rm(3) by (simp add: only_links_def)
    from core_fields(2)[OF this p(2)] obtain n1 where "P p = Some n1" "state n1 = state n" by blast
    then show thesis using that st rm(4) p(2) by (simp add: nx_def)
  qed
  let ?P = "P(p \<mapsto> n1\<lparr>state := st\<rparr>)" and ?s = "s\<lparr>rdy_proc_list := l, procs := P(p \<mapsto> n1\<lparr>state := st\<rparr>)\<rparr>"
  have tw: "proc_transfert_to_wait p s = Some (0, s\<lparr>procs := P, rdy_proc_list := l\<rparr>)"
    using p(2) st rm(1) by (simp add: proc_transfert_to_wait_def)
  have stv: "(0 AND (NOT PROCESS_STATE_READY AND NOT PROCESS_STATE_RUNNING)) OR st = st" by simp
  have ring': "ring ?P l (remove1 p xs)" using n1(1) by (intro ring_cong[OF rm(2)]) (auto simp: nx_def pv_def fun_upd_apply)
  have ol: "only_links ((procs s)(p \<mapsto> n\<lparr>state := st\<rparr>)) ?P"
  proof -
    have c: "core P a = core (procs s) a" for a using rm(3) by (simp add: only_links_def)
    have "n1\<lparr>pnext := 0, pprev := 0, exec := 0\<rparr> = n\<lparr>pnext := 0, pprev := 0, exec := 0\<rparr>" using c[of p] n1(1) p(2) by (simp add: core_def)
    then have "n1\<lparr>state := st, pnext := 0, pprev := 0, exec := 0\<rparr> = n\<lparr>state := st, pnext := 0, pprev := 0, exec := 0\<rparr>"
      by (cases n; cases n1) simp
    then show ?thesis using c by (auto simp: only_links_def core_def fun_upd_apply)
  qed
  have ps: "proc_to_sleep (pid n) st s = (if p = current_running s then gothmog_schedule (if p = pnext n then ?s\<lparr>current_running := 0\<rparr> else ?s) else Some ?s)"
    using g p0 tw n1 stv by (simp add: proc_to_sleep_def upd_proc_def state_defs)
  have tb: "tables E F ?s pes ses" using t tables_cong[of ?s s] by simp
  obtain i where i: "i < length xs" "xs ! i = p" using p(1) by (auto simp: in_set_conv_nth)
  have nxt: "pnext n = xs ! (Suc i mod length xs)" using ring_next[OF r i(1)] i(2) p(2) by simp
  have other: "pnext n \<noteq> p" "pnext n \<in> set (remove1 p xs)" if "xs \<noteq> [p]"
    using next_other[OF _ i that] nxt r by (simp_all add: ring_def)
  show ?thesis
  proof (cases "p = current_running s")
    case False
    then show ?thesis using ps tb ring' ol other by (intro exI[of _ ?s]) simp
  next
    case cur: True
    show ?thesis
    proof (cases "xs = [p]")
      case True
      have "p = pnext n" "phead l = 0" using nxt True i rm(2) by (simp_all add: ring_def)
      then have "proc_to_sleep (pid n) st s = Some (?s\<lparr>current_running := 0\<rparr>)" using ps cur by (simp add: gothmog_schedule_def)
      moreover have "tables E F (?s\<lparr>current_running := 0\<rparr>) pes ses" using t tables_cong[of "?s\<lparr>current_running := 0\<rparr>" s] by simp
      ultimately show ?thesis using ring' ol cur True by (intro exI[of _ "?s\<lparr>current_running := 0\<rparr>"]) simp
    next
      case False
      note np = other[OF False]
      obtain m where m: "?P (pnext n) = Some m" using ring_in[OF ring' np(2)] .
      let ?s' = "?s\<lparr>procs := ?P(pnext n \<mapsto> if exec m = 0 then m\<lparr>exec := 1\<rparr> else m), current_running := pnext n, cr3 := PML4T m\<rparr>"
      have h: "phead l \<noteq> 0" using ring_head[OF rm(2) np(2)] by blast
      have "gothmog_schedule ?s = Some ?s'"
        using gothmog_next[of ?s "n1\<lparr>state := st\<rparr>" m] h cur p0 q n1 m np by (simp add: kstack_view_def)
      then have "proc_to_sleep (pid n) st s = Some ?s'" using ps cur np by simp
      moreover have "tables E F ?s' pes ses" using t tables_cong[of ?s' s] by simp
      moreover have pe: "procs ?s' = ?P(pnext n \<mapsto> if exec m = 0 then m\<lparr>exec := 1\<rparr> else m)" "rdy_proc_list ?s' = l" by simp_all
      have "only_links ((procs s)(p \<mapsto> n\<lparr>state := st\<rparr>)) (procs ?s')" "ring (procs ?s') (rdy_proc_list ?s') (remove1 p xs)"
        unfolding pe using only_links_trans[OF ol ring_exec(2)[OF ring' m]] ring_exec(1)[OF ring' m] by blast+
      moreover have "sleepers ?s' = sleepers s" "timer ?s' = timer s" "kstack_to_clean ?s' = kstack_to_clean s" "current_running ?s' = (if current_running s = p then if xs = [p] then 0 else pnext n else current_running s)"
        using cur False by simp_all
      ultimately show ?thesis using np(2) by blast
    qed
  qed
qed

text \<open>
  Inserting a deadline: the node is new, or the node of an earlier sleeper with the same deadline, which it then replaces.
\<close>

lemma sleeper_insert:
  assumes t: "tables E F s pes ses" and room: "key \<in> set (ekeys ses) \<or> rbt_room vmalloc (sleeper_view s)"
  shows "\<exists>node r us vs w. rbt_insert vmalloc key (sleeper_view s) = Some (node, r) \<and> tables E F (set_sleepers r s) pes (us @ (node, key, w) # vs) \<and>
    map snd (us @ vs) = filter (\<lambda>e. fst e \<noteq> key) (map snd ses)"
proof -
  have r: "rbt_rep (vmheap_rep E) (F \<union> fst ` set pes) (sleeper_view s) ses" using t by (simp add: tables_def)
  have keep: "filter (\<lambda>e. fst e \<noteq> key) (map snd es) = map snd es" if "key \<notin> set (ekeys es)" for es
    using that by (induction es) (auto simp: entry_key_def)
  show ?thesis
  proof (cases "key \<in> set (ekeys ses)")
    case True
    then obtain us node w vs where es: "ses = us @ (node, key, w) # vs" by (rule entry_split)
    have kx: "key \<notin> set (ekeys us)" "key \<notin> set (ekeys vs)" using rbt_rep_facts(1)[OF r] ordered_at unfolding es by blast+
    have "rbt_insert vmalloc key (sleeper_view s) = Some (node, sleeper_view s)"
      using vh.rbt_insert_present[OF r True] node_at[OF kx(1)] es by simp
    then show ?thesis using t es keep[OF kx(1)] keep[OF kx(2)]
      by (intro exI[of _ node] exI[of _ "sleeper_view s"] exI[of _ us] exI[of _ vs] exI[of _ w]) simp
  next
    case False
    then obtain node r' us vs w where i: "rbt_insert vmalloc key (sleeper_view s) = Some (node, r')" "ses = us @ vs"
      "rbt_rep (vmheap_rep E) (F \<union> fst ` set pes) r' (us @ (node, key, w) # vs)" using rm.ins_absent[OF r False] room by blast
    moreover have "map snd (us @ vs) = filter (\<lambda>e. fst e \<noteq> key) (map snd ses)" using i(2) keep[OF False] by simp
    ultimately show ?thesis using tables_sleepers[OF t i(3)] by blast
  qed
qed

lemma sleep_ok_drop: "sleep_ok F s pes ss \<Longrightarrow> sleep_ok F s pes (filter P ss)"
  by (auto simp: sleep_ok_def distinct_map inj_on_def)

lemma sleep_ok_insert:
  assumes o: "sleep_ok F s pes (us @ vs)" and d: "d \<notin> F" "d \<noteq> 0" and p: "p \<in> (\<lambda>e. snd (snd e)) ` set pes"
      "state (proc_at s p) \<noteq> PROCESS_STATE_SLEEPING" "state (proc_at s' p) = PROCESS_STATE_SLEEPING"
    and k: "\<And>q. q \<noteq> p \<Longrightarrow> q \<in> (\<lambda>e. snd (snd e)) ` set pes \<Longrightarrow> state (proc_at s' q) = state (proc_at s q)"
    and sl: "sleepers s' = (sleepers s)(d \<mapsto> \<lparr>sprocess = p, stime = t\<rparr>)"
  shows "sleep_ok (insert d F) s' pes (us @ (get_tree_key t, d) # vs)"
proof -
  have e: "a \<noteq> 0 \<and> a \<in> F \<and> a \<noteq> d \<and> sleepers s a \<noteq> None \<and> j = get_tree_key (stime (sleeper_of s a)) \<and>
     sprocess (sleeper_of s a) \<in> (\<lambda>e. snd (snd e)) ` set pes \<and> sprocess (sleeper_of s a) \<noteq> p \<and>
     state (proc_at s (sprocess (sleeper_of s a))) = PROCESS_STATE_SLEEPING" if "(j, a) \<in> set (us @ vs)" for j a
    using o that d(1) p(2) unfolding sleep_ok_def by fast
  have same: "sleepers s' (snd e) = sleepers s (snd e)" if "e \<in> set (us @ vs)" for e using that e sl by (metis fun_upd_other prod.collapse)
  have m: "map (\<lambda>e. sprocess (sleeper_of s' (snd e))) zs = map (\<lambda>e. sprocess (sleeper_of s (snd e))) zs" if "set zs \<subseteq> set (us @ vs)" for zs
  proof (rule map_cong)
    show "sprocess (sleeper_of s' (snd e)) = sprocess (sleeper_of s (snd e))" if "e \<in> set zs" for e
      using same[OF subsetD[OF \<open>set zs \<subseteq> set (us @ vs)\<close> that]] by simp
  qed simp
  have "distinct (map (\<lambda>e. sprocess (sleeper_of s' (snd e))) (us @ (get_tree_key t, d) # vs))"
    using o e m[of us] m[of vs] sl unfolding sleep_ok_def by (force simp del: map_eq_conv)
  moreover have "distinct (map snd (us @ (get_tree_key t, d) # vs))" using o e unfolding sleep_ok_def by force
  moreover have "a \<noteq> 0 \<and> a \<in> insert d F \<and> sleepers s' a \<noteq> None \<and> j = get_tree_key (stime (sleeper_of s' a)) \<and>
     sprocess (sleeper_of s' a) \<in> (\<lambda>e. snd (snd e)) ` set pes \<and> state (proc_at s' (sprocess (sleeper_of s' a))) = PROCESS_STATE_SLEEPING"
    if "(j, a) \<in> set (us @ (get_tree_key t, d) # vs)" for j a
  proof (cases "(j, a) \<in> set (us @ vs)")
    case True
    then show ?thesis using e[OF True] same[OF True] k by simp
  next
    case False
    then have "j = get_tree_key t" "a = d" using that by auto
    then show ?thesis using d p sl by simp
  qed
  ultimately show ?thesis unfolding sleep_ok_def by auto
qed

lemma kstack_empty [simp]: "queue_empty (kstack_view s) = queue_empty (kstack_to_clean s)"
  by (simp add: queue_empty_def kstack_view_def)

definition sleep_room :: "timespec \<Rightarrow> sys \<Rightarrow> bool" where
  "sleep_room t s \<longleftrightarrow> (case rbt_insert vmalloc (get_tree_key t) (sleeper_view s) of None \<Rightarrow> False
     | Some (node, r) \<Rightarrow> (case vmalloc sizeof_sleeper_data (rheap r) of None \<Rightarrow> False | Some (d, h) \<Rightarrow> d \<noteq> 0))"

lemma table_sleep:
  assumes t: "table_ok s pes xs" and p: "distinct xs"
    and k: "\<And>q. procs s q \<noteq> None \<Longrightarrow> procs s' q \<noteq> None \<and> pid (proc_at s' q) = pid (proc_at s q) \<and>
      state (proc_at s' q) = (if q = p then PROCESS_STATE_SLEEPING else state (proc_at s q))"
  shows "table_ok s' pes (remove1 p xs)"
  by (rule table_change[OF t]) (use t p k in \<open>auto simp: table_ok_def state_defs\<close>)

lemma sleep_run:
  assumes s: "sys_ok E F s pes ses xs" and p: "p \<in> set xs" and q: "queue_empty (kstack_to_clean s) = Some True"
    and room: "get_tree_key t \<in> set (ekeys ses) \<or> rbt_room vmalloc (sleeper_view s)" "sleep_room t s"
  shows "\<exists>s' d ses' us vs. sleep t p s = Some s' \<and> sys_ok E (insert d F) s' pes ses' (remove1 p xs) \<and> d \<noteq> 0 \<and>
    map snd ses' = us @ (get_tree_key t, d) # vs \<and> us @ vs = filter (\<lambda>e. fst e \<noteq> get_tree_key t) (map snd ses) \<and>
    sleepers s' = (sleepers s)(d \<mapsto> \<lparr>sprocess = p, stime = t\<rparr>) \<and> timer s' = timer s \<and>
    kstack_to_clean s' = kstack_to_clean s \<and>
    current_running s' = (if current_running s = p then if xs = [p] then 0 else pnext (proc_at s p) else current_running s) \<and>
    (xs \<noteq> [p] \<longrightarrow> pnext (proc_at s p) \<in> set (remove1 p xs))"
proof -
  let ?key = "get_tree_key t"
  have tb: "tables E F s pes ses" and rg: "ring (procs s) (rdy_proc_list s) xs" and tk: "table_ok s pes xs" and so: "sleep_ok F s pes (map snd ses)"
    using s by (simp_all add: sys_ok_def)
  have pv: "p \<in> (\<lambda>e. snd (snd e)) ` set pes" using tk p by (auto simp: table_ok_def)
  obtain n pnode where n: "procs s p = Some n" "p \<noteq> 0" "(pnode, word_of_int (pid n), p) \<in> set pes" "state n = PROCESS_STATE_READY"
    using proc_find[OF s pv] p by metis
  obtain node r us vs w where i: "rbt_insert vmalloc ?key (sleeper_view s) = Some (node, r)" "tables E F (set_sleepers r s) pes (us @ (node, ?key, w) # vs)"
    "map snd (us @ vs) = filter (\<lambda>e. fst e \<noteq> ?key) (map snd ses)" using sleeper_insert[OF tb room(1)] by blast
  let ?s1 = "set_sleepers r s"
  have "sizeof_sleeper_data < 2 ^ 36" by (simp add: sizeof_sleeper_data_def)
  from tables_alloc[OF i(2) this] obtain d h where d: "vmalloc sizeof_sleeper_data (heap ?s1) = Some (d, h)"
    "d \<noteq> 0 \<longrightarrow> d \<notin> F \<and> tables E (insert d F) (?s1\<lparr>heap := h\<rparr>) pes (us @ (node, ?key, w) # vs)" by blast
  have d0: "d \<noteq> 0" using room(2) i(1) d(1) by (simp add: sleep_room_def set_sleepers_def)
  let ?P = "(procs s)(p \<mapsto> n\<lparr>sleeper_node := node\<rparr>)"
  define s3 where "s3 = ?s1\<lparr>heap := h, procs := ?P, sleepers := (sleepers s)(d \<mapsto> \<lparr>sprocess = p, stime = t\<rparr>)\<rparr>"
  have t3: "tables E (insert d F) s3 pes (us @ (node, ?key, w) # vs)" using d(2) d0 tables_cong[of s3 "?s1\<lparr>heap := h\<rparr>"] by (simp add: s3_def)
  then have "rbt_rep (vmheap_rep E) (insert d F \<union> fst ` set pes) (sleeper_view s3) (us @ (node, ?key, w) # vs)" by (simp add: tables_def)
  from put_value_rep[OF this, of d] obtain r2 where r2: "put_value node d (sleeper_view s3) = Some r2"
    "rbt_rep (vmheap_rep E) (insert d F \<union> fst ` set pes) r2 (us @ (node, ?key, d) # vs)" by blast
  define s4 where "s4 = set_sleepers r2 s3"
  have t4: "tables E (insert d F) s4 pes (us @ (node, ?key, d) # vs)"
    using tables_sleepers[OF t3 r2(2)] by (simp add: s4_def)
  have f4: "procs s4 = ?P" "rdy_proc_list s4 = rdy_proc_list s" "sleepers s4 = (sleepers s)(d \<mapsto> \<lparr>sprocess = p, stime = t\<rparr>)"
    "timer s4 = timer s" "current_running s4 = current_running s" "kstack_to_clean s4 = kstack_to_clean s"
    by (simp_all add: s4_def s3_def set_sleepers_def)
  have sl: "sleep t p s = proc_to_sleep (pid n) PROCESS_STATE_SLEEPING s4"
    using i(1) d(1) d0 n(1) r2(1) f4(1)
    by (simp add: sleep_def upd_proc_def Let_def s4_def s3_def set_sleepers_def)
  have rg4: "ring (procs s4) (rdy_proc_list s4) xs" unfolding f4
    using n(1) by (intro ring_cong[OF rg]) (auto simp: nx_def pv_def fun_upd_apply)
  have "entries pes (word_of_int (pid n)) = Some p" using entries_member[OF _ n(3)] tables_ordered[OF tb] by blast
  then have g4: "proc_get_process (pid (n\<lparr>sleeper_node := node\<rparr>)) s4 = Some (p, s4)" using proc_get_process_ok[OF t4, of "pid n"] by simp
  have q4: "queue_empty (kstack_view s4) = Some True" using q f4(6) by simp
  have p4: "procs s4 p = Some (n\<lparr>sleeper_node := node\<rparr>)" using f4(1) by simp
  have st4: "state (n\<lparr>sleeper_node := node\<rparr>) = PROCESS_STATE_READY" using n(4) by simp
  from proc_to_sleep_ok[OF t4 rg4 p p4 g4 st4 q4, of PROCESS_STATE_SLEEPING] obtain s' where
    z0: "proc_to_sleep (pid (n\<lparr>sleeper_node := node\<rparr>)) PROCESS_STATE_SLEEPING s4 = Some s'" "tables E (insert d F) s' pes (us @ (node, ?key, d) # vs)" "ring (procs s') (rdy_proc_list s') (remove1 p xs)"
      "only_links ((procs s4)(p \<mapsto> n\<lparr>sleeper_node := node, state := PROCESS_STATE_SLEEPING\<rparr>)) (procs s')" "sleepers s' = sleepers s4" "timer s' = timer s4"
      "kstack_to_clean s' = kstack_to_clean s4"
      "current_running s' = (if current_running s4 = p then if xs = [p] then 0 else pnext (n\<lparr>sleeper_node := node\<rparr>) else current_running s4)"
      "xs \<noteq> [p] \<longrightarrow> pnext (n\<lparr>sleeper_node := node\<rparr>) \<in> set (remove1 p xs)" by blast
  have z: "sleep t p s = Some s'" "tables E (insert d F) s' pes (us @ (node, ?key, d) # vs)" "ring (procs s') (rdy_proc_list s') (remove1 p xs)"
      "only_links ((procs s4)(p \<mapsto> n\<lparr>sleeper_node := node, state := PROCESS_STATE_SLEEPING\<rparr>)) (procs s')" "sleepers s' = sleepers s4" "timer s' = timer s"
      "kstack_to_clean s' = kstack_to_clean s"
      "current_running s' = (if current_running s = p then if xs = [p] then 0 else pnext n else current_running s)"
      "xs \<noteq> [p] \<longrightarrow> pnext n \<in> set (remove1 p xs)"
    using z0 sl f4(4-6) by simp_all
  have k: "procs s' a \<noteq> None \<and> pid (proc_at s' a) = pid (proc_at s a) \<and>
      state (proc_at s' a) = (if a = p then PROCESS_STATE_SLEEPING else state (proc_at s a))" if "procs s a \<noteq> None" for a
  proof -
    have "n\<lparr>sleeper_node := node, state := PROCESS_STATE_SLEEPING\<rparr> = n\<lparr>state := PROCESS_STATE_SLEEPING, sleeper_node := node\<rparr>" by simp
    then have "only_links ((procs s)(p \<mapsto> n\<lparr>state := PROCESS_STATE_SLEEPING, sleeper_node := node\<rparr>)) (procs s')"
      using z(4) unfolding f4(1) fun_upd_upd by (simp only:)
    from woken_fields[OF this n(1) that] show ?thesis by (simp add: proc_at_def)
  qed
  have "table_ok s' pes (remove1 p xs)" using rg by (intro table_sleep[OF tk _ k]) (simp add: ring_def)
  moreover have "sleep_ok (insert d F) s' pes (map snd us @ (?key, d) # map snd vs)"
  proof (rule sleep_ok_insert)
    show "sleep_ok F s pes (map snd us @ map snd vs)" using sleep_ok_drop[OF so, of "\<lambda>e. fst e \<noteq> ?key"] i(3) by simp
    show "d \<notin> F" "d \<noteq> 0" using d(2) d0 by blast+
    show "p \<in> (\<lambda>e. snd (snd e)) ` set pes" by (rule pv)
    show "state (proc_at s p) \<noteq> PROCESS_STATE_SLEEPING" using n by (simp add: proc_at_def state_defs)
    show "state (proc_at s' p) = PROCESS_STATE_SLEEPING" using k[of p] n(1) by simp
    show "state (proc_at s' a) = state (proc_at s a)" if "a \<noteq> p" "a \<in> (\<lambda>e. snd (snd e)) ` set pes" for a
      using k[of a] that tk by (auto simp: table_ok_def)
    show "sleepers s' = (sleepers s)(d \<mapsto> \<lparr>sprocess = p, stime = t\<rparr>)" using z(5) f4(3) by simp
  qed
  ultimately have "sys_ok E (insert d F) s' pes (us @ (node, ?key, d) # vs) (remove1 p xs)" using z by (simp add: sys_ok_def)
  then show ?thesis using z d0 i(3) f4(3) n(1)
    by (intro exI[of _ s'] exI[of _ d] exI[of _ "us @ (node, ?key, d) # vs"] exI[of _ "map snd us"] exI[of _ "map snd vs"]) (simp add: proc_at_def)
qed

end
