(* ===== verification/Tasking_Ex.thy ===== *)
theory Tasking_Ex
  imports Sleep
begin

text \<open>
  A small system on which the properties of processes and the scheduler are instantiated.
\<close>

section \<open>The heap\<close>

text \<open>A virtual heap with four blocks of 88 bytes in use, behind a free one.\<close>

definition vmheap_four :: "pm \<Rightarrow> vmheap" where
  "vmheap_four p = \<lparr>vpm = p,
     vmem = (\<lambda>_. blank_block)(
       KERNEL_VIRTUAL_START := blank_block\<lparr>blk_size := 3624, next_free := KERNEL_VIRTUAL_START + 4096\<rparr>,
       KERNEL_VIRTUAL_START + 3648 := blank_block\<lparr>is_mmapped := True, present := True, blk_size := 88, previous_chunk := KERNEL_VIRTUAL_START\<rparr>,
       KERNEL_VIRTUAL_START + 3760 := blank_block\<lparr>is_mmapped := True, blk_size := 88\<rparr>,
       KERNEL_VIRTUAL_START + 3872 := blank_block\<lparr>is_mmapped := True, blk_size := 88\<rparr>,
       KERNEL_VIRTUAL_START + 3984 := blank_block\<lparr>is_mmapped := True, blk_size := 88\<rparr>),
     vmheap_start = KERNEL_VIRTUAL_START, vmheap_current_top = KERNEL_VIRTUAL_START + 4096,
     first_free = KERNEL_VIRTUAL_START, vmheap_size = 4096, vmheap_current_size = 352,
     alloc_count = 4, free_count = 0\<rparr>"

lemma allocs_list: "allocs m bs = set (map (\<lambda>b. (b, blk_size (m b))) (filter (\<lambda>b. is_mmapped (m b)) bs))"
  by (auto simp: allocs_def)

lemma vmheap_four_rep:
  assumes "pm_wf F p"
  shows "vmheap_rep F (vmheap_four p) {(KERNEL_VIRTUAL_START + 3672, 88), (KERNEL_VIRTUAL_START + 3784, 88),
    (KERNEL_VIRTUAL_START + 3896, 88), (KERNEL_VIRTUAL_START + 4008, 88)}"
proof -
  let ?bs = "[KERNEL_VIRTUAL_START, KERNEL_VIRTUAL_START + 3648, KERNEL_VIRTUAL_START + 3760, KERNEL_VIRTUAL_START + 3872, KERNEL_VIRTUAL_START + 3984]"
  have a: "allocs (vmem (vmheap_four p)) ?bs = {(KERNEL_VIRTUAL_START + 3648, 88), (KERNEL_VIRTUAL_START + 3760, 88),
      (KERNEL_VIRTUAL_START + 3872, 88), (KERNEL_VIRTUAL_START + 3984, 88)}"
    unfolding allocs_list by (simp add: vmheap_four_def blank_block_def insert_commute)
  have "vmheap_inv F (vmheap_four p) ?bs"
    unfolding vmheap_inv_def a
    using assms by (simp add: vmheap_four_def blank_block_def heap_inv_def blk_end_def free_blocks_def
        vmheap_consts sizeof_block_info_def)
  then show ?thesis
    unfolding vmheap_rep_def by (rule user_repI) (simp add: a user_view_def sizeof_block_info_def add.commute)
qed

lemma vmheap_four_room: "\<exists>v. vmalloc 24 (vmheap_four p) = Some (KERNEL_VIRTUAL_START + 3552, v)"
  unfolding vmalloc_def
  by (subst vmalloc_loop.simps)
    (simp add: vmheap_four_def blank_block_def vmheap_consts sizeof_block_info_def heap_alloc_def w64_def w64_sub_def Let_def)

text \<open>
  Two processes: the first is ready and runs, the second sleeps until the fifth second, which has passed. Their entries in
  the table, the entry of the sleeper and its data are the four blocks.
\<close>

definition proc_ex :: "int \<Rightarrow> u8 \<Rightarrow> ptr \<Rightarrow> process" where
  "proc_ex i st next = \<lparr>pprev = next, pid = i, kernel_stack_top = 0, exec = 1, PML4T = 0, wait_size = 0, waiting = [0, 0, 0, 0, 0],
     child = 0, state = st, forked_memory = 0, cwd = 0, sleeper_node = 0, pnext = next\<rparr>"

definition tree_ex :: "ptr \<Rightarrow> rbt_tree" where
  "tree_ex p = \<lparr>rbt_root = p, rbt_leftmost = 0, rbt_lock = kmutex_zero\<rparr>"

definition sys_ex :: sys where
  "sys_ex = \<lparr>procs = [0x100 \<mapsto> proc_ex 1 PROCESS_STATE_READY 0x100, 0x200 \<mapsto> proc_ex 2 PROCESS_STATE_SLEEPING 0],
     sleepers = [KERNEL_VIRTUAL_START + 3672 \<mapsto> \<lparr>sprocess = 0x200, stime = \<lparr>sec = 5, msec = 0\<rparr>\<rparr>],
     process_tree = tree_ex (KERNEL_VIRTUAL_START + 4008),
     process_nodes = [
       KERNEL_VIRTUAL_START + 4008 \<mapsto> \<lparr>rkey = 1, rvalue = 0x100, color = False, parent = 0, children = (\<lambda>e. if e then KERNEL_VIRTUAL_START + 3896 else 0)\<rparr>,
       KERNEL_VIRTUAL_START + 3896 \<mapsto> \<lparr>rkey = 2, rvalue = 0x200, color = True, parent = KERNEL_VIRTUAL_START + 4008, children = (\<lambda>e. 0)\<rparr>],
     sleeper_tree = tree_ex (KERNEL_VIRTUAL_START + 3784),
     sleeper_nodes = [KERNEL_VIRTUAL_START + 3784 \<mapsto>
       \<lparr>rkey = 5000, rvalue = KERNEL_VIRTUAL_START + 3672, color = False, parent = 0, children = (\<lambda>e. 0)\<rparr>],
     raw_node = (\<lambda>_. \<lparr>rkey = 0, rvalue = 0, color = False, parent = 0, children = (\<lambda>_. 0)\<rparr>),
     heap = vmheap_four (pm_boot kqueue_one),
     rdy_proc_list = \<lparr>phead = 0x100, psize = 1, ptail = 0x100\<rparr>,
     current_running = 0x100,
     kstack_to_clean = \<lparr>que = \<lparr>head = 0, tail = 0, head_lock = kmutex_zero, tail_lock = kmutex_zero\<rparr>, qnodes = Map.empty,
       qraw = (\<lambda>_. \<lparr>qvalue = 0, qnext = 0\<rparr>), qheap = kheap_one\<rparr>,
     timer = \<lparr>timer_ticks = 6, timer_ms = 0\<rparr>, cr3 = 0\<rparr>"

abbreviation pes_ex :: "(ptr \<times> u64 \<times> ptr) list" where
  "pes_ex \<equiv> [(KERNEL_VIRTUAL_START + 4008, 1, 0x100), (KERNEL_VIRTUAL_START + 3896, 2, 0x200)]"
abbreviation ses_ex :: "(ptr \<times> u64 \<times> ptr) list" where
  "ses_ex \<equiv> [(KERNEL_VIRTUAL_START + 3784, 5000, KERNEL_VIRTUAL_START + 3672)]"

lemma mutex_zero_free: "mutex_free kmutex_zero"
  by (simp add: kmutex_zero_def mutex_free_def word64_def w64_def)

lemma heap_ex_holds: "holds (vmheap_rep {}) (vmheap_four (pm_boot kqueue_one))
    {KERNEL_VIRTUAL_START + 3672, KERNEL_VIRTUAL_START + 3784, KERNEL_VIRTUAL_START + 3896, KERNEL_VIRTUAL_START + 4008}"
  using vmheap_four_rep[OF pmm_rep_wf[OF pm_boot_one(1)]] by (force simp: holds_def)

lemma tables_ex: "tables {} {KERNEL_VIRTUAL_START + 3672} sys_ex pes_ex ses_ex"
proof -
  let ?t = "Nd (KERNEL_VIRTUAL_START + 4008) False 1 0x100 Lf (Nd (KERNEL_VIRTUAL_START + 3896) True 2 0x200 Lf Lf)"
  let ?u = "Nd (KERNEL_VIRTUAL_START + 3784) False 5000 (KERNEL_VIRTUAL_START + 3672) Lf Lf"
  have "rbt_ok (vmheap_rep {}) ({KERNEL_VIRTUAL_START + 3672} \<union> fst ` set ses_ex) (table_view sys_ex) ?t"
    unfolding rbt_ok_def using heap_ex_holds mutex_zero_free
    by (auto simp: table_view_def sys_ex_def tree_ex_def trep_def entry_key_def insert_commute)
  then have 1: "rbt_rep (vmheap_rep {}) ({KERNEL_VIRTUAL_START + 3672} \<union> fst ` set ses_ex) (table_view sys_ex) pes_ex"
    unfolding rbt_rep_def by (intro exI[of _ ?t]) simp
  have "rbt_ok (vmheap_rep {}) ({KERNEL_VIRTUAL_START + 3672} \<union> fst ` set pes_ex) (sleeper_view sys_ex) ?u"
    unfolding rbt_ok_def using heap_ex_holds mutex_zero_free
    by (auto simp: sleeper_view_def sys_ex_def tree_ex_def trep_def entry_key_def insert_commute)
  then have 2: "rbt_rep (vmheap_rep {}) ({KERNEL_VIRTUAL_START + 3672} \<union> fst ` set pes_ex) (sleeper_view sys_ex) ses_ex"
    unfolding rbt_rep_def by (intro exI[of _ ?u]) simp
  show ?thesis using 1 2 by (simp only: tables_def)
qed

lemma sys_ex_ok: "sys_ok {} {KERNEL_VIRTUAL_START + 3672} sys_ex pes_ex ses_ex [0x100]"
proof -
  have "ring (procs sys_ex) (rdy_proc_list sys_ex) [0x100]"
    by (simp add: ring_def links_def sys_ex_def nx_def pv_def proc_ex_def)
  moreover have "table_ok sys_ex pes_ex [0x100]" by (simp add: table_ok_def sys_ex_def proc_at_def proc_ex_def state_defs)
  moreover have "sleep_ok {KERNEL_VIRTUAL_START + 3672} sys_ex pes_ex (map snd ses_ex)"
    by (simp add: sleep_ok_def sys_ex_def proc_at_def proc_ex_def get_tree_key_def)
  ultimately show ?thesis using tables_ex by (simp add: sys_ok_def)
qed

lemma sys_ex_room: "sleep_room \<lparr>sec = 5, msec = 0\<rparr> sys_ex"
proof -
  have "rbt_rep (vmheap_rep {}) ({KERNEL_VIRTUAL_START + 3672} \<union> fst ` set pes_ex) (sleeper_view sys_ex) ses_ex"
    using tables_ex unfolding tables_def by blast
  from vh.rbt_insert_present[OF this, of 5000]
  have "rbt_insert vmalloc 5000 (sleeper_view sys_ex) = Some (node_with 5000 ses_ex, sleeper_view sys_ex)" by simp
  moreover obtain v where "vmalloc 24 (vmheap_four (pm_boot kqueue_one)) = Some (KERNEL_VIRTUAL_START + 3552, v)"
    using vmheap_four_room by blast
  ultimately show ?thesis
    by (simp add: sleep_room_def get_tree_key_def sizeof_sleeper_data_def sleeper_view_def sys_ex_def)
qed

text \<open>Two ready processes that take turns.\<close>

definition sys_two :: sys where
  "sys_two = sys_ex\<lparr>procs := [0x100 \<mapsto> proc_ex 1 PROCESS_STATE_READY 0x200, 0x200 \<mapsto> proc_ex 2 PROCESS_STATE_READY 0x100],
     rdy_proc_list := \<lparr>phead = 0x100, psize = 2, ptail = 0x200\<rparr>\<rparr>"

end
