(* ===== verification/Tasking.thy ===== *)
theory Tasking
  imports Tasking_Ex
begin

text \<open>
  The properties of processes and the scheduler: the well-formedness of the whole state, going to sleep and waking up, and
  that no ready process starves.
\<close>

section \<open>Well-formed states\<close>

text \<open>The process that runs is ready, no stack waits to be freed, and the deadlines are ordered like their keys.\<close>

definition sys_wf :: "sys \<Rightarrow> bool" where
  "sys_wf s \<longleftrightarrow> (\<exists>E F pes ses xs. sys_ok E F s pes ses xs \<and> (current_running s = 0 \<or> current_running s \<in> set xs) \<and>
     queue_empty (kstack_to_clean s) = Some True \<and> (\<forall>e\<in>set ses. key_fits (stime (sleeper_of s (snd (snd e))))))"

lemma sys_wfI:
  assumes "sys_ok E F s pes ses xs" "current_running s = 0 \<or> current_running s \<in> set xs" "queue_empty (kstack_to_clean s) = Some True"
    "\<And>e. e \<in> set ses \<Longrightarrow> key_fits (stime (sleeper_of s (snd (snd e))))"
  shows "sys_wf s"
  using assms unfolding sys_wf_def by blast

lemma sys_ok_links:
  assumes s: "sys_ok E F s pes ses xs" and r: "ring (procs s') (rdy_proc_list s') xs" and o: "only_links (procs s) (procs s')"
    and f: "process_tree s' = process_tree s" "process_nodes s' = process_nodes s" "sleeper_tree s' = sleeper_tree s"
      "sleeper_nodes s' = sleeper_nodes s" "heap s' = heap s" "sleepers s' = sleepers s"
  shows "sys_ok E F s' pes ses xs"
proof -
  have k: "procs s' q \<noteq> None \<and> pid (proc_at s' q) = pid (proc_at s q) \<and> state (proc_at s' q) = state (proc_at s q)" if "procs s q \<noteq> None" for q
  proof -
    have "core (procs s') q = core (procs s) q" using o by (simp add: only_links_def)
    from core_fields(2)[OF this] that show ?thesis by (auto simp: proc_at_def)
  qed
  have tk: "table_ok s pes xs" and so: "sleep_ok F s pes (map snd ses)" using s by (simp_all add: sys_ok_def)
  have "table_ok s' pes xs" by (rule table_change[OF tk]) (use tk k in \<open>auto simp: table_ok_def\<close>)
  moreover have "sleep_ok F s' pes (map snd ses)"
  proof -
    have "state (proc_at s' q) = state (proc_at s q)" if "q \<in> (\<lambda>e. snd (snd e)) ` set pes" for q
      using k[of q] that tk by (auto simp: table_ok_def)
    then show ?thesis by (rule sleep_change[OF so f(6)])
  qed
  ultimately show ?thesis using s r tables_cong[OF f(1-5)] by (simp add: sys_ok_def)
qed

lemma sys_ok_timer: "sys_ok E F (s\<lparr>timer := t\<rparr>) pes ses xs = sys_ok E F s pes ses xs"
  using tables_cong[of "s\<lparr>timer := t\<rparr>" s E F pes ses] by (simp add: sys_ok_def table_ok_def sleep_ok_def proc_at_def)

lemma gothmog_ok:
  assumes s: "sys_ok E F s pes ses xs" and c: "current_running s = 0 \<or> current_running s \<in> set xs" and q: "queue_empty (kstack_to_clean s) = Some True"
  shows "\<exists>s'. gothmog_schedule s = Some s' \<and> sys_ok E F s' pes ses xs \<and> (current_running s' = 0 \<or> current_running s' \<in> set xs) \<and>
    kstack_to_clean s' = kstack_to_clean s \<and> sleepers s' = sleepers s"
proof -
  have r: "ring (procs s) (rdy_proc_list s) xs" using s by (simp add: sys_ok_def)
  have fin: ?thesis if g: "gothmog_schedule s = Some s'" "ring (procs s') (rdy_proc_list s') xs" "current_running s' \<in> set xs"
      "only_links (procs s) (procs s')" "s' = s\<lparr>procs := procs s', current_running := current_running s', cr3 := cr3 s'\<rparr>" for s'
  proof -
    have f: "process_tree s' = process_tree s" "process_nodes s' = process_nodes s" "sleeper_tree s' = sleeper_tree s"
      "sleeper_nodes s' = sleeper_nodes s" "heap s' = heap s" "sleepers s' = sleepers s" "kstack_to_clean s' = kstack_to_clean s"
      by (subst g(5), simp)+
    show ?thesis using g(1,3) sys_ok_links[OF s g(2,4) f(1-6)] f(6,7) by blast
  qed
  consider "xs = []" | "current_running s = 0" "xs \<noteq> []" | "current_running s \<in> set xs" using c by (cases "xs = []") auto
  then show ?thesis
  proof cases
    case 1
    then show ?thesis using gothmog_idle r s c by auto
  next
    case 2
    then show ?thesis using gothmog_first[OF r 2] fin hd_in_set[of xs] by metis
  next
    case 3
    then obtain i where i: "i < length xs" "current_running s = xs ! i" by (auto simp: in_set_conv_nth)
    have "xs ! (Suc i mod length xs) \<in> set xs" using i(1) by (intro nth_mem mod_less_divisor) auto
    moreover have "queue_empty (kstack_view s) = Some True" using q by simp
    ultimately show ?thesis using gothmog_turn[OF r i] fin by metis
  qed
qed

lemma wake_ok:
  assumes s: "sys_wf s"
  shows "\<exists>s'. wake_up s = Some s' \<and> sys_wf s'"
proof -
  obtain E F pes ses xs where o: "sys_ok E F s pes ses xs" "current_running s = 0 \<or> current_running s \<in> set xs"
    "queue_empty (kstack_to_clean s) = Some True" "\<forall>e\<in>set ses. key_fits (stime (sleeper_of s (snd (snd e))))" using s unfolding sys_wf_def by blast
  define ds where "ds = map (\<lambda>e. snd (snd e)) ses"
  from wake_run[OF o(1), of ds] obtain s' ses' where w: "wake_up s = Some s'"
    "sys_ok E (F - set (takeWhile (due s) ds)) s' pes ses' (xs @ map (\<lambda>d. sprocess (sleeper_of s d)) (takeWhile (due s) ds))"
    "map (\<lambda>e. snd (snd e)) ses' = dropWhile (due s) ds" "\<forall>a\<in>set (dropWhile (due s) ds). sleepers s' a = sleepers s a"
    "current_running s' = current_running s" "kstack_to_clean s' = kstack_to_clean s" by (auto simp: ds_def)
  have "key_fits (stime (sleeper_of s' (snd (snd e))))" if "e \<in> set ses'" for e
  proof -
    have e: "snd (snd e) \<in> set (dropWhile (due s) ds)" using that w(3) by (metis image_eqI list.set_map)
    then have "snd (snd e) \<in> set ds" by (rule set_dropWhileD)
    then show ?thesis using o(4) w(4) e by (auto simp: ds_def)
  qed
  then have "sys_wf s'" using w(5,6) o(2,3) by (intro sys_wfI[OF w(2)]) auto
  then show ?thesis using w(1) by blast
qed

section \<open>Steps\<close>

text \<open>
  What happens to the state: a tick of the timer wakes the sleepers that are due, the scheduler is called, the running
  process goes to sleep.
\<close>

inductive task_step :: "sys \<Rightarrow> sys \<Rightarrow> bool" where
  Tick: "wake_up (s\<lparr>timer := tick (timer s)\<rparr>) = Some s' \<Longrightarrow> task_step s s'"
| Turn: "gothmog_schedule s = Some s' \<Longrightarrow> task_step s s'"
| Sleep: "current_running s \<noteq> 0 \<Longrightarrow> key_fits t \<Longrightarrow> rbt_room vmalloc (sleeper_view s) \<Longrightarrow> sleep_room t s \<Longrightarrow>
    sleep t (current_running s) s = Some s' \<Longrightarrow> task_step s s'"

inductive_cases task_stepE: "task_step s s'"

lemma tick_sys_ok:
  assumes "sys_wf s"
  shows "\<exists>s'. wake_up (s\<lparr>timer := tick (timer s)\<rparr>) = Some s' \<and> sys_wf s'"
proof (rule wake_ok)
  show "sys_wf (s\<lparr>timer := tick (timer s)\<rparr>)" using assms unfolding sys_wf_def sys_ok_timer by simp
qed

lemma turn_ok:
  assumes "sys_wf s"
  shows "\<exists>s'. gothmog_schedule s = Some s' \<and> sys_wf s'"
proof -
  obtain E F pes ses xs where o: "sys_ok E F s pes ses xs" "current_running s = 0 \<or> current_running s \<in> set xs"
    "queue_empty (kstack_to_clean s) = Some True" "\<forall>e\<in>set ses. key_fits (stime (sleeper_of s (snd (snd e))))" using assms unfolding sys_wf_def by blast
  obtain s' where "gothmog_schedule s = Some s'" "sys_ok E F s' pes ses xs" "current_running s' = 0 \<or> current_running s' \<in> set xs"
    "kstack_to_clean s' = kstack_to_clean s" "sleepers s' = sleepers s" using gothmog_ok[OF o(1-3)] by blast
  then show ?thesis using o(3,4) unfolding sys_wf_def by metis
qed

lemma sleep_wf:
  assumes s: "sys_wf s" and c: "current_running s \<noteq> 0" and t: "key_fits t" and room: "rbt_room vmalloc (sleeper_view s)" "sleep_room t s"
  shows "\<exists>s'. sleep t (current_running s) s = Some s' \<and> sys_wf s'"
proof -
  obtain E F pes ses xs where o: "sys_ok E F s pes ses xs" "current_running s = 0 \<or> current_running s \<in> set xs"
    "queue_empty (kstack_to_clean s) = Some True" "\<forall>e\<in>set ses. key_fits (stime (sleeper_of s (snd (snd e))))" using s unfolding sys_wf_def by blast
  have p: "current_running s \<in> set xs" using o(2) c by blast
  have room1: "get_tree_key t \<in> set (ekeys ses) \<or> rbt_room vmalloc (sleeper_view s)" using room(1) by blast
  from sleep_run[OF o(1) p o(3) room1 room(2)] obtain s' d ses' us vs where z: "sleep t (current_running s) s = Some s'"
    "sys_ok E (insert d F) s' pes ses' (remove1 (current_running s) xs)" "map snd ses' = us @ (get_tree_key t, d) # vs"
    "us @ vs = filter (\<lambda>e. fst e \<noteq> get_tree_key t) (map snd ses)" "sleepers s' = (sleepers s)(d \<mapsto> \<lparr>sprocess = current_running s, stime = t\<rparr>)"
    "kstack_to_clean s' = kstack_to_clean s"
    "current_running s' = (if current_running s = current_running s then if xs = [current_running s] then 0 else pnext (proc_at s (current_running s)) else current_running s)"
    "xs \<noteq> [current_running s] \<longrightarrow> pnext (proc_at s (current_running s)) \<in> set (remove1 (current_running s) xs)" by blast
  have cur: "current_running s' = 0 \<or> current_running s' \<in> set (remove1 (current_running s) xs)" using z(7,8) by (auto split: if_splits)
  have "key_fits (stime (sleeper_of s' (snd (snd e))))" if "e \<in> set ses'" for e
  proof (cases "snd (snd e) = d")
    case True
    then show ?thesis using z(5) t by simp
  next
    case False
    have "snd e \<in> set (map snd ses')" using that by simp
    then have "snd e \<in> set (us @ vs)" using z(3) False by auto
    then obtain e' where "e' \<in> set ses" "snd e' = snd e" using z(4) by auto
    then show ?thesis using o(4) z(5) False by (metis fun_upd_other)
  qed
  then have "sys_wf s'" using z(6) cur o(3) by (intro sys_wfI[OF z(2)]) auto
  then show ?thesis using z(1) by blast
qed

lemma sys_ex_wf: "sys_wf sys_ex"
  by (rule sys_wfI[OF sys_ex_ok]) (simp_all add: sys_ex_def queue_empty_def key_fits_def)

section \<open>Properties\<close>



text \<open>
  C4. Waking up is exact: \<open>wake_up\<close> terminates, appends the processes whose deadline has passed to the ready list, in the
  order of their deadlines, removes and frees their entries, and leaves every other sleeper where it is.
\<close>

theorem wake_up_spec:
  assumes "sys_ok E F s pes ses xs" "\<forall>e\<in>set ses. key_fits (stime (sleeper_of s (snd (snd e))))"
  defines "ds \<equiv> map (\<lambda>e. snd (snd e)) ses"
  shows "\<exists>s' ses'. wake_up s = Some s' \<and>
    sys_ok E (F - set (filter (due s) ds)) s' pes ses' (xs @ map (\<lambda>d. sprocess (sleeper_of s d)) (filter (due s) ds)) \<and>
    map (\<lambda>e. snd (snd e)) ses' = filter (\<lambda>d. \<not> due s d) ds"
proof -
  have "sleep_ok F s pes (map snd ses)" "tables E F s pes ses" using assms(1) by (simp_all add: sys_ok_def)
  then have k: "fst (snd e) = get_tree_key (stime (sleeper_of s (snd (snd e))))" if "e \<in> set ses" for e using that by (auto simp: sleep_ok_def)
  have "ordered ses" using tables_ordered[OF \<open>tables E F s pes ses\<close>] by blast
  then have "sorted_wrt (\<lambda>a b. get_tree_key (stime (sleeper_of s a)) < get_tree_key (stime (sleeper_of s b))) ds"
    using k by (auto simp: ds_def ekeys_def sorted_wrt_map entry_key_def intro: sorted_wrt_mono_rel[rotated])
  moreover have "due s a" if "a \<in> set ds" "b \<in> set ds" "get_tree_key (stime (sleeper_of s a)) < get_tree_key (stime (sleeper_of s b))" "due s b" for a b
    using due_down[OF _ _ that(3)] that assms(2) by (auto simp: due_def ds_def)
  ultimately have "takeWhile (due s) ds = filter (due s) ds \<and> dropWhile (due s) ds = filter (\<lambda>d. \<not> due s d) ds" by (rule filter_down)
  then show ?thesis using wake_run[OF assms(1), of ds] by (auto simp: ds_def)
qed

theorem wake_up_spec_witness:
  "\<exists>s'. wake_up sys_ex = Some s' \<and> sys_ok {} {} s' pes_ex [] [0x100, 0x200]"
proof -
  have d: "due sys_ex (KERNEL_VIRTUAL_START + 3672)" "sprocess (sleeper_of sys_ex (KERNEL_VIRTUAL_START + 3672)) = 0x200"
    by (simp_all add: due_def sys_ex_def pit_compare_def)
  have "\<forall>e\<in>set ses_ex. key_fits (stime (sleeper_of sys_ex (snd (snd e))))" by (simp add: sys_ex_def key_fits_def)
  from wake_up_spec[OF sys_ex_ok this] show ?thesis using d by auto
qed

text \<open>
  C7. A process that goes to sleep leaves the ready list and enters the tree under the key of its deadline; if it was
  running, the next process of the ready list runs, and none if there is no other. Every other sleeper stays, but for one
  with the same deadline: its entry is overwritten, and nothing will wake its process.
\<close>

theorem sleep_spec:
  assumes "sys_ok E F s pes ses xs" "p \<in> set xs" "queue_empty (kstack_to_clean s) = Some True"
    and "get_tree_key t \<in> set (ekeys ses) \<or> rbt_room vmalloc (sleeper_view s)" "sleep_room t s"
  shows "\<exists>s' d ses' us vs. sleep t p s = Some s' \<and> sys_ok E (insert d F) s' pes ses' (remove1 p xs) \<and>
    map snd ses' = us @ (get_tree_key t, d) # vs \<and> us @ vs = filter (\<lambda>e. fst e \<noteq> get_tree_key t) (map snd ses) \<and>
    sleepers s' = (sleepers s)(d \<mapsto> \<lparr>sprocess = p, stime = t\<rparr>) \<and>
    current_running s' = (if current_running s = p then if xs = [p] then 0 else pnext (proc_at s p) else current_running s)"
  using sleep_run[OF assms] by blast

theorem sleep_spec_witness:
  "\<exists>s' d ses'. sleep \<lparr>sec = 5, msec = 0\<rparr> 0x100 sys_ex = Some s' \<and> map snd ses' = [(5000, d)] \<and>
    sys_ok {} {d, KERNEL_VIRTUAL_START + 3672} s' pes_ex ses' [] \<and> current_running s' = 0"
proof -
  have "queue_empty (kstack_to_clean sys_ex) = Some True" by (simp add: sys_ex_def queue_empty_def)
  from sleep_spec[OF sys_ex_ok _ this _ sys_ex_room, of "0x100"] show ?thesis
    by (fastforce simp: get_tree_key_def sys_ex_def)
qed



end
