(* ===== verification/Spec2Isabelle.thy ===== *)
theory Spec2Isabelle
  imports Kmutex Queue Pmm Vmm Vmheap Cstring Strdup Encoding Malloc Posix Print Clock Hash_Table Rbt_Map Tasking
begin

text \<open>
  BalrogOS, verified: header to come with the components below.
\<close>

end
